(* ===== verification/HTTP_Prelude.thy ===== *)
theory HTTP_Prelude
  imports Main "HOL-Library.Monad_Syntax"
begin

text \<open>
  Shared vocabulary of the development: the octets of the wire, C character arrays with
  checked accesses, the C string functions the server calls, and the list lemmas the
  component theories share.

  Undefined behaviour is a value: a function of the model that touches memory returns an
  \<open>option\<close>, and \<open>None\<close> is an access outside an object. A theorem that such a function
  returns \<open>Some\<close> is therefore a memory-safety theorem.
\<close>

named_theorems mem_simps \<open>checked array accesses\<close>
named_theorems ctype_defs \<open>the character classes of the source\<close>

section \<open>Octets\<close>

text \<open>
  A C \<^verbatim>\<open>char\<close> is an HOL \<open>char\<close> (eight bits). The source casts to
  \<^verbatim>\<open>unsigned char\<close> before it compares, so comparisons are on the unsigned value.
\<close>

abbreviation byte :: "char \<Rightarrow> nat" where
  "byte c \<equiv> of_char c"

abbreviation NUL :: char where "NUL \<equiv> CHR 0x00"
abbreviation HTAB :: char where "HTAB \<equiv> CHR 0x09"
abbreviation LF :: char where "LF \<equiv> CHR 0x0A"
abbreviation CR :: char where "CR \<equiv> CHR 0x0D"
abbreviation SP :: char where "SP \<equiv> CHR 0x20"
abbreviation CRLF :: string where "CRLF \<equiv> [CR, LF]"

lemma byte_eq_iff: "byte c = byte d \<longleftrightarrow> c = d"
  by simp

section \<open>Character arrays\<close>

text \<open>
  A C array \<^verbatim>\<open>char a[cap]\<close> is its contents, a function of the index, used with
  its capacity. Every access goes through \<open>array_load\<close> or \<open>array_store\<close>, which fail
  outside \<^verbatim>\<open>[0, cap)\<close>.
\<close>

type_synonym carray = "nat \<Rightarrow> char"

definition zeroed :: carray where
  "zeroed = (\<lambda>_. NUL)"

definition array_load :: "nat \<Rightarrow> carray \<Rightarrow> nat \<Rightarrow> char option" where
  "array_load cap a i = (if i < cap then Some (a i) else None)"

definition array_store :: "nat \<Rightarrow> carray \<Rightarrow> nat \<Rightarrow> char \<Rightarrow> carray option" where
  "array_store cap a i c = (if i < cap then Some (a(i := c)) else None)"

text \<open>The first \<open>n\<close> characters of an array, as a list.\<close>

definition array_str :: "carray \<Rightarrow> nat \<Rightarrow> string" where
  "array_str a n = map a [0..<n]"

text \<open>\<^verbatim>\<open>memcmp(a + i, s, strlen(s)) == 0\<close>: every compared octet must exist.\<close>

definition array_eq :: "nat \<Rightarrow> carray \<Rightarrow> nat \<Rightarrow> string \<Rightarrow> bool option" where
  "array_eq cap a i s =
     (if i + length s \<le> cap then Some (map a [i..<i + length s] = s) else None)"

text \<open>
  The idiom \<^verbatim>\<open>a[len++] = c; a[len] = '\0';\<close> that every field of the parser uses.
\<close>

definition push_char :: "nat \<Rightarrow> carray \<Rightarrow> nat \<Rightarrow> char \<Rightarrow> (carray \<times> nat) option" where
  "push_char cap a len c =
     do {
       a1 \<leftarrow> array_store cap a len c;
       a2 \<leftarrow> array_store cap a1 (len + 1) NUL;
       Some (a2, len + 1)
     }"

lemma array_load_in [simp, mem_simps]: "i < cap \<Longrightarrow> array_load cap a i = Some (a i)"
  by (simp add: array_load_def)

lemma array_store_in [simp, mem_simps]: "i < cap \<Longrightarrow> array_store cap a i c = Some (a(i := c))"
  by (simp add: array_store_def)

lemma push_char_in [mem_simps]:
  "len + 1 < cap \<Longrightarrow> push_char cap a len c = Some (a(len := c, len + 1 := NUL), len + 1)"
  by (simp add: push_char_def)

lemma length_array_str [simp]: "length (array_str a n) = n"
  by (simp add: array_str_def)

lemma array_str_0 [simp]: "array_str a 0 = []"
  by (simp add: array_str_def)

lemma nth_array_str [simp]: "i < n \<Longrightarrow> array_str a n ! i = a i"
  by (simp add: array_str_def)

lemma array_str_Suc: "array_str a (Suc n) = array_str a n @ [a n]"
  by (simp add: array_str_def)

lemma array_str_upd_beyond [simp]: "n \<le> i \<Longrightarrow> array_str (a(i := c)) n = array_str a n"
  by (simp add: array_str_def)

lemma array_str_snoc [simp]: "array_str (a(n := c)) (Suc n) = array_str a n @ [c]"
  by (simp add: array_str_Suc)

lemma array_str_push [simp]: "array_str (a(len := c, Suc len := d)) (Suc len) = array_str a len @ [c]"
  by (simp add: array_str_Suc)

lemma array_eq_in [mem_simps]:
  "i + length s \<le> cap \<Longrightarrow> array_eq cap a i s = Some (map a [i..<i + length s] = s)"
  by (simp add: array_eq_def)

lemma drop_array_str: "drop i (array_str a n) = map a [i..<n]"
  by (simp add: array_str_def drop_map)

lemma take_array_str: "m \<le> n \<Longrightarrow> take m (array_str a n) = array_str a m"
  by (simp add: array_str_def take_map)

section \<open>C string functions\<close>

text \<open>
  \<^verbatim>\<open>tolower\<close> in the C locale (the server never calls \<^verbatim>\<open>setlocale\<close>).
\<close>

definition tolower :: "char \<Rightarrow> char" where
  "tolower c =
     (if byte CHR ''A'' \<le> byte c \<and> byte c \<le> byte CHR ''Z''
      then char_of (byte c + 32) else c)"

text \<open>
  \<^verbatim>\<open>strncasecmp(a + i, s, strlen(s)) == 0\<close>: the comparison stops at the first
  difference, so the octets after it are not read.
\<close>

fun strncasecmp_eq :: "nat \<Rightarrow> carray \<Rightarrow> nat \<Rightarrow> string \<Rightarrow> bool option" where
  "strncasecmp_eq cap a i [] = Some True"
| "strncasecmp_eq cap a i (d # ds) =
     do {
       c \<leftarrow> array_load cap a i;
       if tolower c = tolower d then strncasecmp_eq cap a (i + 1) ds else Some False
     }"

text \<open>The same comparison on lists, as \<^verbatim>\<open>strcasecmp\<close> decides it.\<close>

definition caseless_eq :: "string \<Rightarrow> string \<Rightarrow> bool" where
  "caseless_eq s t \<longleftrightarrow> map tolower s = map tolower t"

lemma strncasecmp_eq_in:
  "i + length s \<le> cap \<Longrightarrow>
   strncasecmp_eq cap a i s = Some (caseless_eq (map a [i..<i + length s]) s)"
proof (induction s arbitrary: i)
  case Nil
  then show ?case by (simp add: caseless_eq_def)
next
  case (Cons d ds)
  have "[i..<i + length (d # ds)] = i # [i + 1..<(i + 1) + length ds]"
    by (simp add: upt_rec)
  with Cons show ?case by (simp add: caseless_eq_def)
qed

lemma caseless_eq_length: "caseless_eq s t \<Longrightarrow> length s = length t"
  by (metis caseless_eq_def length_map)

section \<open>Lists\<close>

lemma takeWhile_all: "list_all P xs \<Longrightarrow> takeWhile P (xs @ ys) = xs @ takeWhile P ys"
  by (induction xs) auto

lemma dropWhile_all: "list_all P xs \<Longrightarrow> dropWhile P (xs @ ys) = dropWhile P ys"
  by (induction xs) auto

lemma list_all_snoc [simp]: "list_all P (xs @ [x]) \<longleftrightarrow> list_all P xs \<and> P x"
  by auto


text \<open>Splitting at every occurrence of a separator; the pieces may be empty.\<close>

fun split_on :: "'a \<Rightarrow> 'a list \<Rightarrow> 'a list list" where
  "split_on d [] = [[]]"
| "split_on d (c # cs) =
     (if c = d then [] # split_on d cs
      else (c # hd (split_on d cs)) # tl (split_on d cs))"

lemma split_on_not_Nil [simp]: "split_on d s \<noteq> []"
  by (cases s) auto

lemma split_on_first:
  "split_on d w = takeWhile (\<lambda>c. c \<noteq> d) w # tl (split_on d (dropWhile (\<lambda>c. c \<noteq> d) w))"
  by (induction w) auto

lemma upt_map_Cons: "i < n \<Longrightarrow> map a [i..<n] = a i # map a [Suc i..<n]"
  by (simp add: upt_conv_Cons)

lemma map_upt_takes: "i + k \<le> j \<Longrightarrow> map a [i..<i + k] = take k (map a [i..<j])"
  by (simp add: take_map take_upt)

lemma takeWhile_upt:
  assumes "k \<le> n"
  shows "takeWhile P (map a [k..<n]) = map a [k..<k + length (takeWhile P (map a [k..<n]))]"
proof -
  have "length (takeWhile P (map a [k..<n])) \<le> n - k"
    using length_takeWhile_le [of P "map a [k..<n]"] by simp
  with assms have "map a [k..<k + length (takeWhile P (map a [k..<n]))] =
      take (length (takeWhile P (map a [k..<n]))) (map a [k..<n])"
    by (simp add: map_upt_takes [of _ _ n])
  also have "\<dots> = takeWhile P (map a [k..<n])" by (rule takeWhile_eq_take [symmetric])
  finally show ?thesis by simp
qed

lemma dropWhile_upt:
  "dropWhile P (map a [k..<n]) = map a [k + length (takeWhile P (map a [k..<n]))..<n]"
proof -
  have "dropWhile P (map a [k..<n]) = drop (length (takeWhile P (map a [k..<n]))) (map a [k..<n])"
    by (rule dropWhile_eq_drop)
  then show ?thesis by (simp add: drop_map)
qed

section \<open>NUL-terminated strings\<close>

text \<open>
  \<open>cstring cap a n\<close> says that index \<open>n\<close> of the array holds the terminator and is inside
  the array, and that no earlier octet is NUL.
\<close>

definition cstring :: "nat \<Rightarrow> carray \<Rightarrow> nat \<Rightarrow> bool" where
  "cstring cap a n \<longleftrightarrow> n < cap \<and> a n = NUL \<and> (\<forall>i<n. a i \<noteq> NUL)"

lemma cstring_bound: "cstring cap a n \<Longrightarrow> n < cap"
  by (simp add: cstring_def)

lemma cstring_push:
  "cstring cap a n \<Longrightarrow> Suc n < cap \<Longrightarrow> c \<noteq> NUL \<Longrightarrow> cstring cap (a(n := c, Suc n := NUL)) (Suc n)"
  by (auto simp: cstring_def)

lemma cstring_single: "1 < cap \<Longrightarrow> c \<noteq> NUL \<Longrightarrow> cstring cap (a(0 := c, Suc 0 := NUL)) (Suc 0)"
  by (auto simp: cstring_def)

end
