(* ===== verification/Http_Parser.thy ===== *)
theory Http_Parser
  imports HTTP_Prelude
begin

text \<open>
  The incremental request parser of \<^verbatim>\<open>src/http_parser.h\<close> and
  \<^verbatim>\<open>src/http_parser.c\<close>, as the C code has it: fixed character arrays written
  through checked accesses, lengths beside them, one definition per helper function and
  per \<^verbatim>\<open>case\<close> of the big switch. A field \<^verbatim>\<open>p->x\<close> is \<open>p_x\<close>.
  \<open>None\<close> is an access outside one of the arrays.
\<close>

section \<open>Types and limits (http_parser.h)\<close>

abbreviation HTTP_METHOD_MAX :: nat where "HTTP_METHOD_MAX \<equiv> 16"
abbreviation HTTP_PATH_MAX :: nat where "HTTP_PATH_MAX \<equiv> 2048"
abbreviation HTTP_VERSION_MAX :: nat where "HTTP_VERSION_MAX \<equiv> 16"
abbreviation HTTP_HEADER_LINE_MAX :: nat where "HTTP_HEADER_LINE_MAX \<equiv> 8192"
abbreviation HTTP_MAX_HEADERS :: int where "HTTP_MAX_HEADERS \<equiv> 64"

datatype http_method =
    HTTP_METHOD_GET | HTTP_METHOD_POST | HTTP_METHOD_PUT | HTTP_METHOD_DELETE
  | HTTP_METHOD_HEAD | HTTP_METHOD_OPTIONS | HTTP_METHOD_PATCH | HTTP_METHOD_OTHER

datatype http_connection_directive =
    HTTP_CONN_UNSPECIFIED | HTTP_CONN_CLOSE | HTTP_CONN_KEEPALIVE

datatype http_parse_result =
    HTTP_PARSE_INCOMPLETE | HTTP_PARSE_COMPLETE | HTTP_PARSE_ERROR

datatype http_parser_state =
    HTTP_STATE_METHOD | HTTP_STATE_PATH | HTTP_STATE_VERSION | HTTP_STATE_REQUEST_LINE_LF
  | HTTP_STATE_HEADER_LINE_START | HTTP_STATE_HEADER_NAME | HTTP_STATE_HEADER_VALUE_SP
  | HTTP_STATE_HEADER_VALUE | HTTP_STATE_HEADER_LF | HTTP_STATE_HEADERS_END_LF
  | HTTP_STATE_DONE | HTTP_STATE_ERROR

record http_request_parser =
  p_state :: http_parser_state
  p_method :: carray
  p_method_len :: nat
  p_method_id :: http_method
  p_path :: carray
  p_path_len :: nat
  p_version :: carray
  p_version_len :: nat
  p_http_major :: int
  p_http_minor :: int
  p_header_line :: carray
  p_header_line_len :: nat
  p_header_name_len :: nat
  p_header_count :: int
  p_connection_directive :: http_connection_directive

section \<open>Character classes\<close>

definition is_method_char :: "char \<Rightarrow> bool" where
  "is_method_char c \<longleftrightarrow> byte CHR ''A'' \<le> byte c \<and> byte c \<le> byte CHR ''Z''"

definition is_path_char :: "char \<Rightarrow> bool" where
  "is_path_char c \<longleftrightarrow> byte c > 0x20 \<and> byte c \<noteq> 0x7F"

definition is_header_name_char :: "char \<Rightarrow> bool" where
  "is_header_name_char c \<longleftrightarrow>
     (byte CHR ''A'' \<le> byte c \<and> byte c \<le> byte CHR ''Z'') \<or>
     (byte CHR ''a'' \<le> byte c \<and> byte c \<le> byte CHR ''z'') \<or>
     (byte CHR ''0'' \<le> byte c \<and> byte c \<le> byte CHR ''9'') \<or>
     c = CHR ''-'' \<or> c = CHR ''_''"

definition is_header_value_char :: "char \<Rightarrow> bool" where
  "is_header_value_char c \<longleftrightarrow> c = HTAB \<or> (byte c \<ge> 0x20 \<and> byte c \<noteq> 0x7F)"

text \<open>The test of the version token's octets in \<^verbatim>\<open>case HTTP_STATE_VERSION\<close>.\<close>

definition is_version_char :: "char \<Rightarrow> bool" where
  "is_version_char c \<longleftrightarrow> 0x21 \<le> byte c \<and> byte c \<le> 0x7E"

definition is_digit :: "char \<Rightarrow> bool" where
  "is_digit c \<longleftrightarrow> byte CHR ''0'' \<le> byte c \<and> byte c \<le> byte CHR ''9''"

definition is_valid_version :: "carray \<Rightarrow> nat \<Rightarrow> bool" where
  "is_valid_version v len \<longleftrightarrow>
     len = 8 \<and> v 0 = CHR ''H'' \<and> v 1 = CHR ''T'' \<and> v 2 = CHR ''T'' \<and> v 3 = CHR ''P'' \<and>
     v 4 = CHR ''/'' \<and> is_digit (v 5) \<and> v 6 = CHR ''.'' \<and> is_digit (v 7)"

section \<open>Method classification\<close>

definition known_methods :: "(string \<times> http_method) list" where
  "known_methods =
     [(''GET'', HTTP_METHOD_GET), (''POST'', HTTP_METHOD_POST), (''PUT'', HTTP_METHOD_PUT),
      (''DELETE'', HTTP_METHOD_DELETE), (''HEAD'', HTTP_METHOD_HEAD),
      (''OPTIONS'', HTTP_METHOD_OPTIONS), (''PATCH'', HTTP_METHOD_PATCH)]"

fun classify_method_in :: "(string \<times> http_method) list \<Rightarrow> carray \<Rightarrow> nat \<Rightarrow> http_method option" where
  "classify_method_in [] m len = Some HTTP_METHOD_OTHER"
| "classify_method_in ((name, mid) # ks) m len =
     (if len = length name
      then do {
        eq \<leftarrow> array_eq HTTP_METHOD_MAX m 0 name;
        if eq then Some mid else classify_method_in ks m len
      }
      else classify_method_in ks m len)"

definition classify_method :: "carray \<Rightarrow> nat \<Rightarrow> http_method option" where
  "classify_method m len = classify_method_in known_methods m len"

section \<open>The Connection header\<close>

definition header_name_is :: "http_request_parser \<Rightarrow> string \<Rightarrow> bool option" where
  "header_name_is p name =
     (if p_header_name_len p = length name
      then strncasecmp_eq HTTP_HEADER_LINE_MAX (p_header_line p) 0 name
      else Some False)"

definition is_list_sep :: "char \<Rightarrow> bool" where
  "is_list_sep c \<longleftrightarrow> c = SP \<or> c = HTAB \<or> c = CHR '',''"

text \<open>
  The four loops of \<^verbatim>\<open>note_connection_header\<close>. The pointers are indices into
  \<^verbatim>\<open>header_line\<close>; running off the array is \<open>None\<close>, which is also what makes the
  recursion end.
\<close>

function skip_seps :: "carray \<Rightarrow> nat \<Rightarrow> nat option" where
  "skip_seps a cursor =
     (if cursor < HTTP_HEADER_LINE_MAX
      then (if is_list_sep (a cursor) then skip_seps a (cursor + 1) else Some cursor)
      else None)"
  by pat_completeness auto
termination
  by (relation "measure (\<lambda>(a, cursor). HTTP_HEADER_LINE_MAX - cursor)") auto

function scan_token :: "carray \<Rightarrow> nat \<Rightarrow> nat option" where
  "scan_token a cursor =
     (if cursor < HTTP_HEADER_LINE_MAX
      then (if a cursor \<noteq> NUL \<and> a cursor \<noteq> CHR '',''
            then scan_token a (cursor + 1) else Some cursor)
      else None)"
  by pat_completeness auto
termination
  by (relation "measure (\<lambda>(a, cursor). HTTP_HEADER_LINE_MAX - cursor)") auto

fun trim_token_end :: "carray \<Rightarrow> nat \<Rightarrow> nat \<Rightarrow> nat" where
  "trim_token_end a tok_start tok_end =
     (if tok_end > tok_start \<and> (a (tok_end - 1) = SP \<or> a (tok_end - 1) = HTAB)
      then trim_token_end a tok_start (tok_end - 1) else tok_end)"

declare skip_seps.simps [simp del] scan_token.simps [simp del] trim_token_end.simps [simp del]

definition token_directive ::
  "carray \<Rightarrow> nat \<Rightarrow> nat \<Rightarrow> http_connection_directive \<Rightarrow> http_connection_directive option" where
  "token_directive a tok_start tok_len d =
     do {
       is_close \<leftarrow> (if tok_len = 5 then strncasecmp_eq HTTP_HEADER_LINE_MAX a tok_start ''close''
                    else Some False);
       if is_close then Some HTTP_CONN_CLOSE
       else do {
         is_keep \<leftarrow> (if tok_len = 10
                     then strncasecmp_eq HTTP_HEADER_LINE_MAX a tok_start ''keep-alive''
                     else Some False);
         Some (if is_keep then HTTP_CONN_KEEPALIVE else d)
       }
     }"

lemma skip_seps_ge: "skip_seps a i = Some j \<Longrightarrow> i \<le> j"
  by (induction a i rule: skip_seps.induct)
     (subst (asm) (2) skip_seps.simps, auto split: if_splits)

lemma skip_seps_stop: "skip_seps a i = Some j \<Longrightarrow> j < HTTP_HEADER_LINE_MAX \<and> \<not> is_list_sep (a j)"
  by (induction a i rule: skip_seps.induct)
     (subst (asm) (2) skip_seps.simps, auto split: if_splits)

lemma scan_token_ge: "scan_token a i = Some j \<Longrightarrow> i \<le> j"
  by (induction a i rule: scan_token.induct)
     (subst (asm) (2) scan_token.simps, auto split: if_splits)

lemma scan_token_gt:
  "scan_token a i = Some j \<Longrightarrow> a i \<noteq> NUL \<Longrightarrow> a i \<noteq> CHR '','' \<Longrightarrow> i < j"
  by (subst (asm) scan_token.simps) (auto split: if_splits dest: scan_token_ge)

lemma not_list_sep_comma: "\<not> is_list_sep c \<Longrightarrow> c \<noteq> CHR '',''"
  by (auto simp: is_list_sep_def)

function note_connection_from ::
  "carray \<Rightarrow> nat \<Rightarrow> http_connection_directive \<Rightarrow> http_connection_directive option" where
  "note_connection_from a cursor d =
     (if \<not> cursor < HTTP_HEADER_LINE_MAX then None
      else if a cursor = NUL then Some d
      else case skip_seps a cursor of
        None \<Rightarrow> None
      | Some tok_start \<Rightarrow>
          if a tok_start = NUL then Some d
          else (case scan_token a tok_start of
            None \<Rightarrow> None
          | Some next \<Rightarrow>
              (let tok_end = trim_token_end a tok_start next
               in case token_directive a tok_start (tok_end - tok_start) d of
                    None \<Rightarrow> None
                  | Some d' \<Rightarrow> note_connection_from a next d')))"
  by pat_completeness auto
termination
proof (relation "measure (\<lambda>(a, cursor, d). HTTP_HEADER_LINE_MAX - cursor)", simp)
  fix a :: carray and cursor tok_start "next" tok_end :: nat
    and d d' :: http_connection_directive
  assume "\<not> \<not> cursor < HTTP_HEADER_LINE_MAX" and skip: "skip_seps a cursor = Some tok_start"
    and "a tok_start \<noteq> NUL" and scan: "scan_token a tok_start = Some next"
  then have "cursor \<le> tok_start" "tok_start < next"
    by (auto dest: skip_seps_ge skip_seps_stop not_list_sep_comma intro: scan_token_gt)
  with \<open>\<not> \<not> cursor < HTTP_HEADER_LINE_MAX\<close>
  show "((a, next, d'), a, cursor, d) \<in> measure (\<lambda>(a, cursor, d). HTTP_HEADER_LINE_MAX - cursor)"
    by simp
qed

declare note_connection_from.simps [simp del]

definition note_connection_header :: "http_request_parser \<Rightarrow> http_request_parser option" where
  "note_connection_header p =
     do {
       d \<leftarrow> note_connection_from (p_header_line p) (p_header_name_len p) (p_connection_directive p);
       Some (p\<lparr>p_connection_directive := d\<rparr>)
     }"

section \<open>Initialisation and the states of the machine\<close>

text \<open>\<^verbatim>\<open>memset\<close> of the whole struct: every field has its zero value.\<close>

definition http_parser_init :: http_request_parser where
  "http_parser_init =
     \<lparr> p_state = HTTP_STATE_METHOD,
       p_method = zeroed, p_method_len = 0, p_method_id = HTTP_METHOD_GET,
       p_path = zeroed, p_path_len = 0,
       p_version = zeroed, p_version_len = 0, p_http_major = 0, p_http_minor = 0,
       p_header_line = zeroed, p_header_line_len = 0, p_header_name_len = 0, p_header_count = 0,
       p_connection_directive = HTTP_CONN_UNSPECIFIED \<rparr>"

text \<open>
  One definition per \<^verbatim>\<open>case\<close>. The result is the parser after the
  \<^verbatim>\<open>switch\<close> and the value of \<^verbatim>\<open>advance\<close>.
\<close>

definition parser_fail :: "http_request_parser \<Rightarrow> http_request_parser" where
  "parser_fail p = p\<lparr>p_state := HTTP_STATE_ERROR\<rparr>"

definition on_method :: "http_request_parser \<Rightarrow> char \<Rightarrow> (http_request_parser \<times> bool) option" where
  "on_method p c =
     (if c = SP then
        (if p_method_len p = 0 then Some (parser_fail p, True)
         else do {
           mid \<leftarrow> classify_method (p_method p) (p_method_len p);
           Some (p\<lparr>p_method_id := mid, p_state := HTTP_STATE_PATH\<rparr>, True)
         })
      else if is_method_char c then
        (if p_method_len p \<ge> HTTP_METHOD_MAX - 1 then Some (parser_fail p, True)
         else do {
           (a, n) \<leftarrow> push_char HTTP_METHOD_MAX (p_method p) (p_method_len p) c;
           Some (p\<lparr>p_method := a, p_method_len := n\<rparr>, True)
         })
      else Some (parser_fail p, True))"

definition on_path :: "http_request_parser \<Rightarrow> char \<Rightarrow> (http_request_parser \<times> bool) option" where
  "on_path p c =
     (if c = SP then
        (if p_path_len p = 0 then Some (parser_fail p, True)
         else Some (p\<lparr>p_state := HTTP_STATE_VERSION\<rparr>, True))
      else if is_path_char c then
        (if p_path_len p \<ge> HTTP_PATH_MAX - 1 then Some (parser_fail p, True)
         else do {
           (a, n) \<leftarrow> push_char HTTP_PATH_MAX (p_path p) (p_path_len p) c;
           Some (p\<lparr>p_path := a, p_path_len := n\<rparr>, True)
         })
      else Some (parser_fail p, True))"

definition on_version :: "http_request_parser \<Rightarrow> char \<Rightarrow> (http_request_parser \<times> bool) option" where
  "on_version p c =
     (if c = CR then
        (if \<not> is_valid_version (p_version p) (p_version_len p) then Some (parser_fail p, True)
         else Some (p\<lparr>p_http_major := int (byte (p_version p 5)) - int (byte CHR ''0''),
                      p_http_minor := int (byte (p_version p 7)) - int (byte CHR ''0''),
                      p_state := HTTP_STATE_REQUEST_LINE_LF\<rparr>, True))
      else if is_version_char c then
        (if p_version_len p \<ge> HTTP_VERSION_MAX - 1 then Some (parser_fail p, True)
         else do {
           (a, n) \<leftarrow> push_char HTTP_VERSION_MAX (p_version p) (p_version_len p) c;
           Some (p\<lparr>p_version := a, p_version_len := n\<rparr>, True)
         })
      else Some (parser_fail p, True))"

definition on_request_line_lf :: "http_request_parser \<Rightarrow> char \<Rightarrow> (http_request_parser \<times> bool) option" where
  "on_request_line_lf p c =
     Some (p\<lparr>p_state := (if c = LF then HTTP_STATE_HEADER_LINE_START else HTTP_STATE_ERROR)\<rparr>, True)"

definition on_header_line_start :: "http_request_parser \<Rightarrow> char \<Rightarrow> (http_request_parser \<times> bool) option" where
  "on_header_line_start p c =
     (if c = CR then Some (p\<lparr>p_state := HTTP_STATE_HEADERS_END_LF\<rparr>, True)
      else if is_header_name_char c then
        (if p_header_count p \<ge> HTTP_MAX_HEADERS then Some (parser_fail p, True)
         else do {
           (a, n) \<leftarrow> push_char HTTP_HEADER_LINE_MAX (p_header_line p) 0 c;
           Some (p\<lparr>p_header_line := a, p_header_line_len := n,
                   p_state := HTTP_STATE_HEADER_NAME\<rparr>, True)
         })
      else Some (parser_fail p, True))"

definition on_header_name :: "http_request_parser \<Rightarrow> char \<Rightarrow> (http_request_parser \<times> bool) option" where
  "on_header_name p c =
     (if c = CHR '':'' then
        Some (p\<lparr>p_header_name_len := p_header_line_len p,
                p_state := HTTP_STATE_HEADER_VALUE_SP\<rparr>, True)
      else if is_header_name_char c then
        (if p_header_line_len p \<ge> HTTP_HEADER_LINE_MAX - 1 then Some (parser_fail p, True)
         else do {
           (a, n) \<leftarrow> push_char HTTP_HEADER_LINE_MAX (p_header_line p) (p_header_line_len p) c;
           Some (p\<lparr>p_header_line := a, p_header_line_len := n\<rparr>, True)
         })
      else Some (parser_fail p, True))"

definition on_header_value_sp :: "http_request_parser \<Rightarrow> char \<Rightarrow> (http_request_parser \<times> bool) option" where
  "on_header_value_sp p c =
     (if c = SP \<or> c = HTAB then Some (p, True)
      else Some (p\<lparr>p_state := HTTP_STATE_HEADER_VALUE\<rparr>, False))"

definition on_header_value :: "http_request_parser \<Rightarrow> char \<Rightarrow> (http_request_parser \<times> bool) option" where
  "on_header_value p c =
     (if c = CR then Some (p\<lparr>p_state := HTTP_STATE_HEADER_LF\<rparr>, True)
      else if is_header_value_char c then
        (if p_header_line_len p \<ge> HTTP_HEADER_LINE_MAX - 1 then Some (parser_fail p, True)
         else do {
           (a, n) \<leftarrow> push_char HTTP_HEADER_LINE_MAX (p_header_line p) (p_header_line_len p) c;
           Some (p\<lparr>p_header_line := a, p_header_line_len := n\<rparr>, True)
         })
      else Some (parser_fail p, True))"

definition on_header_lf :: "http_request_parser \<Rightarrow> char \<Rightarrow> (http_request_parser \<times> bool) option" where
  "on_header_lf p c =
     (if c = LF then
        do {
          is_conn \<leftarrow> header_name_is p ''Connection'';
          p1 \<leftarrow> (if is_conn then note_connection_header p else Some p);
          Some (p1\<lparr>p_header_count := p_header_count p1 + 1,
                   p_state := HTTP_STATE_HEADER_LINE_START\<rparr>, True)
        }
      else Some (parser_fail p, True))"

definition on_headers_end_lf :: "http_request_parser \<Rightarrow> char \<Rightarrow> (http_request_parser \<times> bool) option" where
  "on_headers_end_lf p c =
     Some (p\<lparr>p_state := (if c = LF then HTTP_STATE_DONE else HTTP_STATE_ERROR)\<rparr>, True)"

definition parse_byte :: "http_request_parser \<Rightarrow> char \<Rightarrow> (http_request_parser \<times> bool) option" where
  "parse_byte p c =
     (case p_state p of
        HTTP_STATE_METHOD \<Rightarrow> on_method p c
      | HTTP_STATE_PATH \<Rightarrow> on_path p c
      | HTTP_STATE_VERSION \<Rightarrow> on_version p c
      | HTTP_STATE_REQUEST_LINE_LF \<Rightarrow> on_request_line_lf p c
      | HTTP_STATE_HEADER_LINE_START \<Rightarrow> on_header_line_start p c
      | HTTP_STATE_HEADER_NAME \<Rightarrow> on_header_name p c
      | HTTP_STATE_HEADER_VALUE_SP \<Rightarrow> on_header_value_sp p c
      | HTTP_STATE_HEADER_VALUE \<Rightarrow> on_header_value p c
      | HTTP_STATE_HEADER_LF \<Rightarrow> on_header_lf p c
      | HTTP_STATE_HEADERS_END_LF \<Rightarrow> on_headers_end_lf p c
      | HTTP_STATE_DONE \<Rightarrow> Some (p, True)
      | HTTP_STATE_ERROR \<Rightarrow> Some (p, True))"

lemmas on_state_defs =
  on_method_def on_path_def on_version_def on_request_line_lf_def on_header_line_start_def
  on_header_name_def on_header_value_sp_def on_header_value_def on_header_lf_def
  on_headers_end_lf_def parser_fail_def

text \<open>
  The only byte that is not consumed is the one that ends the optional white space after
  the colon: the machine then leaves \<open>HTTP_STATE_HEADER_VALUE_SP\<close>. This is why the
  \<^verbatim>\<open>while\<close> loop ends.
\<close>

lemma parse_byte_stays:
  "parse_byte p c = Some (p', False) \<Longrightarrow>
   p_state p = HTTP_STATE_HEADER_VALUE_SP \<and> p' = p\<lparr>p_state := HTTP_STATE_HEADER_VALUE\<rparr>"
  by (auto simp: parse_byte_def on_state_defs bind_eq_Some_conv
      split: http_parser_state.splits if_splits)

section \<open>The driver\<close>

definition loop_measure :: "http_request_parser \<Rightarrow> string \<Rightarrow> nat \<Rightarrow> nat" where
  "loop_measure p data i =
     2 * (length data - i) + (if p_state p = HTTP_STATE_HEADER_VALUE_SP then 1 else 0)"

function execute_loop ::
  "http_request_parser \<Rightarrow> string \<Rightarrow> nat \<Rightarrow>
   (http_request_parser \<times> http_parse_result \<times> nat) option" where
  "execute_loop p data i =
     (if i < length data then
        (case parse_byte p (data ! i) of
           None \<Rightarrow> None
         | Some (p', advance) \<Rightarrow>
             (let i' = (if advance then i + 1 else i)
              in if p_state p' = HTTP_STATE_ERROR then Some (p', HTTP_PARSE_ERROR, i')
                 else if p_state p' = HTTP_STATE_DONE then Some (p', HTTP_PARSE_COMPLETE, i')
                 else execute_loop p' data i'))
      else Some (p, HTTP_PARSE_INCOMPLETE, length data))"
  by pat_completeness auto
termination
  by (relation "measure (\<lambda>(p, data, i). loop_measure p data i)")
     (auto simp: loop_measure_def dest: parse_byte_stays split: if_splits)

declare execute_loop.simps [simp del]

definition http_parser_execute ::
  "http_request_parser \<Rightarrow> string \<Rightarrow> (http_request_parser \<times> http_parse_result \<times> nat) option" where
  "http_parser_execute p data =
     (if p_state p = HTTP_STATE_DONE then Some (p, HTTP_PARSE_COMPLETE, 0)
      else if p_state p = HTTP_STATE_ERROR then Some (p, HTTP_PARSE_ERROR, 0)
      else execute_loop p data 0)"

definition http_parser_should_keep_alive :: "http_request_parser \<Rightarrow> bool" where
  "http_parser_should_keep_alive p =
     (if p_connection_directive p = HTTP_CONN_CLOSE then False
      else if p_connection_directive p = HTTP_CONN_KEEPALIVE then True
      else p_http_major p = 1 \<and> p_http_minor p \<ge> 1)"

end
