(* ===== verification/Incremental.thy ===== *)
theory Incremental
  imports HTTP_Prelude
begin

text \<open>
  The interface of an incremental parser: a parser that is fed a stream in chunks of any
  size and answers, per chunk, whether it wants more. What a client of such a parser may
  rely on is proved once here, from four laws; the request parser provides them.
\<close>

text \<open>
  Feeding chunks one after the other until one of them ends the message. The count is of
  the items consumed over all chunks.
\<close>

fun feed_chunks ::
  "('s \<Rightarrow> 'b list \<Rightarrow> ('s \<times> 'r \<times> nat) option) \<Rightarrow> 'r \<Rightarrow> 's \<Rightarrow> 'b list list \<Rightarrow>
   ('s \<times> 'r \<times> nat) option" where
  "feed_chunks exec more s [] = Some (s, more, 0)"
| "feed_chunks exec more s (x # xs) =
     (case exec s x of
        None \<Rightarrow> None
      | Some (s', r, n) \<Rightarrow>
          if r = more
          then map_option (\<lambda>(s'', r', m). (s'', r', n + m)) (feed_chunks exec more s' xs)
          else Some (s', r, n))"

locale incremental_parser =
  fixes exec :: "'s \<Rightarrow> 'b list \<Rightarrow> ('s \<times> 'r \<times> nat) option"
    and inv :: "'s \<Rightarrow> bool"
    and live :: "'s \<Rightarrow> bool"
    and more :: 'r
  assumes exec_total: "inv s \<Longrightarrow> \<exists>s' r n. exec s xs = Some (s', r, n) \<and> inv s' \<and> n \<le> length xs"
    and exec_live: "inv s \<Longrightarrow> live s \<Longrightarrow> exec s [] = Some (s, more, 0)"
    and exec_more: "inv s \<Longrightarrow> exec s xs = Some (s', more, n) \<Longrightarrow> n = length xs \<and> live s'"
    and exec_continue: "inv s \<Longrightarrow> exec s xs = Some (s', more, n) \<Longrightarrow>
      exec s (xs @ ys) = map_option (\<lambda>(s'', r, m). (s'', r, n + m)) (exec s' ys)"
    and exec_stop: "inv s \<Longrightarrow> exec s xs = Some (s', r, n) \<Longrightarrow> r \<noteq> more \<Longrightarrow>
      exec s (xs @ ys) = Some (s', r, n)"
begin

lemma exec_inv: "inv s \<Longrightarrow> exec s xs = Some (s', r, n) \<Longrightarrow> inv s'"
  using exec_total [of s xs] by auto

text \<open>The outcome does not depend on how the stream was cut into chunks.\<close>

lemma chunking_irrelevant:
  "inv s \<Longrightarrow> live s \<Longrightarrow> feed_chunks exec more s chunks = exec s (concat chunks)"
proof (induction chunks arbitrary: s)
  case Nil
  then show ?case by (simp add: exec_live)
next
  case (Cons x chunks)
  obtain s' r n where e: "exec s x = Some (s', r, n)" and "inv s'"
    using exec_total Cons.prems(1) by blast
  show ?case
  proof (cases "r = more")
    case True
    then have "live s'" using exec_more e Cons.prems(1) by blast
    with Cons.IH \<open>inv s'\<close> e True Cons.prems show ?thesis
      by (simp add: exec_continue)
  next
    case False
    with e Cons.prems show ?thesis by (simp add: exec_stop)
  qed
qed

corollary chunking_equal:
  assumes "inv s" "live s" "concat xss = concat yss"
  shows "feed_chunks exec more s xss = feed_chunks exec more s yss"
  using assms by (simp add: chunking_irrelevant)

text \<open>Input after the end of the message is not looked at.\<close>

lemma stop_at_consumed:
  assumes "inv s" "exec s xs = Some (s', r, n)" "r \<noteq> more" "exec s (take n xs) = Some (t, q, m)"
    "q \<noteq> more"
  shows "t = s' \<and> q = r \<and> m = n"
proof -
  have "exec s (take n xs @ drop n xs) = Some (t, q, m)"
    using assms(1,4,5) by (rule exec_stop)
  with assms(2) show ?thesis by simp
qed

end

end
