(* ===== verification/Parser_Spec.thy ===== *)
theory Parser_Spec
  imports Http_Parser Incremental
begin

text \<open>
  What the parser promises, without arrays: a machine over strings that consumes exactly
  one byte per step (\<open>spec_byte\<close>, \<open>spec_run\<close>), and the proof that the C code of
  theory \<open>Http_Parser\<close> refines it. The simulation carries the memory-safety claim: from
  a well-formed parser no access leaves an array, so the C code always returns.
\<close>

section \<open>The Connection header, declaratively\<close>

definition is_ows :: "char \<Rightarrow> bool" where
  "is_ows c \<longleftrightarrow> c = SP \<or> c = HTAB"

definition trim_right :: "string \<Rightarrow> string" where
  "trim_right s = rev (dropWhile is_ows (rev s))"

definition trim :: "string \<Rightarrow> string" where
  "trim s = trim_right (dropWhile is_ows s)"

abbreviation split_commas :: "string \<Rightarrow> string list" where
  "split_commas \<equiv> split_on CHR '',''"

text \<open>The non-empty elements of a comma-separated list, without surrounding white space.\<close>

definition connection_tokens :: "string \<Rightarrow> string list" where
  "connection_tokens v = filter (\<lambda>t. t \<noteq> []) (map trim (split_commas v))"

definition directive_of :: "string \<Rightarrow> http_connection_directive \<Rightarrow> http_connection_directive" where
  "directive_of t d =
     (if caseless_eq t ''close'' then HTTP_CONN_CLOSE
      else if caseless_eq t ''keep-alive'' then HTTP_CONN_KEEPALIVE else d)"

text \<open>The last recognised token wins; no recognised token leaves the directive alone.\<close>

definition connection_value :: "string \<Rightarrow> http_connection_directive \<Rightarrow> http_connection_directive" where
  "connection_value v d = fold directive_of (connection_tokens v) d"

subsection \<open>The list view of the C scan\<close>

function scan_value :: "string \<Rightarrow> http_connection_directive \<Rightarrow> http_connection_directive" where
  "scan_value s d =
     (let w = dropWhile is_list_sep s
      in if w = [] then d
         else scan_value (dropWhile (\<lambda>c. c \<noteq> CHR '','') w)
                (directive_of (trim_right (takeWhile (\<lambda>c. c \<noteq> CHR '','') w)) d))"
  by pat_completeness auto
termination
proof (relation "measure (\<lambda>(s, d). length s)", simp)
  fix s :: string and d :: http_connection_directive and w
  assume w: "w = dropWhile is_list_sep s" "w \<noteq> []"
  then have "hd w \<noteq> CHR '',''"
    using hd_dropWhile [of is_list_sep s] by (auto simp: is_list_sep_def)
  with w(2) have "length (dropWhile (\<lambda>c. c \<noteq> CHR '','') w) < length w"
    by (cases w) (auto simp: less_Suc_eq_le length_dropWhile_le)
  also have "length w \<le> length s" by (simp add: w length_dropWhile_le)
  finally show "((dropWhile (\<lambda>c. c \<noteq> CHR '','') w,
      directive_of (trim_right (takeWhile (\<lambda>c. c \<noteq> CHR '','') w)) d), s, d)
      \<in> measure (\<lambda>(s, d). length s)" by simp
qed

declare scan_value.simps [simp del]

lemma is_ows_chars [simp]: "is_ows SP" "is_ows HTAB"
  by (simp_all add: is_ows_def)

lemma trim_ows_Cons [simp]: "is_ows c \<Longrightarrow> trim (c # s) = trim s"
  by (simp add: trim_def)

lemma trim_Nil [simp]: "trim [] = []"
  by (simp add: trim_def trim_right_def)

lemma connection_tokens_Nil [simp]: "connection_tokens [] = []"
  by (simp add: connection_tokens_def)

lemma connection_tokens_sep: "is_list_sep c \<Longrightarrow> connection_tokens (c # s) = connection_tokens s"
  by (cases "split_commas s") (auto simp: connection_tokens_def is_list_sep_def)

lemma connection_tokens_dropWhile:
  "connection_tokens (dropWhile is_list_sep s) = connection_tokens s"
  by (induction s) (auto simp: connection_tokens_sep)

lemma connection_tokens_rest:
  "connection_tokens (dropWhile (\<lambda>c. c \<noteq> CHR '','') w) =
   filter (\<lambda>t. t \<noteq> []) (map trim (tl (split_commas (dropWhile (\<lambda>c. c \<noteq> CHR '','') w))))"
proof (cases "dropWhile (\<lambda>c. c \<noteq> CHR '','') w")
  case Nil
  then show ?thesis by (simp add: connection_tokens_def del: dropWhile_eq_Nil_conv)
next
  case (Cons c cs)
  then have "c = CHR '',''" using hd_dropWhile [of "\<lambda>c. c \<noteq> CHR '',''" w] by simp
  with Cons show ?thesis by (simp add: connection_tokens_def)
qed

lemma trim_right_ne: "x \<in> set t \<Longrightarrow> \<not> is_ows x \<Longrightarrow> trim_right t \<noteq> []"
  by (simp add: trim_right_def) blast

lemma connection_tokens_first:
  assumes "w \<noteq> []" "\<not> is_list_sep (hd w)"
  shows "connection_tokens w = trim_right (takeWhile (\<lambda>c. c \<noteq> CHR '','') w) #
    connection_tokens (dropWhile (\<lambda>c. c \<noteq> CHR '','') w)"
proof -
  let ?t = "takeWhile (\<lambda>c. c \<noteq> CHR '','') w"
  obtain c cs where w: "w = c # cs" using assms(1) by (cases w) auto
  with assms(2) have c: "\<not> is_ows c" "c \<noteq> CHR '',''" by (auto simp: is_list_sep_def is_ows_def)
  then have "trim ?t = trim_right ?t" by (simp add: w trim_def)
  moreover have "trim_right ?t \<noteq> []" by (rule trim_right_ne [of c]) (auto simp: w c)
  ultimately show ?thesis
    by (simp add: connection_tokens_rest) (simp add: connection_tokens_def split_on_first [of _ w])
qed

lemma scan_value_eq: "scan_value s d = connection_value s d"
proof (induction s d rule: scan_value.induct)
  case (1 s d)
  let ?w = "dropWhile is_list_sep s"
  have tok: "connection_tokens s = connection_tokens ?w" by (simp add: connection_tokens_dropWhile)
  show ?case
  proof (cases "?w = []")
    case True
    with tok show ?thesis by (simp add: scan_value.simps [of s d] connection_value_def)
  next
    case False
    then have "\<not> is_list_sep (hd ?w)" by (rule hd_dropWhile)
    with False 1 tok show ?thesis
      by (simp add: scan_value.simps [of s d] connection_value_def connection_tokens_first Let_def
          del: dropWhile_eq_Nil_conv)
  qed
qed


subsection \<open>The C scan computes it\<close>

lemma skip_seps_string:
  assumes "cstring HTTP_HEADER_LINE_MAX a n" "i \<le> n"
  shows "skip_seps a i = Some (i + length (takeWhile is_list_sep (map a [i..<n])))"
  using assms
proof (induction a i rule: skip_seps.induct)
  case (1 a i)
  show ?case
  proof (cases "i = n")
    case True
    with 1 show ?thesis by (simp add: skip_seps.simps [of a n] cstring_def is_list_sep_def)
  next
    case False
    with 1 show ?thesis
      by (simp add: skip_seps.simps [of a i] cstring_def upt_map_Cons)
  qed
qed

lemma scan_token_string:
  assumes "cstring HTTP_HEADER_LINE_MAX a n" "i \<le> n"
  shows "scan_token a i = Some (i + length (takeWhile (\<lambda>c. c \<noteq> CHR '','') (map a [i..<n])))"
  using assms
proof (induction a i rule: scan_token.induct)
  case (1 a i)
  show ?case
  proof (cases "i = n")
    case True
    with 1 show ?thesis by (simp add: scan_token.simps [of a n] cstring_def)
  next
    case False
    with 1 show ?thesis
      by (simp add: scan_token.simps [of a i] cstring_def upt_map_Cons)
  qed
qed

lemma trim_right_snoc: "trim_right (s @ [c]) = (if is_ows c then trim_right s else s @ [c])"
  by (simp add: trim_right_def)

lemma trim_token_end_eq:
  "i \<le> j \<Longrightarrow> trim_token_end a i j = i + length (trim_right (map a [i..<j]))"
proof (induction a i j rule: trim_token_end.induct)
  case (1 a i j)
  show ?case
  proof (cases "i < j")
    case True
    then have "map a [i..<j] = map a [i..<j - 1] @ [a (j - 1)]"
      by (cases j) (simp_all add: upt_Suc_append)
    with True 1 show ?thesis
      by (simp add: trim_token_end.simps [of a i j] trim_right_snoc is_ows_def)
  next
    case False
    with 1 show ?thesis by (simp add: trim_token_end.simps [of a j j] trim_right_def)
  qed
qed

lemma trim_right_prefix: "\<exists>u. t = trim_right t @ u"
proof -
  have "rev t = takeWhile is_ows (rev t) @ dropWhile is_ows (rev t)" by simp
  then have "t = rev (dropWhile is_ows (rev t)) @ rev (takeWhile is_ows (rev t))"
    by (metis rev_append rev_rev_ident)
  then show ?thesis by (auto simp: trim_right_def)
qed

lemma trim_right_upt:
  assumes "k \<le> m"
  shows "k + length (trim_right (map a [k..<m])) \<le> m"
    and "map a [k..<k + length (trim_right (map a [k..<m]))] = trim_right (map a [k..<m])"
proof -
  let ?t = "trim_right (map a [k..<m])"
  obtain u where u: "map a [k..<m] = ?t @ u" using trim_right_prefix by blast
  then have "length (map a [k..<m]) = length ?t + length u" by (metis length_append)
  with assms show le: "k + length ?t \<le> m" by simp
  have "take (length ?t) (map a [k..<m]) = ?t" using u by (metis append_eq_conv_conj)
  with le show "map a [k..<k + length ?t] = ?t" by (simp add: map_upt_takes [of _ _ m])
qed

lemma strncasecmp_if_length:
  assumes "i + k \<le> cap" "length s = l"
  shows "(if k = l then strncasecmp_eq cap a i s else Some False) =
    Some (caseless_eq (map a [i..<i + k]) s)"
proof (cases "k = l")
  case True
  with assms strncasecmp_eq_in [of i s cap a] show ?thesis by simp
next
  case False
  with assms show ?thesis by (auto dest: caseless_eq_length)
qed

lemma token_directive_eq:
  assumes "i + k \<le> HTTP_HEADER_LINE_MAX"
  shows "token_directive a i k d = Some (directive_of (map a [i..<i + k]) d)"
  by (simp add: token_directive_def directive_of_def strncasecmp_if_length [OF assms]
      del: strncasecmp_eq.simps)

lemma note_connection_from_string:
  assumes "cstring HTTP_HEADER_LINE_MAX a n" "i \<le> n"
  shows "note_connection_from a i d = Some (scan_value (map a [i..<n]) d)"
  using assms
proof (induction a i d rule: note_connection_from.induct)
  case (1 a i d)
  let ?s = "map a [i..<n]" and ?nc = "\<lambda>c. c \<noteq> CHR '',''"
  define k where "k = i + length (takeWhile is_list_sep ?s)"
  have i: "i < HTTP_HEADER_LINE_MAX" using 1 by (simp add: cstring_def)
  have k: "k \<le> n" using length_takeWhile_le [of is_list_sep ?s] 1 by (simp add: k_def)
  have w: "dropWhile is_list_sep ?s = map a [k..<n]"
    unfolding k_def by (rule dropWhile_upt)
  have skip: "skip_seps a i = Some k" using 1 by (simp add: skip_seps_string k_def)
  show ?case
  proof (cases "k = n")
    case True
    with 1 w skip i show ?thesis
      by (auto simp: note_connection_from.simps [of a i] scan_value.simps [of ?s] cstring_def)
  next
    case False
    with k have "k < n" by simp
    with 1 k_def have ne: "a k \<noteq> NUL" "a i \<noteq> NUL" by (auto simp: cstring_def)
    define m where "m = k + length (takeWhile ?nc (map a [k..<n]))"
    have scan: "scan_token a k = Some m" using 1 k by (simp add: scan_token_string m_def)
    have m: "k \<le> m" "m \<le> n"
      using length_takeWhile_le [of ?nc "map a [k..<n]"] k by (simp_all add: m_def)
    have tok: "takeWhile ?nc (map a [k..<n]) = map a [k..<m]"
      unfolding m_def by (rule takeWhile_upt) (rule k)
    have rest: "dropWhile ?nc (map a [k..<n]) = map a [m..<n]"
      unfolding m_def by (rule dropWhile_upt)
    let ?t = "trim_right (map a [k..<m])"
    have tend: "trim_token_end a k m = k + length ?t" using m by (simp add: trim_token_end_eq)
    have "k + length ?t \<le> HTTP_HEADER_LINE_MAX"
      using trim_right_upt(1) [OF m(1), of a] m(2) "1.prems"(1) unfolding cstring_def by linarith
    then have dir: "token_directive a k (length ?t) d = Some (directive_of ?t d)"
      by (simp add: token_directive_eq trim_right_upt(2) [OF m(1)])
    have "note_connection_from a m (directive_of ?t d) =
        Some (scan_value (map a [m..<n]) (directive_of ?t d))"
      using "1.IH" [OF _ ne(2) skip ne(1) scan refl] i dir tend m 1(2) by simp
    moreover have "map a [k..<n] \<noteq> []" using \<open>k < n\<close> by simp
    ultimately show ?thesis
      using i ne skip scan dir tend w tok rest
      by (simp add: note_connection_from.simps [of a i] scan_value.simps [of ?s] Let_def)
  qed
qed

lemma note_connection_from_eq:
  assumes "cstring HTTP_HEADER_LINE_MAX a n" "i \<le> n"
  shows "note_connection_from a i d = Some (connection_value (drop i (array_str a n)) d)"
  using assms by (simp add: note_connection_from_string scan_value_eq drop_array_str)


section \<open>The machine over strings\<close>

record request_state =
  r_state :: http_parser_state
  r_method :: string
  r_method_id :: http_method
  r_path :: string
  r_version :: string
  r_major :: int
  r_minor :: int
  r_line :: string
  r_name_len :: nat
  r_count :: int
  r_conn :: http_connection_directive

definition spec_init :: request_state where
  "spec_init =
     \<lparr> r_state = HTTP_STATE_METHOD, r_method = [], r_method_id = HTTP_METHOD_GET, r_path = [],
       r_version = [], r_major = 0, r_minor = 0, r_line = [], r_name_len = 0, r_count = 0,
       r_conn = HTTP_CONN_UNSPECIFIED \<rparr>"

definition spec_fail :: "request_state \<Rightarrow> request_state" where
  "spec_fail r = r\<lparr>r_state := HTTP_STATE_ERROR\<rparr>"

definition spec_classify :: "string \<Rightarrow> http_method" where
  "spec_classify m = (case map_of known_methods m of None \<Rightarrow> HTTP_METHOD_OTHER | Some i \<Rightarrow> i)"

definition valid_version :: "string \<Rightarrow> bool" where
  "valid_version v \<longleftrightarrow>
     (\<exists>d e. v = ''HTTP/'' @ [d, CHR ''.'', e] \<and> is_digit d \<and> is_digit e)"

definition digit_val :: "char \<Rightarrow> int" where
  "digit_val c = int (byte c) - int (byte CHR ''0'')"

definition spec_value :: "request_state \<Rightarrow> char \<Rightarrow> request_state" where
  "spec_value r c =
     (if c = CR then r\<lparr>r_state := HTTP_STATE_HEADER_LF\<rparr>
      else if is_header_value_char c \<and> length (r_line r) < HTTP_HEADER_LINE_MAX - 1
      then r\<lparr>r_state := HTTP_STATE_HEADER_VALUE, r_line := r_line r @ [c]\<rparr>
      else spec_fail r)"

definition spec_header_done :: "request_state \<Rightarrow> request_state" where
  "spec_header_done r =
     r\<lparr>r_conn := (if caseless_eq (take (r_name_len r) (r_line r)) ''Connection''
                  then connection_value (drop (r_name_len r) (r_line r)) (r_conn r)
                  else r_conn r),
       r_count := r_count r + 1, r_state := HTTP_STATE_HEADER_LINE_START\<rparr>"

definition spec_byte :: "request_state \<Rightarrow> char \<Rightarrow> request_state" where
  "spec_byte r c =
     (case r_state r of
        HTTP_STATE_METHOD \<Rightarrow>
          if c = SP \<and> r_method r \<noteq> []
          then r\<lparr>r_method_id := spec_classify (r_method r), r_state := HTTP_STATE_PATH\<rparr>
          else if is_method_char c \<and> length (r_method r) < HTTP_METHOD_MAX - 1
          then r\<lparr>r_method := r_method r @ [c]\<rparr> else spec_fail r
      | HTTP_STATE_PATH \<Rightarrow>
          if c = SP \<and> r_path r \<noteq> [] then r\<lparr>r_state := HTTP_STATE_VERSION\<rparr>
          else if is_path_char c \<and> length (r_path r) < HTTP_PATH_MAX - 1
          then r\<lparr>r_path := r_path r @ [c]\<rparr> else spec_fail r
      | HTTP_STATE_VERSION \<Rightarrow>
          if c = CR \<and> valid_version (r_version r)
          then r\<lparr>r_major := digit_val (r_version r ! 5), r_minor := digit_val (r_version r ! 7),
                 r_state := HTTP_STATE_REQUEST_LINE_LF\<rparr>
          else if is_version_char c \<and> length (r_version r) < HTTP_VERSION_MAX - 1
          then r\<lparr>r_version := r_version r @ [c]\<rparr> else spec_fail r
      | HTTP_STATE_REQUEST_LINE_LF \<Rightarrow>
          if c = LF then r\<lparr>r_state := HTTP_STATE_HEADER_LINE_START\<rparr> else spec_fail r
      | HTTP_STATE_HEADER_LINE_START \<Rightarrow>
          if c = CR then r\<lparr>r_state := HTTP_STATE_HEADERS_END_LF\<rparr>
          else if is_header_name_char c \<and> r_count r < HTTP_MAX_HEADERS
          then r\<lparr>r_line := [c], r_state := HTTP_STATE_HEADER_NAME\<rparr> else spec_fail r
      | HTTP_STATE_HEADER_NAME \<Rightarrow>
          if c = CHR '':''
          then r\<lparr>r_name_len := length (r_line r), r_state := HTTP_STATE_HEADER_VALUE_SP\<rparr>
          else if is_header_name_char c \<and> length (r_line r) < HTTP_HEADER_LINE_MAX - 1
          then r\<lparr>r_line := r_line r @ [c]\<rparr> else spec_fail r
      | HTTP_STATE_HEADER_VALUE_SP \<Rightarrow> if is_ows c then r else spec_value r c
      | HTTP_STATE_HEADER_VALUE \<Rightarrow> spec_value r c
      | HTTP_STATE_HEADER_LF \<Rightarrow> if c = LF then spec_header_done r else spec_fail r
      | HTTP_STATE_HEADERS_END_LF \<Rightarrow>
          if c = LF then r\<lparr>r_state := HTTP_STATE_DONE\<rparr> else spec_fail r
      | HTTP_STATE_DONE \<Rightarrow> r
      | HTTP_STATE_ERROR \<Rightarrow> r)"

fun terminal :: "http_parser_state \<Rightarrow> bool" where
  "terminal HTTP_STATE_DONE = True"
| "terminal HTTP_STATE_ERROR = True"
| "terminal _ = False"

lemma terminal_iff: "terminal st \<longleftrightarrow> st = HTTP_STATE_DONE \<or> st = HTTP_STATE_ERROR"
  by (cases st) auto

fun spec_run :: "request_state \<Rightarrow> string \<Rightarrow> request_state \<times> nat" where
  "spec_run r [] = (r, 0)"
| "spec_run r (c # cs) =
     (if terminal (r_state r) then (r, 0)
      else let (r', n) = spec_run (spec_byte r c) cs in (r', n + 1))"

fun result_of :: "http_parser_state \<Rightarrow> http_parse_result" where
  "result_of HTTP_STATE_DONE = HTTP_PARSE_COMPLETE"
| "result_of HTTP_STATE_ERROR = HTTP_PARSE_ERROR"
| "result_of _ = HTTP_PARSE_INCOMPLETE"

lemma result_of_incomplete: "result_of st = HTTP_PARSE_INCOMPLETE \<longleftrightarrow> \<not> terminal st"
  by (cases st) auto

lemma result_of_complete: "result_of st = HTTP_PARSE_COMPLETE \<longleftrightarrow> st = HTTP_STATE_DONE"
  by (cases st) auto

lemma spec_run_terminal [simp]: "terminal (r_state r) \<Longrightarrow> spec_run r cs = (r, 0)"
  by (cases cs) auto

lemma spec_run_le: "spec_run r cs = (r', n) \<Longrightarrow> n \<le> length cs"
  by (induction r cs arbitrary: n rule: spec_run.induct) (auto split: if_splits prod.splits)

lemma spec_run_incomplete:
  "spec_run r cs = (r', n) \<Longrightarrow> \<not> terminal (r_state r') \<Longrightarrow> n = length cs"
  by (induction r cs arbitrary: n rule: spec_run.induct) (auto split: if_splits prod.splits)

lemma spec_run_append:
  "spec_run r (xs @ ys) =
     (case spec_run r xs of (r', n) \<Rightarrow> case spec_run r' ys of (r'', m) \<Rightarrow> (r'', n + m))"
  by (induction r xs rule: spec_run.induct) (auto split: prod.splits)

section \<open>Well-formed parsers and their abstraction\<close>

definition wf_parser :: "http_request_parser \<Rightarrow> bool" where
  "wf_parser p \<longleftrightarrow>
     cstring HTTP_METHOD_MAX (p_method p) (p_method_len p) \<and>
     cstring HTTP_PATH_MAX (p_path p) (p_path_len p) \<and>
     cstring HTTP_VERSION_MAX (p_version p) (p_version_len p) \<and>
     cstring HTTP_HEADER_LINE_MAX (p_header_line p) (p_header_line_len p) \<and>
     0 \<le> p_header_count p \<and> p_header_count p \<le> HTTP_MAX_HEADERS \<and>
     (p_state p \<in> {HTTP_STATE_HEADER_NAME, HTTP_STATE_HEADER_VALUE_SP, HTTP_STATE_HEADER_VALUE,
        HTTP_STATE_HEADER_LF} \<longrightarrow> p_header_count p < HTTP_MAX_HEADERS) \<and>
     (p_state p \<in> {HTTP_STATE_HEADER_VALUE_SP, HTTP_STATE_HEADER_VALUE, HTTP_STATE_HEADER_LF} \<longrightarrow>
        p_header_name_len p \<le> p_header_line_len p)"

definition abs_parser :: "http_request_parser \<Rightarrow> request_state" where
  "abs_parser p =
     \<lparr> r_state = p_state p,
       r_method = array_str (p_method p) (p_method_len p), r_method_id = p_method_id p,
       r_path = array_str (p_path p) (p_path_len p),
       r_version = array_str (p_version p) (p_version_len p),
       r_major = p_http_major p, r_minor = p_http_minor p,
       r_line = array_str (p_header_line p) (p_header_line_len p),
       r_name_len = p_header_name_len p, r_count = p_header_count p,
       r_conn = p_connection_directive p \<rparr>"

lemma abs_parser_sel [simp]:
  "r_state (abs_parser p) = p_state p"
  "r_method (abs_parser p) = array_str (p_method p) (p_method_len p)"
  "r_method_id (abs_parser p) = p_method_id p"
  "r_path (abs_parser p) = array_str (p_path p) (p_path_len p)"
  "r_version (abs_parser p) = array_str (p_version p) (p_version_len p)"
  "r_major (abs_parser p) = p_http_major p"
  "r_minor (abs_parser p) = p_http_minor p"
  "r_line (abs_parser p) = array_str (p_header_line p) (p_header_line_len p)"
  "r_name_len (abs_parser p) = p_header_name_len p"
  "r_count (abs_parser p) = p_header_count p"
  "r_conn (abs_parser p) = p_connection_directive p"
  by (simp_all add: abs_parser_def)

lemma char_class_not_NUL:
  "is_method_char c \<Longrightarrow> c \<noteq> NUL" "is_path_char c \<Longrightarrow> c \<noteq> NUL" "is_version_char c \<Longrightarrow> c \<noteq> NUL"
  "is_header_name_char c \<Longrightarrow> c \<noteq> NUL" "is_header_value_char c \<Longrightarrow> c \<noteq> NUL"
  by (auto simp: is_method_char_def is_path_char_def is_version_char_def is_header_name_char_def
      is_header_value_char_def)

lemma wf_parser_init [simp]: "wf_parser http_parser_init"
  by (simp add: wf_parser_def http_parser_init_def cstring_def zeroed_def)

lemma abs_parser_init [simp]: "abs_parser http_parser_init = spec_init"
  by (simp add: abs_parser_def http_parser_init_def spec_init_def)


section \<open>The helpers compute what the specification says\<close>

lemma classify_method_in_eq:
  "\<forall>(name, i) \<in> set ks. length name \<le> HTTP_METHOD_MAX \<Longrightarrow>
   classify_method_in ks m len =
     Some (case map_of ks (array_str m len) of None \<Rightarrow> HTTP_METHOD_OTHER | Some i \<Rightarrow> i)"
proof (induction ks m len rule: classify_method_in.induct)
  case (1 m len)
  then show ?case by simp
next
  case (2 name mid ks m len)
  then show ?case by (auto simp: array_eq_def array_str_def)
qed

lemma classify_method_eq: "classify_method m len = Some (spec_classify (array_str m len))"
  unfolding classify_method_def spec_classify_def
  by (rule classify_method_in_eq) (simp add: known_methods_def)

lemma is_valid_version_eq: "is_valid_version a n = valid_version (array_str a n)"
proof (cases "n = 8")
  case True
  have "array_str a 8 = [a 0, a 1, a 2, a 3, a 4, a 5, a 6, a 7]"
    by (simp add: array_str_def upt_rec numeral_eq_Suc)
  with True show ?thesis by (auto simp: is_valid_version_def valid_version_def)
next
  case False
  have "valid_version s \<Longrightarrow> length s = 8" for s by (auto simp: valid_version_def)
  with False show ?thesis by (force simp: is_valid_version_def)
qed

lemma valid_version_length: "valid_version v \<Longrightarrow> length v = 8"
  by (auto simp: valid_version_def)

lemma header_name_is_eq:
  assumes "p_header_name_len p \<le> p_header_line_len p" "p_header_line_len p < HTTP_HEADER_LINE_MAX"
  shows "header_name_is p name =
    Some (caseless_eq (take (p_header_name_len p) (array_str (p_header_line p) (p_header_line_len p))) name)"
  using assms strncasecmp_if_length [of 0 "p_header_name_len p" HTTP_HEADER_LINE_MAX name]
  by (simp add: header_name_is_def take_array_str) (simp add: array_str_def)

lemma note_connection_header_eq:
  assumes "cstring HTTP_HEADER_LINE_MAX (p_header_line p) (p_header_line_len p)"
    "p_header_name_len p \<le> p_header_line_len p"
  shows "note_connection_header p = Some (p\<lparr>p_connection_directive :=
    connection_value (drop (p_header_name_len p) (array_str (p_header_line p) (p_header_line_len p)))
      (p_connection_directive p)\<rparr>)"
  using assms by (simp add: note_connection_header_def note_connection_from_eq)

section \<open>Simulation of one byte\<close>

text \<open>
  \<open>sim p c r\<close>: handling \<open>c\<close> in state \<open>p\<close> with result \<open>r\<close> touches no memory outside
  the arrays, keeps the parser well-formed and does what the specification does.
\<close>

definition sim :: "http_request_parser \<Rightarrow> char \<Rightarrow> (http_request_parser \<times> bool) option \<Rightarrow> bool" where
  "sim p c r \<longleftrightarrow>
     (\<exists>p'. r = Some (p', True) \<and> wf_parser p' \<and> abs_parser p' = spec_byte (abs_parser p) c)"

lemma sim_Some [simp]:
  "sim p c (Some (p', b)) \<longleftrightarrow> b \<and> wf_parser p' \<and> abs_parser p' = spec_byte (abs_parser p) c"
  by (auto simp: sim_def)

lemmas spec_step_defs = spec_byte_def spec_fail_def parser_fail_def abs_parser_def wf_parser_def

lemma array_str_eq_Nil [simp]: "array_str a n = [] \<longleftrightarrow> n = 0"
  by (simp flip: length_0_conv)

lemma char_class_delims [simp]:
  "\<not> is_method_char SP" "\<not> is_path_char SP" "\<not> is_version_char CR" "\<not> is_header_name_char CR"
  "\<not> is_header_name_char CHR '':''" "\<not> is_header_value_char CR"
  by (simp_all add: is_method_char_def is_path_char_def is_version_char_def
      is_header_name_char_def is_header_value_char_def)

lemma sim_on_method:
  assumes "wf_parser p" "p_state p = HTTP_STATE_METHOD"
  shows "sim p c (on_method p c)"
  using assms
  by (auto simp: on_method_def classify_method_eq push_char_in spec_step_defs char_class_not_NUL
      cstring_push dest: cstring_bound)

lemma sim_on_path:
  assumes "wf_parser p" "p_state p = HTTP_STATE_PATH"
  shows "sim p c (on_path p c)"
  using assms
  by (auto simp: on_path_def push_char_in spec_step_defs char_class_not_NUL cstring_push)

lemma sim_on_version:
  assumes "wf_parser p" "p_state p = HTTP_STATE_VERSION"
  shows "sim p c (on_version p c)"
  using assms
  by (auto simp: on_version_def is_valid_version_eq push_char_in spec_step_defs digit_val_def
      char_class_not_NUL cstring_push dest: valid_version_length)

lemma sim_on_request_line_lf:
  assumes "wf_parser p" "p_state p = HTTP_STATE_REQUEST_LINE_LF"
  shows "sim p c (on_request_line_lf p c)"
  using assms by (auto simp: on_request_line_lf_def spec_step_defs)

lemma sim_on_header_line_start:
  assumes "wf_parser p" "p_state p = HTTP_STATE_HEADER_LINE_START"
  shows "sim p c (on_header_line_start p c)"
  using assms
  by (auto simp: on_header_line_start_def push_char_in spec_step_defs char_class_not_NUL
      cstring_single array_str_Suc)

lemma sim_on_header_name:
  assumes "wf_parser p" "p_state p = HTTP_STATE_HEADER_NAME"
  shows "sim p c (on_header_name p c)"
  using assms
  by (auto simp: on_header_name_def push_char_in spec_step_defs char_class_not_NUL cstring_push)

lemma sim_on_header_value:
  assumes "wf_parser p" "p_state p = HTTP_STATE_HEADER_VALUE"
  shows "sim p c (on_header_value p c)"
  using assms
  by (auto simp: on_header_value_def push_char_in spec_step_defs spec_value_def char_class_not_NUL
      cstring_push)

lemma sim_on_header_lf:
  assumes "wf_parser p" "p_state p = HTTP_STATE_HEADER_LF"
  shows "sim p c (on_header_lf p c)"
  using assms
  by (auto simp: on_header_lf_def header_name_is_eq note_connection_header_eq spec_step_defs
      spec_header_done_def cstring_bound)

lemma sim_on_headers_end_lf:
  assumes "wf_parser p" "p_state p = HTTP_STATE_HEADERS_END_LF"
  shows "sim p c (on_headers_end_lf p c)"
  using assms by (auto simp: on_headers_end_lf_def spec_step_defs)

text \<open>
  The state after the colon is the one place where the C code may look at a byte twice.
  In the second look the state is \<open>HTTP_STATE_HEADER_VALUE\<close>, where the specification
  does the same as in \<open>HTTP_STATE_HEADER_VALUE_SP\<close>.
\<close>

lemma parse_byte_sim:
  assumes "wf_parser p" "\<not> (p_state p = HTTP_STATE_HEADER_VALUE_SP \<and> \<not> is_ows c)"
  shows "sim p c (parse_byte p c)"
proof (cases "p_state p")
  case HTTP_STATE_HEADER_VALUE_SP
  with assms show ?thesis
    by (simp add: parse_byte_def on_header_value_sp_def is_ows_def spec_byte_def)
qed (simp_all add: parse_byte_def assms sim_on_method sim_on_path sim_on_version
  sim_on_request_line_lf sim_on_header_line_start sim_on_header_name sim_on_header_value
  sim_on_header_lf sim_on_headers_end_lf spec_byte_def)

lemma parse_byte_again:
  assumes "wf_parser p" "p_state p = HTTP_STATE_HEADER_VALUE_SP" "\<not> is_ows c"
  shows "parse_byte p c = Some (p\<lparr>p_state := HTTP_STATE_HEADER_VALUE\<rparr>, False)"
    and "wf_parser (p\<lparr>p_state := HTTP_STATE_HEADER_VALUE\<rparr>)"
    and "spec_byte (abs_parser (p\<lparr>p_state := HTTP_STATE_HEADER_VALUE\<rparr>)) c = spec_byte (abs_parser p) c"
  using assms
  by (auto simp: parse_byte_def on_header_value_sp_def is_ows_def spec_byte_def wf_parser_def
      spec_value_def spec_fail_def abs_parser_def)

section \<open>Simulation of the driver\<close>

definition spec_execute :: "request_state \<Rightarrow> string \<Rightarrow> request_state \<times> http_parse_result \<times> nat" where
  "spec_execute r data = (case spec_run r data of (r', n) \<Rightarrow> (r', result_of (r_state r'), n))"

text \<open>
  \<open>refines p out\<close>: the C result exists, is well-formed, and abstracts to \<open>out\<close>.
\<close>

definition refines ::
  "(http_request_parser \<times> http_parse_result \<times> nat) option \<Rightarrow>
   request_state \<times> http_parse_result \<times> nat \<Rightarrow> bool" where
  "refines c out \<longleftrightarrow>
     (case c of None \<Rightarrow> False
      | Some (p, r, n) \<Rightarrow> wf_parser p \<and> out = (abs_parser p, r, n))"

lemma execute_loop_refines:
  assumes "wf_parser p" "\<not> terminal (p_state p)" "i \<le> length data"
  shows "refines (execute_loop p data i)
    (case spec_run (abs_parser p) (drop i data) of (r, n) \<Rightarrow> (r, result_of (r_state r), i + n))"
  using assms
proof (induction p data i rule: execute_loop.induct)
  case (1 p data i)
  show ?case
  proof (cases "i < length data")
    case False
    with 1 show ?thesis
      by (simp add: execute_loop.simps [of p] refines_def result_of_incomplete)
  next
    case True
    define c where "c = data ! i"
    have d: "drop i data = c # drop (Suc i) data" using True by (simp add: c_def Cons_nth_drop_Suc)
    show ?thesis
    proof (cases "p_state p = HTTP_STATE_HEADER_VALUE_SP \<and> \<not> is_ows c")
      case again: True
      let ?p = "p\<lparr>p_state := HTTP_STATE_HEADER_VALUE\<rparr>"
      note pb = parse_byte_again [OF "1.prems"(1) again [THEN conjunct1] again [THEN conjunct2]]
      have "execute_loop p data i = execute_loop ?p data i"
        using True pb(1) by (simp add: execute_loop.simps [of p] c_def)
      moreover have "refines (execute_loop ?p data i)
        (case spec_run (abs_parser ?p) (drop i data) of (r, n) \<Rightarrow> (r, result_of (r_state r), i + n))"
        using "1.IH" [OF True, of "(?p, False)" ?p False i] True pb "1.prems" by (simp add: c_def)
      ultimately show ?thesis using again "1.prems" pb(3) by (simp add: d)
    next
      case False
      with "1.prems" have "sim p c (parse_byte p c)" by (auto intro: parse_byte_sim)
      then obtain p' where p': "parse_byte p c = Some (p', True)" "wf_parser p'"
        "abs_parser p' = spec_byte (abs_parser p) c" by (auto simp: sim_def)
      then have st: "r_state (spec_byte (abs_parser p) c) = p_state p'" by (metis abs_parser_sel(1))
      show ?thesis
      proof (cases "terminal (p_state p')")
        case stop: True
        with True p' "1.prems" st show ?thesis
          by (auto simp: execute_loop.simps [of p] d refines_def terminal_iff simp flip: c_def)
      next
        case go: False
        have "refines (execute_loop p' data (i + 1)) (case spec_run (abs_parser p') (drop (i + 1) data)
            of (r, n) \<Rightarrow> (r, result_of (r_state r), (i + 1) + n))"
          using "1.IH" [OF True, of "(p', True)" p' True "i + 1"] p' go True
          by (simp add: c_def terminal_iff)
        with True p' "1.prems" go show ?thesis
          by (auto simp: execute_loop.simps [of p] d terminal_iff split: prod.splits simp flip: c_def)
      qed
    qed
  qed
qed

lemma http_parser_execute_refines:
  assumes "wf_parser p"
  shows "refines (http_parser_execute p data) (spec_execute (abs_parser p) data)"
proof (cases "terminal (p_state p)")
  case True
  with assms show ?thesis
    by (auto simp: http_parser_execute_def spec_execute_def refines_def terminal_iff)
next
  case False
  with assms execute_loop_refines [of p 0 data] show ?thesis
    by (auto simp: http_parser_execute_def spec_execute_def terminal_iff)
qed


lemma http_parser_execute_Some:
  assumes "wf_parser p"
  obtains q r n where "http_parser_execute p data = Some (q, r, n)" "wf_parser q"
    "spec_run (abs_parser p) data = (abs_parser q, n)" "r = result_of (p_state q)"
  using http_parser_execute_refines [OF assms, of data]
  by (auto simp: refines_def spec_execute_def split: option.splits prod.splits)

lemma http_parser_execute_wf:
  assumes "wf_parser p" "http_parser_execute p data = Some (q, r, n)"
  shows "wf_parser q" "spec_run (abs_parser p) data = (abs_parser q, n)" "r = result_of (p_state q)"
  using http_parser_execute_Some [OF assms(1), of data] assms(2) by auto

section \<open>The parser is incremental\<close>

text \<open>
  A parser that has not ended is \<open>live\<close>. The C parser itself, arrays included, satisfies
  the laws of \<open>incremental_parser\<close>: not only the abstract result but the whole struct is
  independent of how the input is cut. The proofs are about the loop.
\<close>

definition live_parser :: "http_request_parser \<Rightarrow> bool" where
  "live_parser p \<longleftrightarrow> \<not> terminal (p_state p)"

lemma execute_loop_append:
  "i \<le> length xs \<Longrightarrow>
   execute_loop p (xs @ ys) i =
     (case execute_loop p xs i of
        None \<Rightarrow> None
      | Some (q, r, n) \<Rightarrow>
          if r = HTTP_PARSE_INCOMPLETE then execute_loop q (xs @ ys) (length xs) else Some (q, r, n))"
proof (induction p xs i rule: execute_loop.induct)
  case (1 p xs i)
  show ?case
  proof (cases "i < length xs")
    case True
    then have b: "(xs @ ys) ! i = xs ! i" by (simp add: nth_append)
    show ?thesis
    proof (cases "parse_byte p (xs ! i)")
      case None
      with True b show ?thesis by (simp add: execute_loop.simps [of p "xs @ ys"] execute_loop.simps [of p xs])
    next
      case (Some pa)
      obtain q adv where pa: "pa = (q, adv)" by (cases pa)
      show ?thesis
        using 1(1) [OF True Some pa [symmetric] refl] True b Some pa
        by (auto simp: execute_loop.simps [of p "xs @ ys" i] execute_loop.simps [of p xs i] Let_def)
    qed
  next
    case False
    with 1 show ?thesis by (simp add: execute_loop.simps [of p xs])
  qed
qed

lemma execute_loop_shift:
  "i \<le> length ys \<Longrightarrow>
   execute_loop p (xs @ ys) (length xs + i) =
     map_option (\<lambda>(q, r, n). (q, r, length xs + n)) (execute_loop p ys i)"
proof (induction p ys i rule: execute_loop.induct)
  case (1 p ys i)
  show ?case
  proof (cases "i < length ys")
    case True
    then have b: "(xs @ ys) ! (length xs + i) = ys ! i" by simp
    show ?thesis
    proof (cases "parse_byte p (ys ! i)")
      case None
      with True b show ?thesis
        by (simp add: execute_loop.simps [of p "xs @ ys"] execute_loop.simps [of p ys])
    next
      case (Some pa)
      obtain q adv where pa: "pa = (q, adv)" by (cases pa)
      show ?thesis
        using 1(1) [OF True Some pa [symmetric] refl] True b Some pa
        by (auto simp: execute_loop.simps [of p "xs @ ys" "length xs + i"]
            execute_loop.simps [of p ys i] Let_def)
    qed
  next
    case False
    with 1 show ?thesis by (simp add: execute_loop.simps [of p])
  qed
qed

lemma http_parser_execute_incomplete:
  assumes "wf_parser s" "http_parser_execute s xs = Some (s', HTTP_PARSE_INCOMPLETE, n)"
  shows "n = length xs" "live_parser s'" "live_parser s"
proof -
  note e = http_parser_execute_wf [OF assms]
  then show live: "live_parser s'" by (simp add: live_parser_def flip: result_of_incomplete)
  with e(2) spec_run_incomplete show "n = length xs" by (fastforce simp: live_parser_def)
  show "live_parser s" using assms(2)
    by (auto simp: live_parser_def http_parser_execute_def terminal_iff split: if_splits)
qed

interpretation hp: incremental_parser http_parser_execute wf_parser live_parser HTTP_PARSE_INCOMPLETE
proof unfold_locales
  fix s :: http_request_parser and xs :: string
  assume "wf_parser s"
  then show "\<exists>s' r n. http_parser_execute s xs = Some (s', r, n) \<and> wf_parser s' \<and> n \<le> length xs"
    by (elim http_parser_execute_Some [of s xs]) (auto dest: spec_run_le)
next
  fix s :: http_request_parser
  assume "live_parser s"
  then show "http_parser_execute s [] = Some (s, HTTP_PARSE_INCOMPLETE, 0)"
    by (auto simp: live_parser_def http_parser_execute_def terminal_iff execute_loop.simps [of s])
next
  fix s s' :: http_request_parser and xs :: string and n
  assume "wf_parser s" "http_parser_execute s xs = Some (s', HTTP_PARSE_INCOMPLETE, n)"
  then show "n = length xs \<and> live_parser s'"
    by (simp add: http_parser_execute_incomplete)
next
  fix s s' :: http_request_parser and xs ys :: string and n
  assume s: "wf_parser s" and e: "http_parser_execute s xs = Some (s', HTTP_PARSE_INCOMPLETE, n)"
  note i = http_parser_execute_incomplete [OF s e]
  show "http_parser_execute s (xs @ ys) =
      map_option (\<lambda>(s'', r, m). (s'', r, n + m)) (http_parser_execute s' ys)"
    using e i execute_loop_append [of 0 xs s ys] execute_loop_shift [of 0 ys s' xs]
    by (auto simp: http_parser_execute_def live_parser_def terminal_iff)
next
  fix s s' :: http_request_parser and xs ys :: string and r n
  assume "wf_parser s" "http_parser_execute s xs = Some (s', r, n)" "r \<noteq> HTTP_PARSE_INCOMPLETE"
  then show "http_parser_execute s (xs @ ys) = Some (s', r, n)"
    using execute_loop_append [of 0 xs s ys] by (auto simp: http_parser_execute_def)
qed

end
