(* ===== verification/Static_Files.thy ===== *)
theory Static_Files
  imports HTTP_Prelude
begin

text \<open>
  Resolution of request paths to files under the document root:
  \<^verbatim>\<open>src/static_files.h\<close> and \<^verbatim>\<open>src/static_files.c\<close>. As in the parser,
  \<open>None\<close> is an access outside an object, so that a result \<open>Some\<close> is a statement of
  memory safety. The file system is the argument \<open>fs_view\<close>: what the kernel answers to
  the calls the code makes. The set of open descriptors is threaded through, so that a
  leaked descriptor is visible.
\<close>

unbundle bit_operations_syntax

section \<open>Types and the outside world\<close>

abbreviation PATH_MAX :: nat where "PATH_MAX \<equiv> 4096"

datatype static_file_result = STATIC_FILE_OK | STATIC_FILE_NOT_FOUND | STATIC_FILE_INVALID_PATH

record static_file =
  f_fd :: int
  f_size :: int
  f_content_type :: "string option"

datatype resolve_result = RESOLVE_OK | RESOLVE_ILLEGAL | RESOLVE_TOO_LONG

text \<open>The two file-scope variables \<^verbatim>\<open>g_root\<close> and \<^verbatim>\<open>g_root_len\<close>.\<close>

record static_root =
  g_root :: carray
  g_root_len :: nat

text \<open>
  The answers of the kernel. \<open>fs_open p\<close> is the descriptor
  \<^verbatim>\<open>open(p, O_RDONLY | O_CLOEXEC | O_NONBLOCK)\<close> returns, \<open>None\<close> for any
  errno (the code treats them alike). \<open>fs_link fd\<close> is the target of
  \<^verbatim>\<open>/proc/self/fd/N\<close>. \<open>fs_fstat fd\<close> is whether the file is regular, and its
  size. \<open>fs_realpath\<close> and \<open>fs_isdir\<close> (\<^verbatim>\<open>stat\<close> and
  \<^verbatim>\<open>S_ISDIR\<close>) are used at start-up. \<open>fs_stack n\<close> is what the automatic array number
  \<open>n\<close> of a call holds before it is written, which C leaves open.
\<close>

record fs_view =
  fs_open :: "string \<Rightarrow> int option"
  fs_link :: "int \<Rightarrow> string option"
  fs_fstat :: "int \<Rightarrow> (bool \<times> int) option"
  fs_realpath :: "string \<Rightarrow> string option"
  fs_isdir :: "string \<Rightarrow> bool option"
  fs_stack :: "nat \<Rightarrow> carray"

text \<open>
  Documented behaviour of \<^verbatim>\<open>open(2)\<close>: a new descriptor is a non-negative number
  that is not open already.
\<close>

definition fs_opens_fresh :: "fs_view \<Rightarrow> int set \<Rightarrow> bool" where
  "fs_opens_fresh fs fds \<longleftrightarrow> (\<forall>p fd. fs_open fs p = Some fd \<longrightarrow> 0 \<le> fd \<and> fd \<notin> fds)"

section \<open>Percent decoding\<close>

definition hex_digit :: "char \<Rightarrow> int" where
  "hex_digit c =
     (if byte CHR ''0'' \<le> byte c \<and> byte c \<le> byte CHR ''9'' then int (byte c) - int (byte CHR ''0'')
      else if byte CHR ''a'' \<le> byte c \<and> byte c \<le> byte CHR ''f'' then int (byte c) - int (byte CHR ''a'') + 10
      else if byte CHR ''A'' \<le> byte c \<and> byte c \<le> byte CHR ''F'' then int (byte c) - int (byte CHR ''A'') + 10
      else -1)"

text \<open>\<^verbatim>\<open>(unsigned char)((hi << 4) | lo)\<close>.\<close>

definition hex_pair :: "int \<Rightarrow> int \<Rightarrow> char" where
  "hex_pair hi lo = char_of (nat (push_bit 4 hi OR lo))"

text \<open>
  The loop of \<^verbatim>\<open>decode_path\<close>: \<open>i\<close> reads, \<open>w\<close> writes. The result is the return
  value, the array \<open>out\<close> and the written length.
\<close>

function decode_loop ::
  "string \<Rightarrow> nat \<Rightarrow> carray \<Rightarrow> nat \<Rightarrow> nat \<Rightarrow> (resolve_result \<times> carray \<times> nat) option" where
  "decode_loop path i out w out_size =
     (if \<not> i < length path \<or> path ! i = CHR ''?'' \<or> path ! i = CHR ''#''
      then (case array_store out_size out w NUL of
              None \<Rightarrow> None | Some out' \<Rightarrow> Some (RESOLVE_OK, out', w))
      else if path ! i = CHR ''%'' then
        (if i + 2 \<ge> length path then Some (RESOLVE_ILLEGAL, out, w)
         else let hi = hex_digit (path ! (i + 1)); lo = hex_digit (path ! (i + 2))
              in if hi < 0 \<or> lo < 0 then Some (RESOLVE_ILLEGAL, out, w)
                 else let c = hex_pair hi lo
                      in if c = NUL then Some (RESOLVE_ILLEGAL, out, w)
                         else if w + 1 \<ge> out_size then Some (RESOLVE_TOO_LONG, out, w)
                         else (case array_store out_size out w c of
                                 None \<Rightarrow> None
                               | Some out' \<Rightarrow> decode_loop path (i + 3) out' (w + 1) out_size))
      else if w + 1 \<ge> out_size then Some (RESOLVE_TOO_LONG, out, w)
      else (case array_store out_size out w (path ! i) of
              None \<Rightarrow> None
            | Some out' \<Rightarrow> decode_loop path (i + 1) out' (w + 1) out_size))"
  by pat_completeness auto
termination
  by (relation "measure (\<lambda>(path, i, out, w, out_size). length path - i)") auto

declare decode_loop.simps [simp del]

definition decode_path ::
  "string \<Rightarrow> carray \<Rightarrow> nat \<Rightarrow> (resolve_result \<times> carray \<times> nat) option" where
  "decode_path path out out_size = decode_loop path 0 out 0 out_size"

section \<open>Joining under the root\<close>

text \<open>\<^verbatim>\<open>memcpy(a + i, s, strlen(s))\<close> into an array of the given capacity.\<close>

definition array_write :: "nat \<Rightarrow> carray \<Rightarrow> nat \<Rightarrow> string \<Rightarrow> carray option" where
  "array_write cap a i s =
     (if i + length s \<le> cap
      then Some (\<lambda>k. if i \<le> k \<and> k < i + length s then s ! (k - i) else a k) else None)"

text \<open>
  The inner loops of \<^verbatim>\<open>join_under_root\<close>: the first position at or after \<open>i\<close>
  that does not satisfy the predicate.
\<close>

function scan_while :: "(char \<Rightarrow> bool) \<Rightarrow> string \<Rightarrow> nat \<Rightarrow> nat" where
  "scan_while P s i = (if i < length s \<and> P (s ! i) then scan_while P s (i + 1) else i)"
  by pat_completeness auto
termination
  by (relation "measure (\<lambda>(P, s, i). length s - i)") auto

declare scan_while.simps [simp del]

lemma scan_while_ge: "i \<le> scan_while P s i"
  by (induction P s i rule: scan_while.induct) (subst scan_while.simps, auto)

lemma scan_while_le: "i \<le> length s \<Longrightarrow> scan_while P s i \<le> length s"
  by (induction P s i rule: scan_while.induct) (subst scan_while.simps, auto)

function join_loop ::
  "string \<Rightarrow> nat \<Rightarrow> carray \<Rightarrow> nat \<Rightarrow> nat \<Rightarrow> (resolve_result \<times> carray \<times> nat) option" where
  "join_loop decoded i out out_len out_size =
     (if \<not> i < length decoded then Some (RESOLVE_OK, out, out_len)
      else let start = scan_while (\<lambda>c. c = CHR ''/'') decoded i;
               i' = scan_while (\<lambda>c. c \<noteq> CHR ''/'') decoded start;
               seg_len = i' - start
           in if seg_len = 0 then Some (RESOLVE_OK, out, out_len)
              else if seg_len = 1 \<and> decoded ! start = CHR ''.''
              then join_loop decoded i' out out_len out_size
              else if seg_len = 2 \<and> decoded ! start = CHR ''.'' \<and> decoded ! (start + 1) = CHR ''.''
              then Some (RESOLVE_ILLEGAL, out, out_len)
              else if out_len + 1 + seg_len \<ge> out_size then Some (RESOLVE_TOO_LONG, out, out_len)
              else (case array_store out_size out out_len CHR ''/'' of
                      None \<Rightarrow> None
                    | Some out1 \<Rightarrow>
                        (case array_write out_size out1 (out_len + 1)
                                (take seg_len (drop start decoded)) of
                           None \<Rightarrow> None
                         | Some out2 \<Rightarrow> join_loop decoded i' out2 (out_len + 1 + seg_len) out_size)))"
  by pat_completeness auto
termination
proof (relation "measure (\<lambda>(decoded, i, out, out_len, out_size). length decoded - i)")
  fix decoded :: string and i start i' seg_len :: nat
  assume "start = scan_while (\<lambda>c. c = CHR ''/'') decoded i" "\<not> \<not> i < length decoded"
    "seg_len = i' - start" "seg_len \<noteq> 0"
  moreover from this have "i \<le> start" by (simp add: scan_while_ge)
  ultimately have less: "length decoded - i' < length decoded - i" by linarith
  fix out :: carray and out_len out_size :: nat
  show "((decoded, i', out, out_len, out_size), decoded, i, out, out_len, out_size)
      \<in> measure (\<lambda>(decoded, i, out, out_len, out_size). length decoded - i)"
    using less by simp
  fix out2 :: carray
  show "((decoded, i', out2, out_len + 1 + seg_len, out_size), decoded, i, out, out_len, out_size)
      \<in> measure (\<lambda>(decoded, i, out, out_len, out_size). length decoded - i)"
    using less by simp
qed simp

declare join_loop.simps [simp del]

definition root_is_slash :: "static_root \<Rightarrow> bool" where
  "root_is_slash g \<longleftrightarrow> g_root_len g = 1 \<and> g_root g 0 = CHR ''/''"

definition join_under_root ::
  "static_root \<Rightarrow> string \<Rightarrow> carray \<Rightarrow> nat \<Rightarrow> (resolve_result \<times> carray) option" where
  "join_under_root g decoded out out_size =
     (if decoded = [] \<or> decoded ! 0 \<noteq> CHR ''/'' then Some (RESOLVE_ILLEGAL, out)
      else let out_len = (if root_is_slash g then 0 else g_root_len g)
           in if out_len \<ge> out_size then Some (RESOLVE_TOO_LONG, out)
              else do {
                out1 \<leftarrow> array_write out_size out 0 (array_str (g_root g) out_len);
                (res, out2, len2) \<leftarrow> join_loop decoded 0 out1 out_len out_size;
                if res \<noteq> RESOLVE_OK then Some (res, out2)
                else do {
                  out3 \<leftarrow> (if len2 = 0 then array_store out_size out2 0 CHR ''/'' else Some out2);
                  out4 \<leftarrow> array_store out_size out3 (if len2 = 0 then 1 else len2) NUL;
                  Some (RESOLVE_OK, out4)
                }
              })"

section \<open>Containment\<close>

text \<open>\<^verbatim>\<open>strncmp(a, b, n) == 0\<close> on two arrays, from index \<open>i\<close> on.\<close>

fun strncmp_eq :: "nat \<Rightarrow> carray \<Rightarrow> nat \<Rightarrow> carray \<Rightarrow> nat \<Rightarrow> nat \<Rightarrow> bool option" where
  "strncmp_eq cap_a a cap_b b i 0 = Some True"
| "strncmp_eq cap_a a cap_b b i (Suc n) =
     do {
       c \<leftarrow> array_load cap_a a i;
       d \<leftarrow> array_load cap_b b i;
       if c \<noteq> d then Some False else if c = NUL then Some True
       else strncmp_eq cap_a a cap_b b (i + 1) n
     }"

definition is_within_root :: "static_root \<Rightarrow> carray \<Rightarrow> bool option" where
  "is_within_root g canonical =
     do {
       eq \<leftarrow> strncmp_eq PATH_MAX canonical PATH_MAX (g_root g) 0 (g_root_len g);
       if \<not> eq then Some False
       else if root_is_slash g then do { c \<leftarrow> array_load PATH_MAX canonical 1; Some (c \<noteq> NUL) }
       else do { c \<leftarrow> array_load PATH_MAX canonical (g_root_len g); Some (c = CHR ''/'') }
     }"

text \<open>
  \<^verbatim>\<open>readlink\<close> copies at most \<^verbatim>\<open>sizeof(canonical) - 1\<close> octets of the
  target, silently truncated, and returns how many.
\<close>

definition fd_is_within_root :: "static_root \<Rightarrow> fs_view \<Rightarrow> int \<Rightarrow> bool option" where
  "fd_is_within_root g fs fd =
     (case fs_link fs fd of
        None \<Rightarrow> Some False
      | Some target \<Rightarrow>
          let n = min (length target) (PATH_MAX - 1)
          in do {
               canonical \<leftarrow> array_write PATH_MAX (fs_stack fs 2) 0 (take n target);
               if n \<ge> PATH_MAX - 1 then Some False
               else do {
                 canonical' \<leftarrow> array_store PATH_MAX canonical n NUL;
                 is_within_root g canonical'
               }
             })"

section \<open>Content types\<close>

text \<open>\<^verbatim>\<open>strrchr\<close>: the suffix from the last occurrence, if there is one.\<close>

fun strrchr :: "string \<Rightarrow> char \<Rightarrow> string option" where
  "strrchr [] c = None"
| "strrchr (x # xs) c =
     (case strrchr xs c of Some s \<Rightarrow> Some s | None \<Rightarrow> if x = c then Some (x # xs) else None)"

definition content_type_table :: "(string \<times> string) list" where
  "content_type_table =
     [(''.html'', ''text/html; charset=utf-8''), (''.htm'', ''text/html; charset=utf-8''),
      (''.txt'', ''text/plain; charset=utf-8''), (''.css'', ''text/css; charset=utf-8''),
      (''.js'', ''text/javascript; charset=utf-8''), (''.json'', ''application/json''),
      (''.svg'', ''image/svg+xml''), (''.png'', ''image/png''),
      (''.jpg'', ''image/jpeg''), (''.jpeg'', ''image/jpeg''),
      (''.gif'', ''image/gif''), (''.ico'', ''image/vnd.microsoft.icon'')]"

fun lookup_ext :: "(string \<times> string) list \<Rightarrow> string \<Rightarrow> string option" where
  "lookup_ext [] dot = None"
| "lookup_ext ((ext, ctype) # t) dot =
     (if caseless_eq dot ext then Some ctype else lookup_ext t dot)"

definition content_type_for :: "string \<Rightarrow> string" where
  "content_type_for fs_path =
     (let name = (case strrchr fs_path CHR ''/'' of Some s \<Rightarrow> tl s | None \<Rightarrow> fs_path)
      in case strrchr name CHR ''.'' of
           None \<Rightarrow> ''application/octet-stream''
         | Some dot \<Rightarrow>
             (case lookup_ext content_type_table dot of
                Some ctype \<Rightarrow> ctype | None \<Rightarrow> ''application/octet-stream''))"

section \<open>The interface of the module\<close>

text \<open>
  \<^verbatim>\<open>static_files_init\<close> returns the value of the C function and the new globals.
  \<^verbatim>\<open>realpath\<close> fails with \<^verbatim>\<open>ENAMETOOLONG\<close> rather than fill more than
  \<^verbatim>\<open>PATH_MAX\<close> octets, so the last test of the code is a second line of defence.
\<close>

definition static_files_init :: "fs_view \<Rightarrow> string \<Rightarrow> static_root \<Rightarrow> (int \<times> static_root) option" where
  "static_files_init fs root g =
     (case fs_realpath fs root of
        None \<Rightarrow> Some (-1, g)
      | Some resolved \<Rightarrow>
          (case fs_isdir fs resolved of
             None \<Rightarrow> Some (-1, g)
           | Some isdir \<Rightarrow>
               if \<not> isdir then Some (-1, g)
               else if length resolved \<ge> PATH_MAX then Some (-1, g)
               else do {
                 r \<leftarrow> array_write PATH_MAX (g_root g) 0 (resolved @ [NUL]);
                 Some (0, g\<lparr>g_root := r, g_root_len := length resolved\<rparr>)
               }))"

text \<open>The octets before the terminator of a NUL-terminated array.\<close>

function cstr_from :: "nat \<Rightarrow> carray \<Rightarrow> nat \<Rightarrow> string option" where
  "cstr_from cap a i =
     (if i < cap then (if a i = NUL then Some []
                       else (case cstr_from cap a (i + 1) of
                               None \<Rightarrow> None | Some s \<Rightarrow> Some (a i # s)))
      else None)"
  by pat_completeness auto
termination
  by (relation "measure (\<lambda>(cap, a, i). cap - i)") auto

declare cstr_from.simps [simp del]

definition no_file :: static_file where
  "no_file = \<lparr>f_fd = -1, f_size = 0, f_content_type = None\<rparr>"

text \<open>
  The part of \<^verbatim>\<open>static_file_open\<close> from \<^verbatim>\<open>open\<close> on. Descriptors that
  \<^verbatim>\<open>close\<close> releases leave the set of open descriptors.
\<close>

definition open_checked ::
  "static_root \<Rightarrow> fs_view \<Rightarrow> string \<Rightarrow> int set \<Rightarrow> (static_file_result \<times> static_file \<times> int set) option" where
  "open_checked g fs fs_path fds =
     (case fs_open fs fs_path of
        None \<Rightarrow> Some (STATIC_FILE_NOT_FOUND, no_file, fds)
      | Some fd \<Rightarrow>
          let fds1 = insert fd fds
          in do {
               within \<leftarrow> fd_is_within_root g fs fd;
               if \<not> within then Some (STATIC_FILE_NOT_FOUND, no_file, fds1 - {fd})
               else (case fs_fstat fs fd of
                       None \<Rightarrow> Some (STATIC_FILE_NOT_FOUND, no_file, fds1 - {fd})
                     | Some (regular, st_size) \<Rightarrow>
                         if \<not> regular then Some (STATIC_FILE_NOT_FOUND, no_file, fds1 - {fd})
                         else Some (STATIC_FILE_OK,
                                \<lparr>f_fd = fd, f_size = st_size,
                                 f_content_type = Some (content_type_for fs_path)\<rparr>, fds1))
             })"

definition static_file_open ::
  "static_root \<Rightarrow> fs_view \<Rightarrow> string \<Rightarrow> int set \<Rightarrow> (static_file_result \<times> static_file \<times> int set) option" where
  "static_file_open g fs path fds =
     (if g_root_len g = 0 then Some (STATIC_FILE_NOT_FOUND, no_file, fds)
      else do {
        (res, decoded, decoded_len) \<leftarrow> decode_path path (fs_stack fs 0) PATH_MAX;
        if res = RESOLVE_ILLEGAL then Some (STATIC_FILE_INVALID_PATH, no_file, fds)
        else if res = RESOLVE_TOO_LONG then Some (STATIC_FILE_NOT_FOUND, no_file, fds)
        else do {
          (jres, fs_path) \<leftarrow> join_under_root g (array_str decoded decoded_len) (fs_stack fs 1) PATH_MAX;
          (case jres of
             RESOLVE_ILLEGAL \<Rightarrow> Some (STATIC_FILE_INVALID_PATH, no_file, fds)
           | RESOLVE_TOO_LONG \<Rightarrow> Some (STATIC_FILE_NOT_FOUND, no_file, fds)
           | RESOLVE_OK \<Rightarrow>
               do {
                 last \<leftarrow> (if decoded_len = 0 then None else array_load PATH_MAX decoded (decoded_len - 1));
                 if last = CHR ''/'' then Some (STATIC_FILE_NOT_FOUND, no_file, fds)
                 else do {
                   name \<leftarrow> cstr_from PATH_MAX fs_path 0;
                   open_checked g fs name fds
                 }
               })
        }
      })"

definition static_file_close :: "static_file \<Rightarrow> int set \<Rightarrow> static_file \<times> int set" where
  "static_file_close f fds =
     (if f_fd f \<ge> 0 then (f\<lparr>f_fd := -1\<rparr>, fds - {f_fd f}) else (f, fds))"

end
