(* ===== verification/Static_Spec.thy ===== *)
theory Static_Spec
  imports Static_Files "HOL-Library.Sublist"
begin

text \<open>
  What path resolution promises, over strings: percent decoding, the segments of a path,
  the joined file name and containment in the root. The C code of theory
  \<open>Static_Files\<close> computes it, never leaving its buffers; the security properties follow.
\<close>

section \<open>Decoding over strings\<close>

text \<open>\<open>n\<close> is the room left in the output, the terminator not counted.\<close>

fun spec_decode :: "nat \<Rightarrow> string \<Rightarrow> resolve_result + string" where
  "spec_decode n [] = Inr []"
| "spec_decode n (c # cs) =
     (if c = CHR ''?'' \<or> c = CHR ''#'' then Inr []
      else if c = CHR ''%'' then
        (case cs of
           h # l # rest \<Rightarrow>
             (if hex_digit h < 0 \<or> hex_digit l < 0 \<or> hex_pair (hex_digit h) (hex_digit l) = NUL
              then Inl RESOLVE_ILLEGAL
              else if n = 0 then Inl RESOLVE_TOO_LONG
              else map_sum id ((#) (hex_pair (hex_digit h) (hex_digit l))) (spec_decode (n - 1) rest))
         | _ \<Rightarrow> Inl RESOLVE_ILLEGAL)
      else if n = 0 then Inl RESOLVE_TOO_LONG
      else map_sum id ((#) c) (spec_decode (n - 1) cs))"

text \<open>\<open>written out w s cap out' w'\<close>: the string \<open>s\<close> and a terminator were appended at \<open>w\<close>.\<close>

definition written :: "carray \<Rightarrow> nat \<Rightarrow> string \<Rightarrow> nat \<Rightarrow> carray \<Rightarrow> nat \<Rightarrow> bool" where
  "written out w s cap out' w' \<longleftrightarrow>
     w' = w + length s \<and> w' < cap \<and> array_str out' w' = array_str out w @ s \<and> out' w' = NUL"

definition decoded_as :: "carray \<Rightarrow> nat \<Rightarrow> nat \<Rightarrow> (resolve_result \<times> carray \<times> nat) option \<Rightarrow>
    resolve_result + string \<Rightarrow> bool" where
  "decoded_as out w cap c spec \<longleftrightarrow>
     (\<exists>res out' w'. c = Some (res, out', w') \<and>
        (case spec of
           Inl e \<Rightarrow> res = e
         | Inr s \<Rightarrow> res = RESOLVE_OK \<and> written out w s cap out' w'))"

lemma map_sum_Inl_iff [simp]: "map_sum id f x = Inl e \<longleftrightarrow> x = Inl e"
  by (cases x) auto

lemma spec_decode_error: "spec_decode n s \<noteq> Inl RESOLVE_OK"
  by (induction n s rule: spec_decode.induct) (auto split: list.split)

lemma written_step:
  "written (out(w := c)) (Suc w) s cap out' w' \<Longrightarrow> written out w (c # s) cap out' w'"
  by (auto simp: written_def)

lemma decoded_as_step:
  assumes "w + 1 < cap" "decoded_as (out(w := c)) (w + 1) cap r spec"
  shows "decoded_as out w cap r (map_sum id ((#) c) spec)"
  using assms by (cases spec) (auto simp: decoded_as_def dest: written_step)

lemma drop_Cons_nth:
  assumes "drop i xs = c # cs"
  shows "i < length xs" "xs ! i = c" "drop (i + 1) xs = cs" "length xs - i = Suc (length cs)"
proof -
  show "i < length xs" using assms by (metis drop_eq_Nil list.distinct(1) not_le)
  then show "xs ! i = c" "drop (i + 1) xs = cs"
    using assms by (metis Cons_nth_drop_Suc list.inject Suc_eq_plus1)+
  show "length xs - i = Suc (length cs)" using assms by (metis length_Cons length_drop)
qed

lemma decode_loop_Cons:
  assumes "drop i path = c # cs" "w < cap"
  shows "decode_loop path i out w cap =
    (if c = CHR ''?'' \<or> c = CHR ''#'' then Some (RESOLVE_OK, out(w := NUL), w)
     else if c = CHR ''%'' then
       (case cs of
          h # l # rest \<Rightarrow>
            (if hex_digit h < 0 \<or> hex_digit l < 0 \<or> hex_pair (hex_digit h) (hex_digit l) = NUL
             then Some (RESOLVE_ILLEGAL, out, w)
             else if w + 1 \<ge> cap then Some (RESOLVE_TOO_LONG, out, w)
             else decode_loop path (i + 3) (out(w := hex_pair (hex_digit h) (hex_digit l))) (w + 1) cap)
        | _ \<Rightarrow> Some (RESOLVE_ILLEGAL, out, w))
     else if w + 1 \<ge> cap then Some (RESOLVE_TOO_LONG, out, w)
     else decode_loop path (i + 1) (out(w := c)) (w + 1) cap)"
proof -
  note c = drop_Cons_nth [OF assms(1)]
  show ?thesis
  proof (cases "\<exists>h l rest. cs = h # l # rest")
    case True
    then obtain h l rest where cs: "cs = h # l # rest" by blast
    note h = drop_Cons_nth [OF c(3) [unfolded cs]]
    note l = drop_Cons_nth [OF h(3)]
    have "path ! (i + 1) = h" "path ! (i + 2) = l" "\<not> i + 2 \<ge> length path" using h l by simp_all
    with c(1,2) assms(2) show ?thesis
      by (simp add: decode_loop.simps [of path i] cs Let_def)
  next
    case False
    then have "length cs < 2" by (cases cs; cases "tl cs") auto
    with c(4) have "i + 2 \<ge> length path" by linarith
    with c(1,2) assms(2) False show ?thesis
      by (auto simp: decode_loop.simps [of path i] split: list.split)
  qed
qed

lemma decode_loop_spec:
  assumes "w < cap" "drop i path = s" "n = cap - 1 - w"
  shows "decoded_as out w cap (decode_loop path i out w cap) (spec_decode n s)"
  using assms
proof (induction n s arbitrary: i out w rule: spec_decode.induct)
  case (1 n)
  then show ?case by (simp add: decode_loop.simps [of path i] decoded_as_def written_def)
next
  case (2 n c cs)
  note eq = decode_loop_Cons [OF "2.prems"(2,1), of out]
  consider (stop) "c = CHR ''?'' \<or> c = CHR ''#''" | (plain) "c \<notin> {CHR ''?'', CHR ''#'', CHR ''%''}"
    | (esc) h l rest where "c = CHR ''%''" "cs = h # l # rest"
    | (short) "c = CHR ''%''" "\<nexists>h l rest. cs = h # l # rest" by blast
  then show ?case
  proof cases
    case stop
    with eq "2.prems" show ?thesis by (simp add: decoded_as_def written_def)
  next
    case short
    with eq show ?thesis by (auto simp: decoded_as_def split: list.split)
  next
    case plain
    show ?thesis
    proof (cases "w + 1 < cap")
      case True
      then have "decoded_as (out(w := c)) (w + 1) cap (decode_loop path (i + 1) (out(w := c)) (w + 1) cap)
          (spec_decode (n - 1) cs)"
        using plain drop_Cons_nth(3) [OF "2.prems"(2)] "2.prems" by (intro "2.IH"(2)) auto
      from decoded_as_step [OF True this] show ?thesis using plain True eq "2.prems" by simp
    qed (use plain eq "2.prems" in \<open>simp add: decoded_as_def\<close>)
  next
    case (esc h l rest)
    let ?x = "hex_pair (hex_digit h) (hex_digit l)"
    show ?thesis
    proof (cases "hex_digit h < 0 \<or> hex_digit l < 0 \<or> ?x = NUL \<or> \<not> w + 1 < cap")
      case False
      then have room: "w + 1 < cap" by blast
      have "drop (i + 3) path = rest"
        using arg_cong [OF "2.prems"(2), of "drop 3"] esc by (simp add: numeral_3_eq_3)
      then have "decoded_as (out(w := ?x)) (w + 1) cap (decode_loop path (i + 3) (out(w := ?x)) (w + 1) cap)
          (spec_decode (n - 1) rest)"
        using esc False "2.prems" by (intro "2.IH"(1)) auto
      from decoded_as_step [OF room this] show ?thesis using esc False eq "2.prems" by simp
    qed (use esc eq "2.prems" in \<open>auto simp: decoded_as_def\<close>)
  qed
qed

lemma decode_path_spec:
  "0 < cap \<Longrightarrow> decoded_as out 0 cap (decode_path path out cap) (spec_decode (cap - 1) path)"
  using decode_loop_spec [of 0 cap 0 path path "cap - 1" out] by (simp add: decode_path_def)


section \<open>Segments and the joined name\<close>

text \<open>The non-empty segments of a path.\<close>

definition segments :: "string \<Rightarrow> string list" where
  "segments s = filter (\<lambda>t. t \<noteq> []) (split_on CHR ''/'' s)"

text \<open>\<open>cap\<close> is the room left in the output, the terminator counted.\<close>

fun join_segs :: "nat \<Rightarrow> string list \<Rightarrow> resolve_result + string" where
  "join_segs cap [] = Inr []"
| "join_segs cap (seg # segs) =
     (if seg = ''.'' then join_segs cap segs
      else if seg = ''..'' then Inl RESOLVE_ILLEGAL
      else if 1 + length seg \<ge> cap then Inl RESOLVE_TOO_LONG
      else map_sum id (\<lambda>r. CHR ''/'' # seg @ r) (join_segs (cap - 1 - length seg) segs))"

lemma segments_Nil [simp]: "segments [] = []"
  by (simp add: segments_def)

lemma segments_dropWhile: "segments (dropWhile (\<lambda>c. c = CHR ''/'') s) = segments s"
  by (induction s) (auto simp: segments_def)

lemma segments_rest:
  "segments (dropWhile (\<lambda>c. c \<noteq> CHR ''/'') w) =
   filter (\<lambda>t. t \<noteq> []) (tl (split_on CHR ''/'' (dropWhile (\<lambda>c. c \<noteq> CHR ''/'') w)))"
proof (cases "dropWhile (\<lambda>c. c \<noteq> CHR ''/'') w")
  case Nil
  then show ?thesis by (simp add: segments_def del: dropWhile_eq_Nil_conv)
next
  case (Cons c cs)
  then have "c = CHR ''/''" using hd_dropWhile [of "\<lambda>c. c \<noteq> CHR ''/''" w] by simp
  with Cons show ?thesis by (simp add: segments_def)
qed

lemma segments_first:
  assumes "w \<noteq> []" "hd w \<noteq> CHR ''/''"
  shows "segments w = takeWhile (\<lambda>c. c \<noteq> CHR ''/'') w # segments (dropWhile (\<lambda>c. c \<noteq> CHR ''/'') w)"
proof -
  have "takeWhile (\<lambda>c. c \<noteq> CHR ''/'') w \<noteq> []" using assms by (cases w) auto
  then show ?thesis unfolding segments_rest by (simp add: segments_def split_on_first [of _ w])
qed

lemma scan_while_eq: "i \<le> length s \<Longrightarrow> scan_while P s i = i + length (takeWhile P (drop i s))"
proof (induction P s i rule: scan_while.induct)
  case (1 P s i)
  show ?case
  proof (cases "i < length s")
    case True
    then have "drop i s = s ! i # drop (i + 1) s" by (simp add: Cons_nth_drop_Suc)
    with True 1 show ?thesis by (simp add: scan_while.simps [of P s i])
  next
    case False
    then show ?thesis by (simp add: scan_while.simps [of P s i])
  qed
qed

lemma drop_takeWhile_length: "drop (i + length (takeWhile P (drop i s))) s = dropWhile P (drop i s)"
  by (metis add.commute drop_drop dropWhile_eq_drop)

lemma array_write_in:
  "i + length t \<le> cap \<Longrightarrow> \<exists>a'. array_write cap a i t = Some a' \<and> array_str a' (i + length t) = array_str a i @ t"
  by (auto simp: array_write_def array_str_def nth_append intro!: nth_equalityI)

definition joined_as :: "carray \<Rightarrow> nat \<Rightarrow> nat \<Rightarrow> (resolve_result \<times> carray \<times> nat) option \<Rightarrow>
    resolve_result + string \<Rightarrow> bool" where
  "joined_as out n cap c spec \<longleftrightarrow>
     (\<exists>res out' n'. c = Some (res, out', n') \<and>
        (case spec of
           Inl e \<Rightarrow> res = e \<and> e \<noteq> RESOLVE_OK
         | Inr r \<Rightarrow> res = RESOLVE_OK \<and> n' = n + length r \<and> n' < cap \<and>
             array_str out' n' = array_str out n @ r))"

lemma joined_as_step:
  assumes "joined_as out2 (n + 1 + length seg) cap r spec"
    "array_str out2 (n + 1 + length seg) = array_str out n @ CHR ''/'' # seg"
  shows "joined_as out n cap r (map_sum id (\<lambda>t. CHR ''/'' # seg @ t) spec)"
  using assms by (cases spec) (auto simp: joined_as_def add.assoc)

text \<open>One turn of the loop, in terms of the octets that are left.\<close>

lemma join_loop_turn:
  assumes i: "i \<le> length decoded" "i < length decoded"
    and w: "w = dropWhile (\<lambda>c. c = CHR ''/'') (drop i decoded)"
    and seg: "seg = takeWhile (\<lambda>c. c \<noteq> CHR ''/'') w"
    and i': "i' = scan_while (\<lambda>c. c \<noteq> CHR ''/'') decoded (scan_while (\<lambda>c. c = CHR ''/'') decoded i)"
    and n: "n < cap"
  shows "join_loop decoded i out n cap =
    (if seg = [] then Some (RESOLVE_OK, out, n)
     else if seg = ''.'' then join_loop decoded i' out n cap
     else if seg = ''..'' then Some (RESOLVE_ILLEGAL, out, n)
     else if 1 + length seg \<ge> cap - n then Some (RESOLVE_TOO_LONG, out, n)
     else join_loop decoded i' (the (array_write cap (out(n := CHR ''/'')) (n + 1) seg))
            (n + 1 + length seg) cap)"
    and "drop i' decoded = dropWhile (\<lambda>c. c \<noteq> CHR ''/'') w" and "i' \<le> length decoded"
    and "seg \<noteq> [] \<Longrightarrow> i < i'"
proof -
  let ?start = "scan_while (\<lambda>c. c = CHR ''/'') decoded i"
  have st: "?start = i + length (takeWhile (\<lambda>c. c = CHR ''/'') (drop i decoded))"
    using i by (simp add: scan_while_eq)
  have sl: "?start \<le> length decoded" using i by (simp add: scan_while_le)
  have dw: "drop ?start decoded = w" unfolding st w by (rule drop_takeWhile_length)
  have i'e: "i' = ?start + length seg" using sl by (simp add: i' seg scan_while_eq flip: dw)
  show drop': "drop i' decoded = dropWhile (\<lambda>c. c \<noteq> CHR ''/'') w"
    unfolding i'e seg dw [symmetric] by (rule drop_takeWhile_length)
  show "i' \<le> length decoded" unfolding i' by (rule scan_while_le [OF sl])
  show "seg \<noteq> [] \<Longrightarrow> i < i'" unfolding i'e st by simp
  have tk: "take (length seg) (drop ?start decoded) = seg"
    unfolding dw seg by (simp flip: takeWhile_eq_take)
  have nth: "k < length seg \<Longrightarrow> decoded ! (?start + k) = seg ! k" for k
    using tk sl by (metis nth_drop nth_take)
  have dot: "length seg = 1 \<and> decoded ! ?start = CHR ''.'' \<longleftrightarrow> seg = ''.''"
    using nth [of 0] by (cases seg) auto
  have dotdot: "length seg = 2 \<and> decoded ! ?start = CHR ''.'' \<and> decoded ! (?start + 1) = CHR ''.'' \<longleftrightarrow>
      seg = ''..''"
    using nth [of 0] nth [of 1] by (cases seg; cases "tl seg") auto
  have len: "i' - ?start = length seg" by (simp add: i'e)
  show "join_loop decoded i out n cap =
    (if seg = [] then Some (RESOLVE_OK, out, n)
     else if seg = ''.'' then join_loop decoded i' out n cap
     else if seg = ''..'' then Some (RESOLVE_ILLEGAL, out, n)
     else if 1 + length seg \<ge> cap - n then Some (RESOLVE_TOO_LONG, out, n)
     else join_loop decoded i' (the (array_write cap (out(n := CHR ''/'')) (n + 1) seg))
            (n + 1 + length seg) cap)"
    using i n
    unfolding join_loop.simps [of decoded i] Let_def i' [symmetric] len dot dotdot tk
    by (auto simp: array_write_def)
qed


lemma join_loop_spec:
  assumes "n < cap" "i \<le> length decoded"
  shows "joined_as out n cap (join_loop decoded i out n cap) (join_segs (cap - n) (segments (drop i decoded)))"
  using assms
proof (induction "length decoded - i" arbitrary: i out n rule: less_induct)
  case less
  show ?case
  proof (cases "i < length decoded")
    case False
    with less.prems have "i = length decoded" by simp
    with less.prems show ?thesis by (simp add: join_loop.simps [of decoded "length decoded"] joined_as_def)
  next
    case True
    define w where "w = dropWhile (\<lambda>c. c = CHR ''/'') (drop i decoded)"
    define seg where "seg = takeWhile (\<lambda>c. c \<noteq> CHR ''/'') w"
    define i' where "i' = scan_while (\<lambda>c. c \<noteq> CHR ''/'') decoded (scan_while (\<lambda>c. c = CHR ''/'') decoded i)"
    note turn = join_loop_turn(2-4) [OF less.prems(2) True w_def seg_def i'_def less.prems(1)]
    note loop = join_loop_turn(1) [OF less.prems(2) True w_def seg_def i'_def less.prems(1), of out]
    have segw: "segments (drop i decoded) = segments w" by (simp add: w_def segments_dropWhile)
    show ?thesis
    proof (cases "w = []")
      case True
      then show ?thesis using loop less.prems by (simp add: segw seg_def joined_as_def)
    next
      case False
      then have hd: "hd w \<noteq> CHR ''/''" unfolding w_def by (rule hd_dropWhile [rotated]) 
      with False have ne: "seg \<noteq> []" unfolding seg_def by (cases w) auto
      have segs: "segments (drop i decoded) = seg # segments (drop i' decoded)"
        using False hd by (simp add: segw segments_first turn(1) seg_def)
      have IH: "m < cap \<Longrightarrow> joined_as out' m cap (join_loop decoded i' out' m cap)
          (join_segs (cap - m) (segments (drop i' decoded)))" for out' m
        using less.hyps [of i'] turn(2,3) ne True by simp
      show ?thesis
      proof (cases "seg = ''.'' \<or> seg = ''..'' \<or> 1 + length seg \<ge> cap - n")
        case True
        then show ?thesis using loop ne segs IH [of n out] less.prems
          by (auto simp: joined_as_def)
      next
        case False
        obtain out2 where out2: "array_write cap (out(n := CHR ''/'')) (n + 1) seg = Some out2"
          "array_str out2 (n + 1 + length seg) = array_str out n @ CHR ''/'' # seg"
          using array_write_in [of "n + 1" seg cap "out(n := CHR ''/'')"] False less.prems(1)
          by (auto simp: not_le less_diff_conv)
        have "joined_as out2 (n + 1 + length seg) cap (join_loop decoded i' out2 (n + 1 + length seg) cap)
            (join_segs (cap - (n + 1 + length seg)) (segments (drop i' decoded)))"
          using False less.prems(1) by (intro IH) linarith
        from joined_as_step [OF this out2(2)] show ?thesis
          using loop ne segs False out2(1) by simp
      qed
    qed
  qed
qed

text \<open>A document root as \<^verbatim>\<open>static_files_init\<close> leaves it: a non-empty string.\<close>

definition wf_root :: "static_root \<Rightarrow> bool" where
  "wf_root g \<longleftrightarrow> 0 < g_root_len g \<and> cstring PATH_MAX (g_root g) (g_root_len g)"

definition root_of :: "static_root \<Rightarrow> string" where
  "root_of g = array_str (g_root g) (g_root_len g)"

definition root_base :: "string \<Rightarrow> string" where
  "root_base root = (if root = ''/'' then [] else root)"

definition spec_join :: "string \<Rightarrow> nat \<Rightarrow> string \<Rightarrow> resolve_result + string" where
  "spec_join root cap decoded =
     (if decoded = [] \<or> hd decoded \<noteq> CHR ''/'' then Inl RESOLVE_ILLEGAL
      else if length (root_base root) \<ge> cap then Inl RESOLVE_TOO_LONG
      else map_sum id (\<lambda>r. if root_base root @ r = [] then ''/'' else root_base root @ r)
             (join_segs (cap - length (root_base root)) (segments decoded)))"

lemma root_is_slash_eq: "root_is_slash g \<longleftrightarrow> root_of g = ''/''"
proof (cases "g_root_len g = 1")
  case True
  then show ?thesis by (simp add: root_is_slash_def root_of_def array_str_Suc)
next
  case False
  then have "root_of g \<noteq> ''/''" by (auto simp: root_of_def dest: arg_cong [where f = length])
  with False show ?thesis by (simp add: root_is_slash_def)
qed

lemma root_base_eq: "array_str (g_root g) (if root_is_slash g then 0 else g_root_len g) = root_base (root_of g)"
  by (simp add: root_base_def root_is_slash_eq) (simp add: root_of_def)

lemma root_base_length: "(if root_is_slash g then 0 else g_root_len g) = length (root_base (root_of g))"
  by (metis length_array_str root_base_eq)

lemma root_base_str: "array_str (g_root g) (length (root_base (root_of g))) = root_base (root_of g)"
  by (metis root_base_eq root_base_length)

lemma join_under_root_spec:
  assumes "1 < cap"
  shows "\<exists>res out'. join_under_root g decoded out cap = Some (res, out') \<and>
    (case spec_join (root_of g) cap decoded of
       Inl e \<Rightarrow> res = e \<and> e \<noteq> RESOLVE_OK
     | Inr p \<Rightarrow> res = RESOLVE_OK \<and> length p < cap \<and> array_str out' (length p) = p \<and> out' (length p) = NUL)"
proof -
  let ?b = "root_base (root_of g)" and ?n = "length (root_base (root_of g))"
  show ?thesis
  proof (cases "decoded = [] \<or> hd decoded \<noteq> CHR ''/'' \<or> ?n \<ge> cap")
    case True
    then show ?thesis
      by (auto simp: join_under_root_def spec_join_def hd_conv_nth root_base_length Let_def)
  next
    case False
    obtain out1 where out1: "array_write cap out 0 ?b = Some out1" "array_str out1 ?n = ?b"
      using array_write_in [of 0 ?b cap out] False by auto
    have "joined_as out1 ?n cap (join_loop decoded 0 out1 ?n cap) (join_segs (cap - ?n) (segments decoded))"
      using join_loop_spec [of ?n cap 0 decoded out1] False by simp
    then obtain res out2 n2 where loop: "join_loop decoded 0 out1 ?n cap = Some (res, out2, n2)"
      "case join_segs (cap - ?n) (segments decoded) of Inl e \<Rightarrow> res = e \<and> e \<noteq> RESOLVE_OK
       | Inr r \<Rightarrow> res = RESOLVE_OK \<and> n2 = ?n + length r \<and> n2 < cap \<and> array_str out2 n2 = ?b @ r"
      unfolding joined_as_def out1(2) by blast
    with False out1 assms show ?thesis
      by (cases "join_segs (cap - ?n) (segments decoded)")
         (auto simp: join_under_root_def spec_join_def hd_conv_nth root_base_str root_base_length Let_def
           array_str_Suc)
  qed
qed


section \<open>Containment\<close>

text \<open>
  What the root check accepts: names strictly below the root, where the last component of
  the root ends at a separator.
\<close>

definition under_root :: "string \<Rightarrow> string \<Rightarrow> bool" where
  "under_root root t \<longleftrightarrow>
     prefix (root_base root @ ''/'') t \<and> (root = ''/'' \<longrightarrow> 1 < length t \<and> t ! 1 \<noteq> NUL)"

lemma strncmp_eq_map:
  assumes "i + n \<le> cap" "\<And>k. i \<le> k \<Longrightarrow> k < i + n \<Longrightarrow> b k \<noteq> NUL"
  shows "strncmp_eq cap a cap b i n = Some (map a [i..<i + n] = map b [i..<i + n])"
  using assms
proof (induction n arbitrary: i)
  case (Suc n)
  have "[i..<i + Suc n] = i # [i + 1..<i + 1 + n]" by (simp add: upt_conv_Cons)
  with Suc.IH [of "i + 1"] Suc.prems show ?case by (simp add: mem_simps)
qed simp

lemma wf_root_props:
  assumes "wf_root g"
  shows "g_root_len g < PATH_MAX" "0 < g_root_len g" "length (root_of g) = g_root_len g"
    "NUL \<notin> set (root_of g)" "root_of g \<noteq> []" "\<And>k. k < g_root_len g \<Longrightarrow> g_root g k \<noteq> NUL"
proof -
  show "g_root_len g < PATH_MAX" "0 < g_root_len g" "length (root_of g) = g_root_len g"
      "\<And>k. k < g_root_len g \<Longrightarrow> g_root g k \<noteq> NUL"
    using assms by (simp_all add: wf_root_def root_of_def cstring_def)
  then show "NUL \<notin> set (root_of g)" "root_of g \<noteq> []"
    by (force simp: root_of_def array_str_def)+
qed

text \<open>\<open>a\<close> holds the string \<open>t\<close> and its terminator; what lies behind is arbitrary.\<close>

definition holds_string :: "carray \<Rightarrow> string \<Rightarrow> bool" where
  "holds_string a t \<longleftrightarrow> (\<forall>k<length t. a k = t ! k) \<and> a (length t) = NUL"

lemma array_str_eq_prefix:
  assumes "NUL \<notin> set r" "holds_string a t"
  shows "array_str a (length r) = r \<longleftrightarrow> prefix r t"
proof
  assume eq: "array_str a (length r) = r"
  have le: "length r \<le> length t"
  proof (rule ccontr)
    assume "\<not> length r \<le> length t"
    then have "length t < length r" by simp
    moreover from this have "r ! length t = a (length t)" using nth_array_str [of "length t" "length r" a] eq by simp
    ultimately show False using assms nth_mem [of "length t" r] by (simp add: holds_string_def)
  qed
  have "r ! k = t ! k" if "k < length r" for k
    using that nth_array_str [of k "length r" a] eq assms(2) le by (simp add: holds_string_def)
  with le have "r = take (length r) t" by (intro nth_equalityI) simp_all
  then show "prefix r t" by (metis take_is_prefix)
next
  assume "prefix r t"
  then show "array_str a (length r) = r"
    using assms(2) by (auto simp: holds_string_def prefix_def array_str_def nth_append intro!: nth_equalityI)
qed

lemma prefix_snoc_nth:
  assumes "prefix r t"
  shows "prefix (r @ [c]) t \<longleftrightarrow> length r < length t \<and> t ! length r = c"
  using assms by (auto simp: prefix_def nth_append neq_Nil_conv)

lemma is_within_root_spec:
  assumes g: "wf_root g" and a: "holds_string a t"
  shows "is_within_root g a = Some (under_root (root_of g) t)"
proof -
  note g' = wf_root_props [OF g]
  have "strncmp_eq PATH_MAX a PATH_MAX (g_root g) 0 (g_root_len g) =
      Some (array_str a (length (root_of g)) = root_of g)"
    using strncmp_eq_map [of 0 "g_root_len g" PATH_MAX "g_root g" a] g'
    by (simp add: array_str_def root_of_def)
  also have "\<dots> = Some (prefix (root_of g) t)"
    using array_str_eq_prefix [of "root_of g" a t] g'(4) a by simp
  finally have cmp: "strncmp_eq PATH_MAX a PATH_MAX (g_root g) 0 (g_root_len g) = Some (prefix (root_of g) t)" .
  show ?thesis
  proof (cases "root_of g = ''/''")
    case True
    have "a 1 \<noteq> NUL \<longleftrightarrow> 1 < length t \<and> t ! 1 \<noteq> NUL" if "prefix ''/'' t"
    proof (cases "1 < length t")
      case False
      with that have "length t = 1" by (cases t) auto
      with a show ?thesis by (simp add: holds_string_def)
    qed (use a in \<open>simp add: holds_string_def\<close>)
    with True show ?thesis
      using cmp by (auto simp: is_within_root_def root_is_slash_eq under_root_def root_base_def)
  next
    case False
    have up: "prefix (root_of g @ ''/'') t \<Longrightarrow> prefix (root_of g) t" by (meson append_prefixD)
    have "a (g_root_len g) = CHR ''/'' \<longleftrightarrow> g_root_len g < length t \<and> t ! g_root_len g = CHR ''/''"
      if "prefix (root_of g) t"
    proof (cases "g_root_len g < length t")
      case False
      with prefix_length_le [OF that] g'(3) have "length t = g_root_len g" by simp
      with a show ?thesis by (simp add: holds_string_def)
    qed (use a in \<open>simp add: holds_string_def\<close>)
    with False show ?thesis
      using cmp up g'(1,3) prefix_snoc_nth [of "root_of g" t "CHR ''/''"]
      by (auto simp: is_within_root_def root_is_slash_eq under_root_def root_base_def)
  qed
qed

definition fd_contained :: "string \<Rightarrow> fs_view \<Rightarrow> int \<Rightarrow> bool" where
  "fd_contained root fs fd \<longleftrightarrow>
     (case fs_link fs fd of None \<Rightarrow> False
      | Some t \<Rightarrow> length t < PATH_MAX - 1 \<and> under_root root t)"

lemma fd_is_within_root_spec:
  assumes "wf_root g"
  shows "fd_is_within_root g fs fd = Some (fd_contained (root_of g) fs fd)"
proof (cases "fs_link fs fd")
  case None
  then show ?thesis by (simp add: fd_is_within_root_def fd_contained_def)
next
  case (Some t)
  show ?thesis
  proof (cases "length t < PATH_MAX - 1")
    case True
    let ?a = "(\<lambda>k. if 0 \<le> k \<and> k < 0 + length t then take (length t) t ! (k - 0) else fs_stack fs 2 k)(length t := NUL)"
    have "holds_string ?a t" by (simp add: holds_string_def)
    then show ?thesis
      using True Some is_within_root_spec [OF assms, of ?a t]
      by (simp add: fd_is_within_root_def fd_contained_def array_write_def Let_def)
  next
    case False
    then show ?thesis using Some by (simp add: fd_is_within_root_def fd_contained_def array_write_def)
  qed
qed


section \<open>Opening a file\<close>

definition resolve_status :: "resolve_result \<Rightarrow> static_file_result" where
  "resolve_status e = (if e = RESOLVE_ILLEGAL then STATIC_FILE_INVALID_PATH else STATIC_FILE_NOT_FOUND)"

text \<open>The file name a request target stands for, or the verdict reached without the file system.\<close>

definition spec_resolve :: "string \<Rightarrow> string \<Rightarrow> static_file_result + string" where
  "spec_resolve root path =
     (case spec_decode (PATH_MAX - 1) path of
        Inl e \<Rightarrow> Inl (resolve_status e)
      | Inr d \<Rightarrow>
          (case spec_join root PATH_MAX d of
             Inl e \<Rightarrow> Inl (resolve_status e)
           | Inr p \<Rightarrow> if last d = CHR ''/'' then Inl STATIC_FILE_NOT_FOUND else Inr p))"

definition spec_open ::
  "string \<Rightarrow> fs_view \<Rightarrow> string \<Rightarrow> int set \<Rightarrow> static_file_result \<times> static_file \<times> int set" where
  "spec_open root fs p fds =
     (case fs_open fs p of
        None \<Rightarrow> (STATIC_FILE_NOT_FOUND, no_file, fds)
      | Some fd \<Rightarrow>
          (case fs_fstat fs fd of
             Some (True, st_size) \<Rightarrow>
               if fd_contained root fs fd
               then (STATIC_FILE_OK, \<lparr>f_fd = fd, f_size = st_size, f_content_type = Some (content_type_for p)\<rparr>,
                     insert fd fds)
               else (STATIC_FILE_NOT_FOUND, no_file, insert fd fds - {fd})
           | _ \<Rightarrow> (STATIC_FILE_NOT_FOUND, no_file, insert fd fds - {fd})))"

lemma open_checked_spec: "wf_root g \<Longrightarrow> open_checked g fs p fds = Some (spec_open (root_of g) fs p fds)"
  by (auto simp: open_checked_def spec_open_def fd_is_within_root_spec Let_def split: option.split bool.split)

lemma cstr_from_spec:
  assumes "array_str a n = p" "a n = NUL" "NUL \<notin> set p" "n < cap" "i \<le> n"
  shows "cstr_from cap a i = Some (drop i p)"
  using assms(5)
proof (induction "n - i" arbitrary: i)
  case 0
  then have "i = n" by simp
  then show ?case using assms by (auto simp: cstr_from.simps [of cap a n])
next
  case (Suc k)
  then have "i < n" by simp
  moreover have "a i \<noteq> NUL" using assms(1,3) \<open>i < n\<close> by (metis length_array_str nth_array_str nth_mem)
  moreover have "drop i p = a i # drop (i + 1) p"
    using assms(1) \<open>i < n\<close> by (metis Cons_nth_drop_Suc Suc_eq_plus1 length_array_str nth_array_str)
  ultimately show ?case using Suc assms(4) by (simp add: cstr_from.simps [of cap a i])
qed

lemma spec_decode_no_NUL: "spec_decode n s = Inr d \<Longrightarrow> NUL \<notin> set s \<Longrightarrow> NUL \<notin> set d"
  by (induction n s arbitrary: d rule: spec_decode.induct)
     (auto split: if_splits list.splits simp: map_sum_def split: sum.splits)

lemma set_split_on: "t \<in> set (split_on x s) \<Longrightarrow> set t \<subseteq> set s"
proof (induction s arbitrary: t)
  case (Cons c s)
  have "t = [] \<or> t = c # hd (split_on x s) \<or> t \<in> set (split_on x s)"
    using Cons.prems by (auto split: if_splits intro: list.set_sel(2))
  with Cons.IH [of "hd (split_on x s)"] Cons.IH [of t] show ?case by auto
qed simp

lemma set_segments: "t \<in> set (segments s) \<Longrightarrow> set t \<subseteq> set s"
  by (auto simp: segments_def dest: set_split_on)

lemma join_segs_set:
  "join_segs cap segs = Inr r \<Longrightarrow> set r \<subseteq> insert CHR ''/'' (\<Union>t\<in>set segs. set t)"
proof (induction cap segs arbitrary: r rule: join_segs.induct)
  case (2 cap seg segs)
  then show ?case
    by (cases "join_segs cap segs"; cases "join_segs (cap - 1 - length seg) segs") (auto split: if_splits)
qed simp

lemma root_base_set: "set (root_base r) \<subseteq> set r"
  by (simp add: root_base_def)

lemma spec_join_no_NUL:
  assumes "spec_join root cap d = Inr p" "NUL \<notin> set d" "NUL \<notin> set root"
  shows "NUL \<notin> set p"
proof -
  obtain r where r: "join_segs (cap - length (root_base root)) (segments d) = Inr r"
    "p = (if root_base root @ r = [] then ''/'' else root_base root @ r)"
    using assms(1) unfolding spec_join_def
    by (cases "join_segs (cap - length (root_base root)) (segments d)") (auto split: if_splits)
  have "NUL \<notin> set r" using join_segs_set [OF r(1)] assms(2) set_segments by fastforce
  with r(2) assms(3) root_base_set [of root] show ?thesis by auto
qed

lemma spec_join_error: "spec_join root cap d = Inl e \<Longrightarrow> e \<noteq> RESOLVE_OK"
proof -
  have "join_segs c segs \<noteq> Inl RESOLVE_OK" for c segs
    by (induction c segs rule: join_segs.induct) auto
  then show "spec_join root cap d = Inl e \<Longrightarrow> e \<noteq> RESOLVE_OK"
    unfolding spec_join_def by (auto split: if_splits)
qed

lemma static_file_open_spec:
  assumes g: "wf_root g" and path: "NUL \<notin> set path"
  shows "static_file_open g fs path fds =
    Some (case spec_resolve (root_of g) path of
            Inl r \<Rightarrow> (r, no_file, fds) | Inr p \<Rightarrow> spec_open (root_of g) fs p fds)"
proof -
  note g' = wf_root_props [OF g]
  obtain res decoded n where dec: "decode_path path (fs_stack fs 0) PATH_MAX = Some (res, decoded, n)"
    "case spec_decode (PATH_MAX - 1) path of Inl e \<Rightarrow> res = e
     | Inr s \<Rightarrow> res = RESOLVE_OK \<and> written (fs_stack fs 0) 0 s PATH_MAX decoded n"
    using decode_path_spec [of PATH_MAX "fs_stack fs 0" path] unfolding decoded_as_def by auto
  show ?thesis
  proof (cases "spec_decode (PATH_MAX - 1) path")
    case (Inl e)
    then show ?thesis using dec g'(2) spec_decode_error [of "PATH_MAX - 1" path]
      by (cases e) (auto simp: static_file_open_def spec_resolve_def resolve_status_def)
  next
    case (Inr d)
    then have d: "res = RESOLVE_OK" "n = length d" "n < PATH_MAX" "array_str decoded n = d" "NUL \<notin> set d"
      using dec spec_decode_no_NUL [OF Inr path] by (auto simp: written_def)
    obtain jres fsp where j: "join_under_root g d (fs_stack fs 1) PATH_MAX = Some (jres, fsp)"
      "case spec_join (root_of g) PATH_MAX d of Inl e \<Rightarrow> jres = e \<and> e \<noteq> RESOLVE_OK
       | Inr p \<Rightarrow> jres = RESOLVE_OK \<and> length p < PATH_MAX \<and> array_str fsp (length p) = p \<and> fsp (length p) = NUL"
      using join_under_root_spec [of PATH_MAX g d "fs_stack fs 1"] by auto
    show ?thesis
    proof (cases "spec_join (root_of g) PATH_MAX d")
      case (Inl e)
      then show ?thesis using dec(1) d j Inr g'(2)
        by (cases e) (auto simp: static_file_open_def spec_resolve_def resolve_status_def)
    next
      case (Inr p)
      have "d \<noteq> []" using Inr by (auto simp: spec_join_def)
      then have "decoded (n - 1) = last d" "0 < n" using d(2,4)
        by (metis diff_less last_conv_nth length_greater_0_conv less_numeral_extra(1) nth_array_str, simp)
      moreover have "NUL \<notin> set p" using spec_join_no_NUL [OF Inr d(5) g'(4)] .
      then have "cstr_from PATH_MAX fsp 0 = Some p"
        using cstr_from_spec [of fsp "length p" p PATH_MAX 0] j(2) Inr by simp
      ultimately show ?thesis
        using dec(1) d j Inr \<open>spec_decode (PATH_MAX - 1) path = Inr d\<close> g g'(2)
        by (simp add: static_file_open_def spec_resolve_def open_checked_spec)
    qed
  qed
qed

end
