(* ===== verification/Static_Safety.thy ===== *)
theory Static_Safety
  imports Static_Spec
begin

text \<open>
  The guarantees of the static-file module, derived from the equation of
  \<open>static_file_open\<close> in theory \<open>Static_Spec\<close>: percent encodings are undone exactly,
  a request target with a parent segment is refused however it is encoded, a served file is
  a regular file below the document root under the name of its clean segments, a refusal
  says nothing about the file system, and no descriptor is leaked.
\<close>

section \<open>Percent encodings\<close>

definition hex_chars :: string where
  "hex_chars = ''0123456789ABCDEF''"

definition percent_octet :: "char \<Rightarrow> string" where
  "percent_octet c = [CHR ''%'', hex_chars ! (byte c div 16), hex_chars ! (byte c mod 16)]"

text \<open>
  \<open>encodes d s\<close>: the target \<open>s\<close> is an encoding of \<open>d\<close>, with any choice of which octets
  are written as escapes, in either case, and with any query string or fragment.
\<close>

inductive encodes :: "string \<Rightarrow> string \<Rightarrow> bool" where
  encodes_end: "encodes [] []"
| encodes_query: "c = CHR ''?'' \<or> c = CHR ''#'' \<Longrightarrow> encodes [] (c # s)"
| encodes_plain: "c \<notin> {CHR ''?'', CHR ''#'', CHR ''%''} \<Longrightarrow> encodes d s \<Longrightarrow> encodes (c # d) (c # s)"
| encodes_escape: "map tolower esc = map tolower (percent_octet c) \<Longrightarrow> c \<noteq> NUL \<Longrightarrow> encodes d s \<Longrightarrow>
    encodes (c # d) (esc @ s)"

inductive_cases encodes_NilE: "encodes d []"

lemma byte_cases: "n < 16 \<Longrightarrow> n \<in> {0, 1, 2, 3, 4, 5, 6, 7, 8, 9, 10, 11, 12, 13, 14, 15 :: nat}"
  by (simp; presburger)

lemma hex_digit_hex_chars: "n < 16 \<Longrightarrow> hex_digit (hex_chars ! n) = int n"
  using byte_cases [of n] by (auto simp: hex_digit_def hex_chars_def)

lemma hex_digit_tolower: "hex_digit (tolower c) = hex_digit c"
  by (auto simp: hex_digit_def tolower_def of_char_of)

lemma hex_digit_range: "hex_digit c = -1 \<or> 0 \<le> hex_digit c \<and> hex_digit c < 16"
  by (auto simp: hex_digit_def)

lemma lower_hex:
  "char_of (97 :: nat) = CHR ''a''" "char_of (98 :: nat) = CHR ''b''" "char_of (99 :: nat) = CHR ''c''"
  "char_of (100 :: nat) = CHR ''d''" "char_of (101 :: nat) = CHR ''e''" "char_of (102 :: nat) = CHR ''f''"
  by (simp_all add: char_of_def bit_0)

lemma hex_digit_char:
  assumes "0 \<le> hex_digit h"
  shows "tolower h = tolower (hex_chars ! nat (hex_digit h))"
proof -
  have "byte h \<in> set ([48..<58] @ [97..<103] @ [65..<71])"
    using assms unfolding hex_digit_def set_append set_upt Un_iff atLeastLessThan_iff
    by (auto split: if_splits)
  then have "byte h \<in> set (map byte ''0123456789abcdefABCDEF'')" by simp
  then have "h \<in> set ''0123456789abcdefABCDEF''"
    by (simp only: set_map image_iff byte_eq_iff) blast
  then show ?thesis unfolding list.set insert_iff
    by (elim disjE) (simp_all add: hex_digit_def hex_chars_def tolower_def lower_hex)
qed

lemma hex_pair_value:
  assumes "0 \<le> a" "a < 16" "0 \<le> b" "b < 16"
  shows "byte (hex_pair a b) = nat (16 * a + b)"
proof -
  have "push_bit 4 a OR b = push_bit 4 a + b"
  proof (rule disjunctive_add [symmetric])
    fix n
    have "b = take_bit 4 b" using assms by (simp add: take_bit_int_eq_self)
    then show "\<not> bit (push_bit 4 a) n \<or> \<not> bit b n"
      by (metis bit_push_bit_iff bit_take_bit_iff not_le)
  qed
  then have "push_bit 4 a OR b = 16 * a + b" by (simp add: push_bit_eq_mult)
  then show ?thesis using assms by (simp add: hex_pair_def)
qed


lemma char_div_mod: "byte c div 16 < 16" "byte c mod 16 < 16" "16 * (byte c div 16) + byte c mod 16 = byte c"
proof -
  have "byte c < 256" by (rule nat_of_char_less_256)
  then show "byte c div 16 < 16" by (simp add: less_mult_imp_div_less)
qed simp_all

lemma tolower_percent: "tolower x = tolower CHR ''%'' \<longleftrightarrow> x = CHR ''%''"
proof
  assume eq: "tolower x = tolower CHR ''%''"
  show "x = CHR ''%''"
  proof (cases "byte CHR ''A'' \<le> byte x \<and> byte x \<le> byte CHR ''Z''")
    case True
    then have "byte (tolower x) = byte x + 32" by (simp add: tolower_def)
    moreover have "byte (tolower x) = byte CHR ''%''" using eq by (simp add: tolower_def)
    ultimately show ?thesis using True by simp
  qed (use eq in \<open>auto simp: tolower_def split: if_splits\<close>)
qed simp

lemma percent_octet_iff:
  "map tolower esc = map tolower (percent_octet c) \<longleftrightarrow>
   (\<exists>h l. esc = [CHR ''%'', h, l] \<and> hex_digit h = int (byte c div 16) \<and> hex_digit l = int (byte c mod 16))"
proof -
  have digit: "tolower h = tolower (hex_chars ! n) \<longleftrightarrow> hex_digit h = int n" if "n < 16" for h n
  proof
    assume "tolower h = tolower (hex_chars ! n)"
    then have "hex_digit (tolower h) = hex_digit (tolower (hex_chars ! n))" by simp
    then show "hex_digit h = int n" using that by (simp add: hex_digit_tolower hex_digit_hex_chars)
  next
    assume "hex_digit h = int n"
    then show "tolower h = tolower (hex_chars ! n)" using hex_digit_char [of h] by simp
  qed
  show ?thesis
    unfolding percent_octet_def using digit [OF char_div_mod(1) [of c]] digit [OF char_div_mod(2) [of c]]
    by (auto simp: map_eq_Cons_conv tolower_percent)
qed

lemma hex_pair_octet:
  "hex_digit h = int (byte c div 16) \<Longrightarrow> hex_digit l = int (byte c mod 16) \<Longrightarrow>
   hex_pair (hex_digit h) (hex_digit l) = c"
proof -
  assume "hex_digit h = int (byte c div 16)" "hex_digit l = int (byte c mod 16)"
  then have "byte (hex_pair (hex_digit h) (hex_digit l)) = nat (16 * int (byte c div 16) + int (byte c mod 16))"
    using char_div_mod [of c] by (subst hex_pair_value) auto
  also have "\<dots> = byte c" using char_div_mod(3) [of c] by linarith
  finally show ?thesis by (simp add: byte_eq_iff)
qed

text \<open>The decoder computes exactly the relation \<open>encodes\<close>.\<close>

lemma spec_decode_encodes: "encodes d s \<Longrightarrow> length d \<le> n \<Longrightarrow> spec_decode n s = Inr d"
proof (induction arbitrary: n rule: encodes.induct)
  case (encodes_escape esc c d s)
  from encodes_escape.hyps(1) obtain h l where esc: "esc = [CHR ''%'', h, l]"
    "hex_digit h = int (byte c div 16)" "hex_digit l = int (byte c mod 16)"
    unfolding percent_octet_iff by blast
  with encodes_escape hex_pair_octet [OF esc(2,3)] show ?case by (cases n) auto
next
  case (encodes_plain c d s)
  then show ?case by (cases n) auto
qed auto

lemma encodes_spec_decode: "spec_decode n s = Inr d \<Longrightarrow> encodes d s \<and> length d \<le> n"
proof (induction n s arbitrary: d rule: spec_decode.induct)
  case (1 n)
  then show ?case by (auto intro: encodes.intros)
next
  case (2 n c cs)
  consider (stop) "c = CHR ''?'' \<or> c = CHR ''#''" | (plain) "c \<notin> {CHR ''?'', CHR ''#'', CHR ''%''}"
    | (esc) h l rest where "c = CHR ''%''" "cs = h # l # rest"
    | (short) "c = CHR ''%''" "\<nexists>h l rest. cs = h # l # rest" by blast
  then show ?case
  proof cases
    case stop
    with 2 show ?thesis by (auto intro: encodes.intros)
  next
    case short
    with 2 show ?thesis by (auto split: list.splits)
  next
    case plain
    with "2.prems" obtain d' where "n \<noteq> 0" "spec_decode (n - 1) cs = Inr d'" "d = c # d'"
      by (cases "spec_decode (n - 1) cs") (auto split: if_splits)
    with "2.IH"(2) plain show ?thesis by (fastforce intro: encodes.intros)
  next
    case (esc h l rest)
    let ?x = "hex_pair (hex_digit h) (hex_digit l)"
    from esc "2.prems" obtain d' where d': "n \<noteq> 0" "spec_decode (n - 1) rest = Inr d'" "d = ?x # d'"
      "0 \<le> hex_digit h" "0 \<le> hex_digit l" "?x \<noteq> NUL"
      by (cases "spec_decode (n - 1) rest") (auto split: if_splits)
    then have "byte ?x = nat (16 * hex_digit h + hex_digit l)"
      using hex_digit_range [of h] hex_digit_range [of l] by (intro hex_pair_value) auto
    then have "int (byte ?x) = 16 * hex_digit h + hex_digit l" using d'(4,5) by simp
    then have "hex_digit h = int (byte ?x div 16)" "hex_digit l = int (byte ?x mod 16)"
      using hex_digit_range [of h] hex_digit_range [of l] d'(4,5) by (simp_all add: zdiv_int zmod_int)
    then have "map tolower [CHR ''%'', h, l] = map tolower (percent_octet ?x)"
      unfolding percent_octet_iff by blast
    from encodes_escape [OF this d'(6)] "2.IH"(1) d' esc show ?thesis by fastforce
  qed
qed


section \<open>Joined names\<close>

text \<open>A segment the join keeps: a proper name.\<close>

definition clean_segment :: "string \<Rightarrow> bool" where
  "clean_segment t \<longleftrightarrow> t \<noteq> [] \<and> CHR ''/'' \<notin> set t \<and> t \<noteq> ''.'' \<and> t \<noteq> ''..''"

definition path_of :: "string list \<Rightarrow> string" where
  "path_of segs = concat (map (\<lambda>t. CHR ''/'' # t) segs)"

definition real_segments :: "string \<Rightarrow> string list" where
  "real_segments d = filter (\<lambda>t. t \<noteq> ''.'') (segments d)"

lemma split_on_no_sep: "t \<in> set (split_on x s) \<Longrightarrow> x \<notin> set t"
proof (induction s arbitrary: t)
  case (Cons c s)
  have "t = [] \<or> c \<noteq> x \<and> t = c # hd (split_on x s) \<or> t \<in> set (split_on x s)"
    using Cons.prems by (auto split: if_splits intro: list.set_sel(2))
  with Cons.IH [of "hd (split_on x s)"] Cons.IH [of t] show ?case by auto
qed simp

lemma real_segments_clean: "''..'' \<notin> set (segments d) \<Longrightarrow> list_all clean_segment (real_segments d)"
  by (auto simp: real_segments_def segments_def clean_segment_def list_all_iff dest: split_on_no_sep)

lemma join_segs_Inr:
  "join_segs cap segs = Inr r \<Longrightarrow>
   ''..'' \<notin> set segs \<and> r = path_of (filter (\<lambda>t. t \<noteq> ''.'') segs) \<and> (length r < cap \<or> r = [])"
proof (induction cap segs arbitrary: r rule: join_segs.induct)
  case (2 cap seg segs)
  show ?case
  proof (cases "seg = ''.''")
    case True
    with "2.prems" "2.IH"(1) [of r] show ?thesis by simp blast
  next
    case False
    with "2.prems" obtain r' where "join_segs (cap - 1 - length seg) segs = Inr r'" "r = CHR ''/'' # seg @ r'"
      "seg \<noteq> ''..''" "1 + length seg < cap"
      by (cases "join_segs (cap - 1 - length seg) segs") (auto split: if_splits)
    with "2.IH"(2) False show ?thesis by (auto simp: path_of_def)
  qed
qed (simp add: path_of_def)

lemma join_segs_fits:
  "''..'' \<notin> set segs \<Longrightarrow> length (path_of (filter (\<lambda>t. t \<noteq> ''.'') segs)) < cap \<Longrightarrow>
   join_segs cap segs = Inr (path_of (filter (\<lambda>t. t \<noteq> ''.'') segs))"
  by (induction cap segs rule: join_segs.induct) (auto simp: path_of_def split: if_splits)

lemma join_segs_dotdot:
  "''..'' \<in> set segs \<Longrightarrow> length (path_of segs) < cap \<Longrightarrow> join_segs cap segs = Inl RESOLVE_ILLEGAL"
  by (induction cap segs rule: join_segs.induct) (auto simp: path_of_def)

lemma path_of_segments_le: "d \<noteq> [] \<Longrightarrow> hd d = CHR ''/'' \<Longrightarrow> length (path_of (segments d)) \<le> length d"
proof -
  have gen: "length (concat (map (\<lambda>t. CHR ''/'' # t) (split_on CHR ''/'' s))) = Suc (length s)" for s
  proof (induction s)
    case (Cons c s)
    then show ?case by (cases "split_on CHR ''/'' s") (auto simp: split_on_not_Nil)
  qed simp
  have filt: "length (concat (map (\<lambda>t. CHR ''/'' # t) (filter P ts))) \<le>
      length (concat (map (\<lambda>t. CHR ''/'' # t) ts))" for P :: "string \<Rightarrow> bool" and ts
    by (induction ts) auto
  assume "d \<noteq> []" "hd d = CHR ''/''"
  then obtain d' where d: "d = CHR ''/'' # d'" by (cases d) auto
  then have "segments d = segments d'" by (simp add: segments_def)
  then show ?thesis
    using filt [of "\<lambda>t. t \<noteq> []" "split_on CHR ''/'' d'"] gen [of d'] d
    by (simp add: path_of_def segments_def)
qed


definition file_name :: "string \<Rightarrow> string list \<Rightarrow> string" where
  "file_name root segs =
     (if root_base root @ path_of segs = [] then ''/'' else root_base root @ path_of segs)"

lemma spec_join_Inr:
  assumes "spec_join root cap d = Inr p"
  shows "d \<noteq> []" "hd d = CHR ''/''" "''..'' \<notin> set (segments d)" "p = file_name root (real_segments d)"
proof -
  show "d \<noteq> []" "hd d = CHR ''/''" using assms by (auto simp: spec_join_def split: if_splits)
  from assms obtain r where "join_segs (cap - length (root_base root)) (segments d) = Inr r"
    "p = (if root_base root @ r = [] then ''/'' else root_base root @ r)"
    unfolding spec_join_def
    by (cases "join_segs (cap - length (root_base root)) (segments d)") (auto split: if_splits)
  then show "''..'' \<notin> set (segments d)" "p = file_name root (real_segments d)"
    using join_segs_Inr by (auto simp: file_name_def real_segments_def)
qed

lemma spec_resolve_Inr:
  assumes "spec_resolve root path = Inr p"
  obtains d where "encodes d path" "hd d = CHR ''/''" "last d \<noteq> CHR ''/''" "''..'' \<notin> set (segments d)"
    "p = file_name root (real_segments d)"
proof -
  from assms obtain d where d: "spec_decode (PATH_MAX - 1) path = Inr d" "spec_join root PATH_MAX d = Inr p"
    "last d \<noteq> CHR ''/''"
    by (auto simp: spec_resolve_def split: sum.splits if_splits)
  show thesis
    by (rule that [of d]) (use encodes_spec_decode [OF d(1)] spec_join_Inr [OF d(2)] d(3) in auto)
qed

lemma spec_resolve_fits:
  assumes "encodes d path" "length d < PATH_MAX" "d \<noteq> []" "hd d = CHR ''/''" "last d \<noteq> CHR ''/''"
    "''..'' \<notin> set (segments d)" "length (root_base root) + length (path_of (real_segments d)) < PATH_MAX"
  shows "spec_resolve root path = Inr (file_name root (real_segments d))"
proof -
  have "spec_decode (PATH_MAX - 1) path = Inr d" using assms(1,2) by (simp add: spec_decode_encodes)
  moreover have "join_segs (PATH_MAX - length (root_base root)) (segments d) = Inr (path_of (real_segments d))"
    using assms(6,7) unfolding real_segments_def by (intro join_segs_fits) simp_all
  ultimately show ?thesis using assms by (simp add: spec_resolve_def spec_join_def file_name_def)
qed

lemma spec_resolve_dotdot:
  assumes "encodes d path" "''..'' \<in> set (segments d)"
  shows "\<exists>r. spec_resolve root path = Inl r \<and> r \<noteq> STATIC_FILE_OK \<and>
    (hd d = CHR ''/'' \<and> length (root_base root) + length d < PATH_MAX \<longrightarrow> r = STATIC_FILE_INVALID_PATH)"
proof -
  have ne: "d \<noteq> []" using assms(2) by auto
  show ?thesis
  proof (cases "hd d = CHR ''/'' \<and> length (root_base root) + length d < PATH_MAX")
    case True
    then have "spec_decode (PATH_MAX - 1) path = Inr d" using assms(1) by (simp add: spec_decode_encodes)
    moreover have "join_segs (PATH_MAX - length (root_base root)) (segments d) = Inl RESOLVE_ILLEGAL"
      using True path_of_segments_le [OF ne] assms(2) by (intro join_segs_dotdot) auto
    ultimately show ?thesis using True ne by (simp add: spec_resolve_def spec_join_def resolve_status_def)
  next
    case False
    have "spec_resolve root path \<noteq> Inr p" for p
    proof
      assume "spec_resolve root path = Inr p"
      then obtain d' where "spec_decode (PATH_MAX - 1) path = Inr d'" "spec_join root PATH_MAX d' = Inr p"
        by (auto simp: spec_resolve_def split: sum.splits if_splits)
      moreover from this have "d' = d"
        using spec_decode_encodes [OF assms(1), of "max (length d) (length d')"]
          spec_decode_encodes [of d' path "max (length d) (length d')"] encodes_spec_decode by fastforce
      ultimately show False using spec_join_Inr(3) assms(2) by blast
    qed
    then obtain r where "spec_resolve root path = Inl r" by (cases "spec_resolve root path") auto
    with False show ?thesis by (auto simp: spec_resolve_def resolve_status_def split: sum.splits if_splits)
  qed
qed


lemma spec_open_cases:
  obtains (missing) "spec_open root fs p fds = (STATIC_FILE_NOT_FOUND, no_file, fds)" "fs_open fs p = None"
  | (refused) fd where "fs_open fs p = Some fd"
      "spec_open root fs p fds = (STATIC_FILE_NOT_FOUND, no_file, insert fd fds - {fd})"
  | (served) fd st_size where "fs_open fs p = Some fd" "fs_fstat fs fd = Some (True, st_size)"
      "fd_contained root fs fd"
      "spec_open root fs p fds =
         (STATIC_FILE_OK, \<lparr>f_fd = fd, f_size = st_size, f_content_type = Some (content_type_for p)\<rparr>,
          insert fd fds)"
proof (cases "fs_open fs p")
  case None
  then show thesis by (intro missing) (simp_all add: spec_open_def)
next
  case (Some fd)
  show thesis
  proof (cases "\<exists>n. fs_fstat fs fd = Some (True, n) \<and> fd_contained root fs fd")
    case True
    then obtain n where "fs_fstat fs fd = Some (True, n)" "fd_contained root fs fd" by blast
    with Some show thesis by (intro served [of fd n]) (simp_all add: spec_open_def)
  next
    case False
    with Some show thesis
      by (intro refused [of fd]) (auto simp: spec_open_def split: option.split bool.split)
  qed
qed

section \<open>Properties\<close>

text \<open>A small file system and document root, for the witnesses.\<close>

definition demo_fs :: fs_view where
  "demo_fs = \<lparr>fs_open = (\<lambda>p. if p = ''/srv/www/a.txt'' then Some 7 else None),
     fs_link = (\<lambda>fd. if fd = 7 then Some ''/srv/www/a.txt'' else None),
     fs_fstat = (\<lambda>fd. Some (True, 12)), fs_realpath = (\<lambda>p. Some ''/srv/www''),
     fs_isdir = (\<lambda>p. Some True), fs_stack = (\<lambda>n k. CHR ''x'')\<rparr>"

definition demo_root :: static_root where
  "demo_root = \<lparr>g_root = (\<lambda>k. if k < 8 then ''/srv/www'' ! k else NUL), g_root_len = 8\<rparr>"

lemma demo_root_wf: "wf_root demo_root"
  by (simp add: wf_root_def demo_root_def cstring_def less_Suc_eq numeral_eq_Suc)

lemma demo_root_of: "root_of demo_root = ''/srv/www''"
  by (simp add: root_of_def demo_root_def array_str_def upt_rec numeral_eq_Suc)

text \<open>
  Documented behaviour of \<^verbatim>\<open>realpath(3)\<close>: a resolved name is a non-empty C string.
\<close>

definition realpath_names :: "fs_view \<Rightarrow> bool" where
  "realpath_names fs \<longleftrightarrow> (\<forall>p r. fs_realpath fs p = Some r \<longrightarrow> r \<noteq> [] \<and> NUL \<notin> set r)"

lemma array_write_root:
  assumes "array_write cap a 0 (r @ [NUL]) = Some a'" "NUL \<notin> set r"
  shows "cstring cap a' (length r) \<and> array_str a' (length r) = r"
  using assms
  by (auto simp: array_write_def cstring_def array_str_def nth_append in_set_conv_nth
      split: if_splits intro!: nth_equalityI)

lemma static_files_init_ok:
  assumes "realpath_names fs"
  shows "\<exists>r g'. static_files_init fs root g = Some (r, g') \<and>
    (r = 0 \<and> wf_root g' \<and> fs_realpath fs root = Some (root_of g') \<and> fs_isdir fs (root_of g') = Some True \<or>
     r = -1 \<and> g' = g)"
proof (cases "fs_realpath fs root")
  case None
  then show ?thesis by (simp add: static_files_init_def)
next
  case (Some r)
  with assms have r: "r \<noteq> []" "NUL \<notin> set r" by (auto simp: realpath_names_def)
  show ?thesis
  proof (cases "fs_isdir fs r = Some True \<and> length r < PATH_MAX")
    case True
    then obtain a where a: "array_write PATH_MAX (g_root g) 0 (r @ [NUL]) = Some a"
      by (auto simp: array_write_def)
    from True Some a r show ?thesis
      using array_write_root [OF a r(2)] by (auto simp: static_files_init_def wf_root_def root_of_def)
  next
    case False
    with Some show ?thesis by (auto simp: static_files_init_def split: option.splits)
  qed
qed

text \<open>
  C16. Percent decoding is exact. \<open>decode_path\<close> succeeds with a string exactly when the
  target is an encoding of that string (any octet as an escape, either case of the digits,
  a query or fragment cut off, no NUL) and the string fits; the output array then holds it
  with its terminator.
\<close>

theorem decode_path_exact:
  assumes "0 < cap"
  shows "(\<exists>out'. decode_path s out cap = Some (RESOLVE_OK, out', length d) \<and>
            array_str out' (length d) = d \<and> out' (length d) = NUL) \<longleftrightarrow>
         encodes d s \<and> length d < cap"
proof -
  have dec: "decoded_as out 0 cap (decode_path s out cap) (spec_decode (cap - 1) s)"
    by (rule decode_path_spec [OF assms])
  show ?thesis
  proof
    assume "encodes d s \<and> length d < cap"
    then have "spec_decode (cap - 1) s = Inr d" by (intro spec_decode_encodes) auto
    with dec show "\<exists>out'. decode_path s out cap = Some (RESOLVE_OK, out', length d) \<and>
        array_str out' (length d) = d \<and> out' (length d) = NUL"
      by (auto simp: decoded_as_def written_def)
  next
    assume "\<exists>out'. decode_path s out cap = Some (RESOLVE_OK, out', length d) \<and>
        array_str out' (length d) = d \<and> out' (length d) = NUL"
    then obtain out' where out': "decode_path s out cap = Some (RESOLVE_OK, out', length d)"
      "array_str out' (length d) = d" by blast
    then obtain d' where d': "spec_decode (cap - 1) s = Inr d'"
      using dec spec_decode_error [of "cap - 1" s]
      by (cases "spec_decode (cap - 1) s") (auto simp: decoded_as_def)
    with dec out' have "d' = d" by (simp add: decoded_as_def written_def)
    with encodes_spec_decode [OF d'] assms show "encodes d s \<and> length d < cap" by auto
  qed
qed

theorem decode_path_exact_witness:
  "(\<exists>out'. decode_path ''/%2E%2e?x'' zeroed 4 = Some (RESOLVE_OK, out', length ''/..'') \<and>
      array_str out' (length ''/..'') = ''/..'' \<and> out' (length ''/..'') = NUL) \<longleftrightarrow>
   encodes ''/..'' ''/%2E%2e?x'' \<and> length ''/..'' < 4"
  by (rule decode_path_exact) simp

text \<open>
  C15. Path resolution implements its specification and is memory safe. For every request
  path, \<open>static_file_open\<close> returns, stays inside its arrays, and gives the verdict of
  \<open>spec_resolve\<close> (decode, join the segments below the root, refuse a trailing slash) and
  \<open>spec_open\<close> (open, containment, regular file).
\<close>

theorem static_open_refines_spec:
  assumes "wf_root g" "NUL \<notin> set path"
  shows "static_file_open g fs path fds =
    Some (case spec_resolve (root_of g) path of
            Inl r \<Rightarrow> (r, no_file, fds) | Inr p \<Rightarrow> spec_open (root_of g) fs p fds)"
  using assms by (rule static_file_open_spec)

theorem static_open_refines_spec_witness:
  "static_file_open demo_root demo_fs ''/./a.txt'' {3} =
    Some (case spec_resolve (root_of demo_root) ''/./a.txt'' of
            Inl r \<Rightarrow> (r, no_file, {3}) | Inr p \<Rightarrow> spec_open (root_of demo_root) demo_fs p {3})"
  by (rule static_open_refines_spec) (simp_all add: demo_root_wf)

text \<open>
  C11. Traversal. If the request path is any encoding of a path with a \<^verbatim>\<open>..\<close> segment,
  nothing is opened: the result is an error, the descriptors are unchanged whatever the file
  system holds; and if the path is absolute and fits, the error is the one answered with 400.
\<close>

theorem static_traversal_refused:
  assumes "wf_root g" "NUL \<notin> set path" "encodes d path" "''..'' \<in> set (segments d)"
  shows "\<exists>r. r \<noteq> STATIC_FILE_OK \<and>
    (hd d = CHR ''/'' \<and> length (root_of g) + length d < PATH_MAX \<longrightarrow> r = STATIC_FILE_INVALID_PATH) \<and>
    (\<forall>fs fds. static_file_open g fs path fds = Some (r, no_file, fds))"
proof -
  obtain r where r: "spec_resolve (root_of g) path = Inl r" "r \<noteq> STATIC_FILE_OK"
    "hd d = CHR ''/'' \<and> length (root_base (root_of g)) + length d < PATH_MAX \<longrightarrow> r = STATIC_FILE_INVALID_PATH"
    using spec_resolve_dotdot [OF assms(3,4), of "root_of g"] by blast
  have "length (root_base (root_of g)) \<le> length (root_of g)" by (simp add: root_base_def)
  with r show ?thesis
    by (intro exI [of _ r]) (auto simp: static_file_open_spec [OF assms(1,2)])
qed

theorem static_traversal_refused_witness:
  "\<exists>r. r \<noteq> STATIC_FILE_OK \<and>
    (hd ''/../x'' = CHR ''/'' \<and> length (root_of demo_root) + length ''/../x'' < PATH_MAX \<longrightarrow>
       r = STATIC_FILE_INVALID_PATH) \<and>
    (\<forall>fs fds. static_file_open demo_root fs ''/%2e%2E/x'' fds = Some (r, no_file, fds))"
proof (rule static_traversal_refused)
  have "spec_decode 100 ''/%2e%2E/x'' = Inr ''/../x''"
    by (simp add: hex_digit_def hex_pair_def char_of_def bit_0)
  then show "encodes ''/../x'' ''/%2e%2E/x''" using encodes_spec_decode by blast
qed (simp_all add: demo_root_wf segments_def)


text \<open>
  C10. What is served. If a file is opened, the path is an encoding of an absolute path that
  names no directory, whose segments (dots and empty ones dropped) are all proper names; the
  descriptor is the one of the root joined with these segments; the name the kernel gives
  for the descriptor lies strictly below the root; the file is regular and its size and
  content type are reported.
\<close>

theorem static_served_inside_root:
  assumes "wf_root g" "NUL \<notin> set path" "static_file_open g fs path fds = Some (STATIC_FILE_OK, f, fds')"
  shows "\<exists>d t. encodes d path \<and> hd d = CHR ''/'' \<and> last d \<noteq> CHR ''/'' \<and>
    list_all clean_segment (real_segments d) \<and>
    fs_open fs (file_name (root_of g) (real_segments d)) = Some (f_fd f) \<and>
    fs_link fs (f_fd f) = Some t \<and> under_root (root_of g) t \<and>
    fs_fstat fs (f_fd f) = Some (True, f_size f) \<and>
    f_content_type f = Some (content_type_for (file_name (root_of g) (real_segments d)))"
proof -
  note eq = static_file_open_spec [OF assms(1,2), of fs fds]
  have "spec_resolve (root_of g) path \<noteq> Inl STATIC_FILE_OK"
    by (auto simp: spec_resolve_def resolve_status_def split: sum.splits if_splits)
  then obtain p where p: "spec_resolve (root_of g) path = Inr p"
    "spec_open (root_of g) fs p fds = (STATIC_FILE_OK, f, fds')"
    using eq assms(3) by (auto split: sum.splits)
  obtain d where d: "encodes d path" "hd d = CHR ''/''" "last d \<noteq> CHR ''/''" "''..'' \<notin> set (segments d)"
    "p = file_name (root_of g) (real_segments d)"
    using spec_resolve_Inr [OF p(1)] by blast
  from p(2) obtain t where "fs_open fs p = Some (f_fd f)" "fs_fstat fs (f_fd f) = Some (True, f_size f)"
    "f_content_type f = Some (content_type_for p)" "fs_link fs (f_fd f) = Some t" "under_root (root_of g) t"
    by (cases rule: spec_open_cases [of "root_of g" fs p fds])
       (auto simp: fd_contained_def split: option.splits)
  with d real_segments_clean [OF d(4)] show ?thesis by blast
qed

text \<open>
  C12. Everything that should be served is. An encoding of an absolute path without parent
  segments and without trailing slash, within the limits, whose file opens, lies below the
  root and is regular, gives exactly this descriptor, with size and content type.
\<close>

theorem static_serves_regular_files:
  assumes "wf_root g" "NUL \<notin> set path" "encodes d path" "length d < PATH_MAX" "d \<noteq> []" "hd d = CHR ''/''"
    "last d \<noteq> CHR ''/''" "''..'' \<notin> set (segments d)"
    "length (root_base (root_of g)) + length (path_of (real_segments d)) < PATH_MAX"
    "fs_open fs (file_name (root_of g) (real_segments d)) = Some fd"
    "fs_link fs fd = Some t" "under_root (root_of g) t" "length t < PATH_MAX - 1"
    "fs_fstat fs fd = Some (True, n)"
  shows "static_file_open g fs path fds =
    Some (STATIC_FILE_OK,
      \<lparr>f_fd = fd, f_size = n,
       f_content_type = Some (content_type_for (file_name (root_of g) (real_segments d)))\<rparr>,
      insert fd fds)"
  using assms(10-14) spec_resolve_fits [OF assms(3-9)]
  by (simp add: static_file_open_spec [OF assms(1,2)] spec_open_def fd_contained_def)

lemma demo_encodes: "encodes ''/./a.txt'' ''/./%61.txt?v=1''"
proof -
  have "spec_decode 100 ''/./%61.txt?v=1'' = Inr ''/./a.txt''"
    by (simp add: hex_digit_def hex_pair_def char_of_def bit_0)
  then show ?thesis using encodes_spec_decode by blast
qed

lemma demo_file_name: "file_name (root_of demo_root) (real_segments ''/./a.txt'') = ''/srv/www/a.txt''"
  by (simp add: file_name_def real_segments_def segments_def demo_root_of root_base_def path_of_def)

theorem static_serves_regular_files_witness:
  "static_file_open demo_root demo_fs ''/./%61.txt?v=1'' {3} =
    Some (STATIC_FILE_OK,
      \<lparr>f_fd = 7, f_size = 12,
       f_content_type = Some (content_type_for (file_name (root_of demo_root) (real_segments ''/./a.txt'')))\<rparr>,
      insert 7 {3})"
proof (rule static_serves_regular_files [OF demo_root_wf _ demo_encodes])
  show "fs_link demo_fs 7 = Some ''/srv/www/a.txt''" by (simp add: demo_fs_def)
  show "fs_open demo_fs (file_name (root_of demo_root) (real_segments ''/./a.txt'')) = Some 7"
    unfolding demo_file_name by (simp add: demo_fs_def)
qed (simp_all add: demo_fs_def under_root_def demo_root_of root_base_def segments_def real_segments_def path_of_def)

theorem static_served_inside_root_witness:
  "\<exists>f fds' d t. static_file_open demo_root demo_fs ''/./%61.txt?v=1'' {3} = Some (STATIC_FILE_OK, f, fds') \<and>
    encodes d ''/./%61.txt?v=1'' \<and> hd d = CHR ''/'' \<and> last d \<noteq> CHR ''/'' \<and>
    list_all clean_segment (real_segments d) \<and>
    fs_open demo_fs (file_name (root_of demo_root) (real_segments d)) = Some (f_fd f) \<and>
    fs_link demo_fs (f_fd f) = Some t \<and> under_root (root_of demo_root) t \<and>
    fs_fstat demo_fs (f_fd f) = Some (True, f_size f) \<and>
    f_content_type f = Some (content_type_for (file_name (root_of demo_root) (real_segments d)))"
proof -
  let ?f = "\<lparr>f_fd = 7, f_size = 12, f_content_type = Some (content_type_for ''/srv/www/a.txt'')\<rparr>"
  have "spec_resolve (root_of demo_root) ''/./%61.txt?v=1'' = Inr ''/srv/www/a.txt''"
    using spec_resolve_fits [OF demo_encodes, of "root_of demo_root"] unfolding demo_file_name
    by (simp add: segments_def real_segments_def path_of_def demo_root_of root_base_def)
  then have "static_file_open demo_root demo_fs ''/./%61.txt?v=1'' {3} = Some (STATIC_FILE_OK, ?f, insert 7 {3})"
    by (simp add: static_file_open_spec [OF demo_root_wf] spec_open_def demo_fs_def fd_contained_def
        under_root_def demo_root_of root_base_def)
  with static_served_inside_root [OF demo_root_wf _ this] show ?thesis by auto
qed

text \<open>
  C13. A refusal discloses nothing. Whenever a path is refused under two file systems, the
  two results are the same: a client cannot tell a file that is absent from one that is
  unreadable, not regular, or reached through a symbolic link out of the root.
\<close>

theorem static_refusal_uniform:
  assumes "wf_root g" "NUL \<notin> set path" "fs_opens_fresh fs fds" "fs_opens_fresh fs' fds"
    "static_file_open g fs path fds = Some (r, f, fds1)" "r \<noteq> STATIC_FILE_OK"
    "static_file_open g fs' path fds = Some (r', f', fds2)" "r' \<noteq> STATIC_FILE_OK"
  shows "(r, f, fds1) = (r', f', fds2)"
proof -
  have refused: "spec_open (root_of g) fs'' p fds = (STATIC_FILE_NOT_FOUND, no_file, fds)"
    if "fs_opens_fresh fs'' fds" "fst (spec_open (root_of g) fs'' p fds) \<noteq> STATIC_FILE_OK" for fs'' p
    using that by (cases rule: spec_open_cases [of "root_of g" fs'' p fds]) (auto simp: fs_opens_fresh_def)
  show ?thesis
  proof (cases "spec_resolve (root_of g) path")
    case (Inl e)
    with assms(5,7) show ?thesis by (simp add: static_file_open_spec [OF assms(1,2)])
  next
    case (Inr p)
    with assms(5-8) have "spec_open (root_of g) fs p fds = (r, f, fds1)"
      "spec_open (root_of g) fs' p fds = (r', f', fds2)"
      by (simp_all add: static_file_open_spec [OF assms(1,2)])
    with refused [OF assms(3), of p] refused [OF assms(4), of p] assms(6,8) show ?thesis by simp
  qed
qed


theorem static_refusal_uniform_witness:
  "(STATIC_FILE_NOT_FOUND, no_file, {3}) = (STATIC_FILE_NOT_FOUND, no_file, {3 :: int}) \<and>
   static_file_open demo_root (demo_fs\<lparr>fs_open := \<lambda>p. None\<rparr>) ''/b'' {3} =
   static_file_open demo_root (demo_fs\<lparr>fs_link := \<lambda>fd. Some ''/etc/passwd''\<rparr>) ''/b'' {3}"
proof -
  have "spec_decode 4095 ''/b'' = Inr ''/b''" by simp
  then have "spec_resolve (root_of demo_root) ''/b'' = Inr ''/srv/www/b''"
    by (simp add: spec_resolve_def spec_join_def demo_root_of root_base_def segments_def)
  then have "static_file_open demo_root (demo_fs\<lparr>fs_open := \<lambda>p. None\<rparr>) ''/b'' {3} =
      Some (STATIC_FILE_NOT_FOUND, no_file, {3})"
    "static_file_open demo_root (demo_fs\<lparr>fs_link := \<lambda>fd. Some ''/etc/passwd''\<rparr>) ''/b'' {3} =
      Some (STATIC_FILE_NOT_FOUND, no_file, {3})"
    by (simp_all add: static_file_open_spec [OF demo_root_wf] spec_open_def demo_fs_def)
  moreover from this have "(STATIC_FILE_NOT_FOUND, no_file, {3}) = (STATIC_FILE_NOT_FOUND, no_file, {3 :: int})"
    by (intro static_refusal_uniform [OF demo_root_wf, of "''/b''" "demo_fs\<lparr>fs_open := \<lambda>p. None\<rparr>" "{3}"
          "demo_fs\<lparr>fs_link := \<lambda>fd. Some ''/etc/passwd''\<rparr>"]) (simp_all add: fs_opens_fresh_def demo_fs_def)
  ultimately show ?thesis by simp
qed

text \<open>
  C14. Descriptors. A refused path leaves the table of open descriptors as it was and hands
  out no descriptor; a served one adds exactly one new descriptor, and
  \<open>static_file_close\<close> gives it back.
\<close>

theorem static_open_no_fd_leak:
  assumes "wf_root g" "NUL \<notin> set path" "fs_opens_fresh fs fds"
    "static_file_open g fs path fds = Some (r, f, fds')"
  shows "if r = STATIC_FILE_OK
    then f_fd f \<notin> fds \<and> 0 \<le> f_fd f \<and> fds' = insert (f_fd f) fds \<and>
         static_file_close f fds' = (f\<lparr>f_fd := -1\<rparr>, fds)
    else f = no_file \<and> fds' = fds \<and> static_file_close f fds' = (f, fds)"
proof -
  have ok: "spec_resolve (root_of g) path \<noteq> Inl STATIC_FILE_OK"
    by (auto simp: spec_resolve_def resolve_status_def split: sum.splits if_splits)
  show ?thesis
  proof (cases "spec_resolve (root_of g) path")
    case (Inl e)
    with ok assms(4) show ?thesis
      by (auto simp: static_file_open_spec [OF assms(1,2)] static_file_close_def no_file_def)
  next
    case (Inr p)
    with assms(4) have "spec_open (root_of g) fs p fds = (r, f, fds')"
      by (simp add: static_file_open_spec [OF assms(1,2)])
    with assms(3) show ?thesis
      by (cases rule: spec_open_cases [of "root_of g" fs p fds])
         (auto simp: static_file_close_def no_file_def fs_opens_fresh_def)
  qed
qed

theorem static_open_no_fd_leak_witness:
  "\<exists>r f fds'. static_file_open demo_root demo_fs ''/./%61.txt?v=1'' {3} = Some (r, f, fds') \<and>
    (if r = STATIC_FILE_OK
     then f_fd f \<notin> {3} \<and> 0 \<le> f_fd f \<and> fds' = insert (f_fd f) {3} \<and>
          static_file_close f fds' = (f\<lparr>f_fd := -1\<rparr>, {3})
     else f = no_file \<and> fds' = {3} \<and> static_file_close f fds' = (f, {3}))"
proof -
  obtain r f fds' where "static_file_open demo_root demo_fs ''/./%61.txt?v=1'' {3} = Some (r, f, fds')"
    using static_file_open_spec [OF demo_root_wf, of "''/./%61.txt?v=1''" demo_fs "{3}"]
    by (auto intro: prod_cases3)
  moreover from this have "if r = STATIC_FILE_OK
     then f_fd f \<notin> {3} \<and> 0 \<le> f_fd f \<and> fds' = insert (f_fd f) {3} \<and>
          static_file_close f fds' = (f\<lparr>f_fd := -1\<rparr>, {3})
     else f = no_file \<and> fds' = {3} \<and> static_file_close f fds' = (f, {3})"
    by (intro static_open_no_fd_leak [OF demo_root_wf]) (simp_all add: fs_opens_fresh_def demo_fs_def)
  ultimately show ?thesis by blast
qed

section \<open>Content types\<close>

lemma strrchr_notin: "c \<notin> set s \<Longrightarrow> strrchr s c = None"
  by (induction s) auto

lemma strrchr_last: "c \<notin> set t \<Longrightarrow> strrchr (s @ c # t) c = Some (c # t)"
  by (induction s) (auto simp: strrchr_notin)

lemma lookup_ext_map_of:
  "\<forall>(e, ty) \<in> set tab. map tolower e = e \<Longrightarrow> lookup_ext tab s = map_of tab (map tolower s)"
  by (induction tab) (auto simp: caseless_eq_def)

lemma content_type_table_lower: "\<forall>(e, ty) \<in> set content_type_table. map tolower e = e"
  by (simp add: content_type_table_def tolower_def)

text \<open>
  The media type of a name, said without the code's table and search: the last component of
  the path, then what follows its last dot, read without regard to case.
\<close>

definition extension :: "string \<Rightarrow> string option" where
  "extension path =
     (let parts = split_on CHR ''.'' (last (split_on CHR ''/'' path))
      in if length parts < 2 then None else Some (last parts))"

definition media_type :: "string option \<Rightarrow> string" where
  "media_type ext =
     (case ext of
        None \<Rightarrow> ''application/octet-stream''
      | Some e \<Rightarrow>
          if e \<in> {''html'', ''htm''} then ''text/html; charset=utf-8''
          else if e = ''txt'' then ''text/plain; charset=utf-8''
          else if e = ''css'' then ''text/css; charset=utf-8''
          else if e = ''js'' then ''text/javascript; charset=utf-8''
          else if e = ''json'' then ''application/json''
          else if e = ''svg'' then ''image/svg+xml''
          else if e = ''png'' then ''image/png''
          else if e \<in> {''jpg'', ''jpeg''} then ''image/jpeg''
          else if e = ''gif'' then ''image/gif''
          else if e = ''ico'' then ''image/vnd.microsoft.icon''
          else ''application/octet-stream'')"

lemma split_on_notin: "c \<notin> set s \<Longrightarrow> split_on c s = [s]"
  by (induction s) auto

lemma last_split_on: "c \<notin> set t \<Longrightarrow> last (split_on c (s @ c # t)) = t \<and> 2 \<le> length (split_on c (s @ c # t))"
proof (induction s)
  case (Cons a s)
  then show ?case by (cases "split_on c (s @ c # t)") auto
qed (simp add: split_on_notin)

lemma strrchr_split_on:
  "strrchr s c = (if length (split_on c s) < 2 then None else Some (c # last (split_on c s)))"
proof (cases "c \<in> set s")
  case True
  then obtain u t where "s = u @ c # t" "c \<notin> set t" by (meson split_list_last)
  then show ?thesis using last_split_on [of c t u] by (simp add: strrchr_last)
qed (simp add: strrchr_notin split_on_notin)

lemma content_type_table_media:
  "(case map_of content_type_table (CHR ''.'' # e) of
      Some ctype \<Rightarrow> ctype | None \<Rightarrow> ''application/octet-stream'') = media_type (Some e)"
  by (simp add: content_type_table_def media_type_def)

lemma last_component: "(case strrchr p CHR ''/'' of Some s \<Rightarrow> tl s | None \<Rightarrow> p) = last (split_on CHR ''/'' p)"
proof (cases "CHR ''/'' \<in> set p")
  case True
  then obtain u t where "p = u @ CHR ''/'' # t" "CHR ''/'' \<notin> set t" by (meson split_list_last)
  then show ?thesis using last_split_on [of "CHR ''/''" t u] by (simp add: strrchr_last)
qed (simp add: strrchr_notin split_on_notin)

text \<open>
  C17. The content type of every path is the media type of its extension: what follows the
  last dot of the last component, in any case; a name without a dot or with another
  extension is \<^verbatim>\<open>application/octet-stream\<close>, also below a directory whose own
  name looks like an extension.
\<close>

theorem content_type_by_extension:
  "content_type_for path = media_type (map_option (map tolower) (extension path))"
proof -
  let ?name = "last (split_on CHR ''/'' path)"
  show ?thesis
    unfolding content_type_for_def Let_def last_component strrchr_split_on [of ?name]
    by (simp add: extension_def media_type_def Let_def lookup_ext_map_of [OF content_type_table_lower]
        content_type_table_media [unfolded media_type_def] tolower_def)
qed

lemma content_type_examples:
  "content_type_for ''/srv/www/a.b.HtMl'' = ''text/html; charset=utf-8''"
  "content_type_for ''/srv/www.html/notes'' = ''application/octet-stream''"
  "content_type_for ''/srv/www.html/notes.txt'' = ''text/plain; charset=utf-8''"
  by code_simp+

end
