(* ===== verification/Response.thy ===== *)
theory Response
  imports Parser_Spec Static_Safety
begin

text \<open>
  Routing and response construction of \<^verbatim>\<open>src/event_loop.c\<close>: which response a parsed
  request gets, and the octets that carry it. The response texts are built in full, as
  \<^verbatim>\<open>snprintf\<close> computes their length, and stored truncated, as it stores them.
\<close>

section \<open>Formatted output\<close>

text \<open>\<^verbatim>\<open>%zu\<close>, and \<^verbatim>\<open>%d\<close> and \<^verbatim>\<open>%jd\<close> for a signed value.\<close>

fun decimal_nat :: "nat \<Rightarrow> string" where
  "decimal_nat n =
     (if n < 10 then [char_of (48 + n)] else decimal_nat (n div 10) @ [char_of (48 + n mod 10)])"

declare decimal_nat.simps [simp del]

definition decimal :: "int \<Rightarrow> string" where
  "decimal i = (if i < 0 then CHR ''-'' # decimal_nat (nat (- i)) else decimal_nat (nat i))"

text \<open>
  \<^verbatim>\<open>snprintf(out, size, ...)\<close> on the formatted text: at most \<open>size - 1\<close> octets and a
  terminator are stored, the untruncated length is returned.
\<close>

definition snprintf :: "nat \<Rightarrow> carray \<Rightarrow> string \<Rightarrow> (carray \<times> nat) option" where
  "snprintf out_size out s =
     (case array_write out_size out 0 (take (out_size - 1) s @ [NUL]) of
        None \<Rightarrow> None | Some out' \<Rightarrow> Some (out', length s))"

section \<open>Routing\<close>

record routed_response =
  resp_status :: int
  resp_reason :: string
  resp_body :: "string option"
  resp_content_type :: "string option"
  resp_extra_header :: "string option"
  resp_file :: static_file

text \<open>\<^verbatim>\<open>memchr(a, c, n)\<close> as an index.\<close>

definition memchr :: "nat \<Rightarrow> carray \<Rightarrow> nat \<Rightarrow> char \<Rightarrow> nat option option" where
  "memchr cap a n c =
     (if n \<le> cap
      then Some (let k = length (takeWhile (\<lambda>d. d \<noteq> c) (array_str a n)) in if k < n then Some k else None)
      else None)"

definition path_is :: "http_request_parser \<Rightarrow> string \<Rightarrow> bool option" where
  "path_is p target =
     do {
       q \<leftarrow> memchr HTTP_PATH_MAX (p_path p) (p_path_len p) CHR ''?'';
       let path_len = (case q of Some k \<Rightarrow> k | None \<Rightarrow> p_path_len p);
       if path_len = length target then array_eq HTTP_PATH_MAX (p_path p) 0 target else Some False
     }"

definition simple_response :: "int \<Rightarrow> string \<Rightarrow> string \<Rightarrow> string option \<Rightarrow> routed_response" where
  "simple_response status reason body extra =
     \<lparr>resp_status = status, resp_reason = reason, resp_body = Some body,
      resp_content_type = Some ''text/plain'', resp_extra_header = extra, resp_file = no_file\<rparr>"

definition method_not_allowed :: routed_response where
  "method_not_allowed =
     simple_response 405 ''Method Not Allowed'' ''Method Not Allowed'' (Some (''Allow: GET'' @ CRLF))"

text \<open>
  The routes thread the set of open descriptors: a file response owns one of them.
\<close>

definition route_static_file ::
  "static_root \<Rightarrow> fs_view \<Rightarrow> int set \<Rightarrow> http_request_parser \<Rightarrow> (routed_response \<times> int set) option" where
  "route_static_file g fs fds p =
     do {
       path \<leftarrow> (if p_path_len p \<le> HTTP_PATH_MAX then Some (array_str (p_path p) (p_path_len p)) else None);
       (res, f, fds1) \<leftarrow> static_file_open g fs path fds;
       (case res of
          STATIC_FILE_INVALID_PATH \<Rightarrow> Some (simple_response 400 ''Bad Request'' ''Bad Request'' None, fds1)
        | STATIC_FILE_NOT_FOUND \<Rightarrow> Some (simple_response 404 ''Not Found'' ''Not Found'' None, fds1)
        | STATIC_FILE_OK \<Rightarrow>
            if p_method_id p \<noteq> HTTP_METHOD_GET
            then let (f', fds2) = static_file_close f fds1 in Some (method_not_allowed, fds2)
            else Some (\<lparr>resp_status = 200, resp_reason = ''OK'', resp_body = None,
                        resp_content_type = f_content_type f, resp_extra_header = None,
                        resp_file = f\<rparr>, fds1))
     }"

definition route_request ::
  "static_root \<Rightarrow> fs_view \<Rightarrow> int set \<Rightarrow> http_request_parser \<Rightarrow> (routed_response \<times> int set) option" where
  "route_request g fs fds p =
     do {
       root \<leftarrow> path_is p ''/'';
       hello \<leftarrow> (if root then Some False else path_is p ''/hello'');
       if root \<or> hello then
         (if p_method_id p \<noteq> HTTP_METHOD_GET then Some (method_not_allowed, fds)
          else do {
            again \<leftarrow> path_is p ''/'';
            if again then Some (simple_response 200 ''OK'' ''Hello from my C server!'' None, fds)
            else Some (simple_response 200 ''OK'' ''Hello, hello!'' None, fds)
          })
       else route_static_file g fs fds p
     }"

section \<open>Response texts\<close>

text \<open>
  The formatted texts. A NULL body or content type would be an invalid argument of
  \<^verbatim>\<open>strlen\<close> and \<^verbatim>\<open>%s\<close>.
\<close>

definition response_text :: "routed_response \<Rightarrow> string \<Rightarrow> int \<Rightarrow> string option" where
  "response_text r conn_value worker_id =
     do {
       body \<leftarrow> resp_body r;
       content_type \<leftarrow> resp_content_type r;
       Some (''HTTP/1.1 '' @ decimal (resp_status r) @ '' '' @ resp_reason r @ CRLF @
             ''Content-Type: '' @ content_type @ CRLF @
             ''Content-Length: '' @ decimal_nat (length body) @ CRLF @
             ''X-Worker: '' @ decimal worker_id @ CRLF @
             (case resp_extra_header r of Some h \<Rightarrow> h | None \<Rightarrow> []) @
             ''Connection: '' @ conn_value @ CRLF @
             CRLF @ body)
     }"

definition file_head_text :: "routed_response \<Rightarrow> string \<Rightarrow> int \<Rightarrow> string option" where
  "file_head_text r conn_value worker_id =
     do {
       content_type \<leftarrow> resp_content_type r;
       Some (''HTTP/1.1 '' @ decimal (resp_status r) @ '' '' @ resp_reason r @ CRLF @
             ''Content-Type: '' @ content_type @ CRLF @
             ''Content-Length: '' @ decimal (f_size (resp_file r)) @ CRLF @
             ''X-Worker: '' @ decimal worker_id @ CRLF @
             ''Connection: '' @ conn_value @ CRLF @
             CRLF)
     }"

definition build_response ::
  "carray \<Rightarrow> nat \<Rightarrow> routed_response \<Rightarrow> string \<Rightarrow> int \<Rightarrow> (carray \<times> nat) option" where
  "build_response out out_size r conn_value worker_id =
     do { s \<leftarrow> response_text r conn_value worker_id; snprintf out_size out s }"

definition build_file_response_head ::
  "carray \<Rightarrow> nat \<Rightarrow> routed_response \<Rightarrow> string \<Rightarrow> int \<Rightarrow> (carray \<times> nat) option" where
  "build_file_response_head out out_size r conn_value worker_id =
     do { s \<leftarrow> file_head_text r conn_value worker_id; snprintf out_size out s }"

section \<open>Numbers\<close>

fun parse_decimal :: "nat \<Rightarrow> string \<Rightarrow> nat" where
  "parse_decimal acc [] = acc"
| "parse_decimal acc (c # cs) = parse_decimal (10 * acc + (byte c - 48)) cs"

definition is_number :: "string \<Rightarrow> bool" where
  "is_number s \<longleftrightarrow> s \<noteq> [] \<and> list_all is_digit s"

lemma parse_decimal_append: "parse_decimal acc (s @ t) = parse_decimal (parse_decimal acc s) t"
  by (induction acc s rule: parse_decimal.induct) auto

lemma parse_decimal_nat [simp]: "parse_decimal 0 (decimal_nat n) = n"
proof (induction n rule: decimal_nat.induct)
  case (1 n)
  then show ?case by (subst decimal_nat.simps) (auto simp: parse_decimal_append)
qed

lemma decimal_nat_is_number: "is_number (decimal_nat n)"
proof (induction n rule: decimal_nat.induct)
  case (1 n)
  then show ?case by (subst decimal_nat.simps) (auto simp: is_number_def is_digit_def)
qed

lemma decimal_nat_length: "n < 10 ^ k \<Longrightarrow> 0 < k \<Longrightarrow> length (decimal_nat n) \<le> k"
proof (induction k arbitrary: n)
  case (Suc k)
  show ?case
  proof (cases "n < 10")
    case False
    then have "0 < k" using Suc.prems by (cases k) auto
    moreover have "n div 10 < 10 ^ k" using Suc.prems by (simp add: less_mult_imp_div_less)
    ultimately show ?thesis using Suc.IH [of "n div 10"] False by (simp add: decimal_nat.simps [of n])
  qed (simp add: decimal_nat.simps [of n])
qed simp

lemma decimal_nonneg: "0 \<le> i \<Longrightarrow> decimal i = decimal_nat (nat i)"
  by (simp add: decimal_def)


lemma decimal_length:
  assumes "\<bar>i\<bar> < 10 ^ k" "0 < k"
  shows "length (decimal i) \<le> Suc k"
proof -
  have bound: "nat j < 10 ^ k" if "0 \<le> j" "j < 10 ^ k" for j :: int
    using that by (metis nat_less_iff of_nat_numeral of_nat_power)
  show ?thesis
    using assms decimal_nat_length [of "nat i" k] decimal_nat_length [of "nat (- i)" k] bound [of i] bound [of "- i"]
    by (auto simp: decimal_def)
qed

section \<open>What a client reads\<close>

text \<open>
  A line ends at the first CRLF; a head is the lines up to the first empty one. These are
  the rules of RFC 7230 for the reader of a response.
\<close>

fun read_line :: "string \<Rightarrow> (string \<times> string) option" where
  "read_line [] = None"
| "read_line (c # s) =
     (if c = CR \<and> s \<noteq> [] \<and> hd s = LF then Some ([], tl s)
      else map_option (\<lambda>(l, r). (c # l, r)) (read_line s))"

lemma read_line_shorter: "read_line s = Some (l, r) \<Longrightarrow> length r < length s"
  by (induction s arbitrary: l) (fastforce split: if_splits)+

function read_head :: "string \<Rightarrow> (string list \<times> string) option" where
  "read_head s =
     (case read_line s of
        None \<Rightarrow> None
      | Some (l, r) \<Rightarrow> if l = [] then Some ([], r) else map_option (\<lambda>(ls, b). (l # ls, b)) (read_head r))"
  by pat_completeness auto
termination
  by (relation "measure length") (auto simp: read_line_shorter)

declare read_head.simps [simp del]

definition field_values :: "string \<Rightarrow> string list \<Rightarrow> string list" where
  "field_values name ls = map (drop (length name + 2)) (filter (prefix (name @ '': '')) ls)"

definition plain_text :: "string \<Rightarrow> bool" where
  "plain_text s \<longleftrightarrow> CR \<notin> set s \<and> LF \<notin> set s"

definition lines_text :: "string list \<Rightarrow> string" where
  "lines_text ls = concat (map (\<lambda>l. l @ CRLF) ls)"

lemma read_line_plain: "CR \<notin> set l \<Longrightarrow> read_line (l @ CRLF @ r) = Some (l, r)"
  by (induction l) auto

lemma read_head_lines:
  "list_all (\<lambda>l. l \<noteq> [] \<and> plain_text l) ls \<Longrightarrow> read_head (lines_text ls @ CRLF @ b) = Some (ls, b)"
proof (induction ls)
  case Nil
  then show ?case by (simp add: lines_text_def read_head.simps [of "CR # LF # b"])
next
  case (Cons l ls)
  let ?r = "lines_text ls @ CRLF @ b"
  have "lines_text (l # ls) @ CRLF @ b = l @ CRLF @ ?r" by (simp add: lines_text_def)
  moreover have "read_line (l @ CRLF @ ?r) = Some (l, ?r)"
    using Cons.prems by (intro read_line_plain) (simp add: plain_text_def)
  ultimately show ?case using Cons by (simp add: read_head.simps [of "l @ CR # LF # lines_text ls @ CR # LF # b"])
qed

lemma plain_decimal_nat: "plain_text (decimal_nat n)"
proof -
  have "\<not> is_digit CR" "\<not> is_digit LF" by (simp_all add: is_digit_def)
  then show ?thesis using decimal_nat_is_number [of n] by (auto simp: plain_text_def is_number_def list_all_iff)
qed

lemma plain_decimal: "plain_text (decimal i)"
  using plain_decimal_nat by (simp add: decimal_def plain_text_def)

lemma plain_append [simp]: "plain_text (s @ t) \<longleftrightarrow> plain_text s \<and> plain_text t"
  by (auto simp: plain_text_def)

section \<open>Well-formed responses\<close>

text \<open>What the routes produce: short plain texts, and either a body or a file.\<close>

definition wf_response :: "routed_response \<Rightarrow> bool" where
  "wf_response r \<longleftrightarrow>
     \<bar>resp_status r\<bar> < 1000 \<and> plain_text (resp_reason r) \<and> length (resp_reason r) \<le> 18 \<and>
     (\<exists>t. resp_content_type r = Some t \<and> plain_text t \<and> length t \<le> 32) \<and>
     (resp_extra_header r = None \<or> resp_extra_header r = Some (''Allow: GET'' @ CRLF)) \<and>
     (if 0 \<le> f_fd (resp_file r)
      then resp_body r = None \<and> resp_extra_header r = None \<and> 0 \<le> f_size (resp_file r) \<and> f_size (resp_file r) < 2 ^ 63
      else \<exists>b. resp_body r = Some b \<and> length b \<le> 23)"

definition response_lines :: "routed_response \<Rightarrow> string \<Rightarrow> string \<Rightarrow> string \<Rightarrow> int \<Rightarrow> string list" where
  "response_lines r content_type content_length conn_value worker_id =
     [''HTTP/1.1 '' @ decimal (resp_status r) @ '' '' @ resp_reason r,
      ''Content-Type: '' @ content_type, ''Content-Length: '' @ content_length,
      ''X-Worker: '' @ decimal worker_id] @
     (case resp_extra_header r of Some h \<Rightarrow> [''Allow: GET''] | None \<Rightarrow> []) @
     [''Connection: '' @ conn_value]"

lemma response_lines_ok:
  assumes "wf_response r" "resp_content_type r = Some t" "plain_text n" "plain_text v"
  shows "list_all (\<lambda>l. l \<noteq> [] \<and> plain_text l) (response_lines r t n v w)"
  using assms plain_decimal by (auto simp: response_lines_def wf_response_def) (simp_all add: plain_text_def)

lemma response_lines_fields:
  "field_values ''Content-Length'' (response_lines r t n v w) = [n]"
  "field_values ''Connection'' (response_lines r t n v w) = [v]"
  "field_values ''Content-Type'' (response_lines r t n v w) = [t]"
  "hd (response_lines r t n v w) = ''HTTP/1.1 '' @ decimal (resp_status r) @ '' '' @ resp_reason r"
  by (simp_all add: field_values_def response_lines_def split: option.split)

lemma response_text_lines:
  assumes "wf_response r" "resp_content_type r = Some t" "resp_body r = Some b"
  shows "response_text r v w = Some (lines_text (response_lines r t (decimal_nat (length b)) v w) @ CRLF @ b)"
  using assms by (auto simp: response_text_def response_lines_def lines_text_def wf_response_def split: option.splits)

lemma file_head_lines:
  assumes "wf_response r" "resp_content_type r = Some t" "0 \<le> f_fd (resp_file r)"
  shows "file_head_text r v w = Some (lines_text (response_lines r t (decimal (f_size (resp_file r))) v w) @ CRLF)"
  using assms by (auto simp: file_head_text_def response_lines_def lines_text_def wf_response_def split: option.splits)

lemma response_lines_length:
  assumes "wf_response r" "resp_content_type r = Some t" "length v \<le> 10" "length n \<le> 20" "\<bar>w\<bar> < 2 ^ 31"
  shows "length (lines_text (response_lines r t n v w)) \<le> 216"
proof -
  have "length (decimal (resp_status r)) \<le> 4" "length (decimal w) \<le> 11"
    using decimal_length [of "resp_status r" 3] decimal_length [of w 10] assms(1,5)
    by (auto simp: wf_response_def)
  with assms show ?thesis
    by (auto simp: response_lines_def lines_text_def wf_response_def split: option.splits)
qed


section \<open>Routing, over strings\<close>

definition request_path :: "http_request_parser \<Rightarrow> string" where
  "request_path p = array_str (p_path p) (p_path_len p)"

definition route_path :: "http_request_parser \<Rightarrow> string" where
  "route_path p = takeWhile (\<lambda>c. c \<noteq> CHR ''?'') (request_path p)"

lemma wf_parser_path:
  assumes "wf_parser p"
  shows "p_path_len p < HTTP_PATH_MAX" "NUL \<notin> set (request_path p)"
  using assms by (force simp: wf_parser_def cstring_def request_path_def array_str_def)+

lemma path_is_spec:
  assumes "wf_parser p" "length target \<le> HTTP_PATH_MAX"
  shows "path_is p target = Some (route_path p = target)"
proof -
  let ?s = "request_path p" and ?t = "route_path p"
  have n: "p_path_len p \<le> HTTP_PATH_MAX" "length ?s = p_path_len p"
    using wf_parser_path(1) [OF assms(1)] by (simp_all add: request_path_def)
  have le: "length ?t \<le> p_path_len p" using length_takeWhile_le [of _ ?s] n(2) unfolding route_path_def by simp
  have pre: "array_str (p_path p) (length ?t) = ?t"
    using takeWhile_eq_take [of "\<lambda>c. c \<noteq> CHR ''?''" ?s] le
    by (simp add: route_path_def request_path_def flip: take_array_str [OF le])
       (simp add: take_array_str request_path_def route_path_def)
  have eq: "array_eq HTTP_PATH_MAX (p_path p) 0 target = Some (array_str (p_path p) (length target) = target)"
    using assms(2) by (simp add: array_eq_in array_str_def)
  have "length ?t = length target \<Longrightarrow> array_str (p_path p) (length target) = target \<longleftrightarrow> ?t = target"
    using pre by simp
  moreover have "?t = target \<Longrightarrow> length ?t = length target" by simp
  ultimately show ?thesis
    using n le eq by (auto simp: path_is_def memchr_def Let_def route_path_def request_path_def)
qed

definition static_route :: "http_request_parser \<Rightarrow> static_file_result \<times> static_file \<times> int set \<Rightarrow> routed_response \<times> int set" where
  "static_route p = (\<lambda>(res, f, fds).
     case res of
       STATIC_FILE_INVALID_PATH \<Rightarrow> (simple_response 400 ''Bad Request'' ''Bad Request'' None, fds)
     | STATIC_FILE_NOT_FOUND \<Rightarrow> (simple_response 404 ''Not Found'' ''Not Found'' None, fds)
     | STATIC_FILE_OK \<Rightarrow>
         if p_method_id p = HTTP_METHOD_GET
         then (\<lparr>resp_status = 200, resp_reason = ''OK'', resp_body = None, resp_content_type = f_content_type f,
                resp_extra_header = None, resp_file = f\<rparr>, fds)
         else (method_not_allowed, snd (static_file_close f fds)))"

definition builtin_route :: "http_request_parser \<Rightarrow> string \<Rightarrow> routed_response" where
  "builtin_route p body =
     (if p_method_id p = HTTP_METHOD_GET then simple_response 200 ''OK'' body None else method_not_allowed)"

lemma route_request_spec:
  assumes "wf_parser p"
  shows "route_request g fs fds p =
    (if route_path p = ''/'' then Some (builtin_route p ''Hello from my C server!'', fds)
     else if route_path p = ''/hello'' then Some (builtin_route p ''Hello, hello!'', fds)
     else map_option (static_route p) (static_file_open g fs (request_path p) fds))"
proof -
  have st: "route_static_file g fs fds p = map_option (static_route p) (static_file_open g fs (request_path p) fds)"
    using wf_parser_path(1) [OF assms]
    by (cases "static_file_open g fs (request_path p) fds")
       (auto simp: route_static_file_def static_route_def request_path_def split: static_file_result.split prod.split)
  have "route_path p \<noteq> ''/'' \<or> route_path p \<noteq> ''/hello''" by auto
  with st show ?thesis
    by (auto simp: route_request_def path_is_spec [OF assms] builtin_route_def)
qed


lemma lookup_ext_range: "lookup_ext tab s = Some t \<Longrightarrow> t \<in> snd ` set tab"
  by (induction tab s rule: lookup_ext.induct) (auto split: if_splits)

lemma content_type_ok: "plain_text (content_type_for n) \<and> length (content_type_for n) \<le> 32"
proof -
  have "content_type_for n \<in> insert ''application/octet-stream'' (snd ` set content_type_table)"
    by (auto simp: content_type_for_def Let_def split: option.split dest: lookup_ext_range)
  then show ?thesis by (auto simp: content_type_table_def plain_text_def)
qed

lemma wf_simple_response:
  "\<bar>status\<bar> < 1000 \<Longrightarrow> plain_text reason \<Longrightarrow> length reason \<le> 18 \<Longrightarrow> length body \<le> 23 \<Longrightarrow>
   wf_response (simple_response status reason body None)"
  by (simp add: wf_response_def simple_response_def no_file_def plain_text_def)

lemma wf_method_not_allowed: "wf_response method_not_allowed"
  by (simp add: wf_response_def method_not_allowed_def simple_response_def no_file_def plain_text_def)

lemma wf_builtin_route: "length body \<le> 23 \<Longrightarrow> wf_response (builtin_route p body)"
  by (simp add: builtin_route_def wf_method_not_allowed wf_simple_response plain_text_def)

lemma wf_file_response:
  "0 \<le> fd \<Longrightarrow> 0 \<le> n \<Longrightarrow> n < 2 ^ 63 \<Longrightarrow>
   wf_response \<lparr>resp_status = 200, resp_reason = ''OK'', resp_body = None,
     resp_content_type = Some (content_type_for name), resp_extra_header = None,
     resp_file = \<lparr>f_fd = fd, f_size = n, f_content_type = Some (content_type_for name)\<rparr>\<rparr>"
  using content_type_ok [of name] by (simp add: wf_response_def plain_text_def)

lemma resp_file_simple [simp]: "resp_file (simple_response s r b e) = no_file"
  "resp_file method_not_allowed = no_file" "resp_file (builtin_route p body) = no_file"
  by (simp_all add: simple_response_def method_not_allowed_def builtin_route_def)

lemma f_fd_no_file [simp]: "f_fd no_file = -1"
  by (simp add: no_file_def)

text \<open>
  Documented behaviour of \<^verbatim>\<open>fstat(2)\<close>: the size of a file is an
  \<^verbatim>\<open>off_t\<close>, a non-negative 64-bit number.
\<close>

definition fs_sizes :: "fs_view \<Rightarrow> bool" where
  "fs_sizes fs \<longleftrightarrow> (\<forall>fd regular n. fs_fstat fs fd = Some (regular, n) \<longrightarrow> 0 \<le> n \<and> n < 2 ^ 63)"

text \<open>The descriptor a response owns.\<close>

definition file_fds :: "static_file \<Rightarrow> int set" where
  "file_fds f = (if 0 \<le> f_fd f then {f_fd f} else {})"

lemma spec_open_outcome:
  assumes "fs_opens_fresh fs fds"
  obtains "spec_open root fs p fds = (STATIC_FILE_NOT_FOUND, no_file, fds)"
  | fd n where "fd \<notin> fds" "0 \<le> fd" "fs_fstat fs fd = Some (True, n)"
      "spec_open root fs p fds =
         (STATIC_FILE_OK, \<lparr>f_fd = fd, f_size = n, f_content_type = Some (content_type_for p)\<rparr>, insert fd fds)"
  by (cases rule: spec_open_cases [of root fs p fds]) (use assms in \<open>auto simp: fs_opens_fresh_def\<close>)

lemma spec_resolve_not_ok: "spec_resolve root path \<noteq> Inl STATIC_FILE_OK"
  by (auto simp: spec_resolve_def resolve_status_def split: sum.splits if_splits)

lemma route_request_ok:
  assumes "wf_parser p" "wf_root g" "fs_opens_fresh fs fds" "fs_sizes fs"
  shows "\<exists>r. route_request g fs fds p = Some (r, fds \<union> file_fds (resp_file r)) \<and> wf_response r \<and>
    file_fds (resp_file r) \<inter> fds = {}"
proof (cases "route_path p = ''/'' \<or> route_path p = ''/hello''")
  case True
  then show ?thesis
    by (auto simp: route_request_spec [OF assms(1)] wf_builtin_route file_fds_def)
next
  case False
  note eq = static_file_open_spec [OF assms(2) wf_parser_path(2) [OF assms(1)], of fs fds]
  have bad: "wf_response (simple_response 400 ''Bad Request'' ''Bad Request'' None)"
    "wf_response (simple_response 404 ''Not Found'' ''Not Found'' None)"
    by (simp_all add: wf_simple_response plain_text_def)
  show ?thesis
  proof (cases "spec_resolve (root_of g) (request_path p)")
    case (Inl e)
    with False eq bad spec_resolve_not_ok [of "root_of g" "request_path p"] show ?thesis
      by (cases e) (auto simp: route_request_spec [OF assms(1)] static_route_def file_fds_def)
  next
    case (Inr name)
    show ?thesis
    proof (cases rule: spec_open_outcome [OF assms(3), of "root_of g" name])
      case 1
      with False eq Inr bad show ?thesis
        by (auto simp: route_request_spec [OF assms(1)] static_route_def file_fds_def)
    next
      case (2 fd n)
      from 2(3) assms(4) have "0 \<le> n" "n < 2 ^ 63" unfolding fs_sizes_def by blast+
      with False eq Inr 2 show ?thesis
        by (auto simp: route_request_spec [OF assms(1)] static_route_def file_fds_def static_file_close_def
            wf_method_not_allowed wf_file_response)
    qed
  qed
qed


section \<open>Properties\<close>

text \<open>
  C23. Routing. The two built-in routes answer a GET with their greeting and any other method
  with 405, whatever the query string; every other path is looked up below the document
  root, an existing file answers 200 to GET and 405 otherwise (its descriptor given back),
  and a missing or illegal path answers 404 or 400 whatever the method.
\<close>

theorem route_request_behaviour:
  assumes "wf_parser p" "wf_root g"
  shows "\<exists>res. static_file_open g fs (request_path p) fds = Some res \<and>
    route_request g fs fds p =
      Some (if route_path p = ''/'' then (builtin_route p ''Hello from my C server!'', fds)
            else if route_path p = ''/hello'' then (builtin_route p ''Hello, hello!'', fds)
            else static_route p res)"
  using static_file_open_spec [OF assms(2) wf_parser_path(2) [OF assms(1)], of fs fds]
  by (simp add: route_request_spec [OF assms(1)])

theorem route_request_behaviour_witness:
  "\<exists>res. static_file_open demo_root demo_fs (request_path http_parser_init) {3} = Some res \<and>
    route_request demo_root demo_fs {3} http_parser_init =
      Some (if route_path http_parser_init = ''/''
              then (builtin_route http_parser_init ''Hello from my C server!'', {3})
            else if route_path http_parser_init = ''/hello''
              then (builtin_route http_parser_init ''Hello, hello!'', {3})
            else static_route http_parser_init res)"
  by (rule route_request_behaviour [OF wf_parser_init demo_root_wf])

text \<open>
  C21. Framing of a response with a body. A client that reads lines up to the first empty one
  finds the status line, exactly one \<^verbatim>\<open>Content-Length\<close> field, whose value is the
  number of octets that follow, and exactly one \<^verbatim>\<open>Connection\<close> field; what
  follows is the body.
\<close>

theorem response_framing:
  assumes "wf_response r" "f_fd (resp_file r) < 0" "plain_text v"
  shows "\<exists>s ls body. response_text r v w = Some s \<and> read_head s = Some (ls, body) \<and> resp_body r = Some body \<and>
    hd ls = ''HTTP/1.1 '' @ decimal (resp_status r) @ '' '' @ resp_reason r \<and>
    field_values ''Connection'' ls = [v] \<and>
    (\<exists>n. field_values ''Content-Length'' ls = [n] \<and> is_number n \<and> parse_decimal 0 n = length body)"
proof -
  from assms obtain t b where tb: "resp_content_type r = Some t" "resp_body r = Some b"
    by (auto simp: wf_response_def split: if_splits)
  let ?ls = "response_lines r t (decimal_nat (length b)) v w"
  have "read_head (lines_text ?ls @ CRLF @ b) = Some (?ls, b)"
    by (intro read_head_lines response_lines_ok assms tb plain_decimal_nat)
  then show ?thesis
    using tb response_text_lines [OF assms(1) tb, of v w] response_lines_fields decimal_nat_is_number by auto
qed

theorem response_framing_witness:
  "\<exists>s ls body. response_text method_not_allowed ''close'' 3 = Some s \<and> read_head s = Some (ls, body) \<and>
    resp_body method_not_allowed = Some body \<and>
    hd ls = ''HTTP/1.1 '' @ decimal (resp_status method_not_allowed) @ '' '' @ resp_reason method_not_allowed \<and>
    field_values ''Connection'' ls = [''close''] \<and>
    (\<exists>n. field_values ''Content-Length'' ls = [n] \<and> is_number n \<and> parse_decimal 0 n = length body)"
  by (rule response_framing) (simp_all add: wf_method_not_allowed plain_text_def)

text \<open>
  C22. Framing of a file response. The head is complete (nothing follows its empty line) and
  its single \<^verbatim>\<open>Content-Length\<close> field is the size of the file.
\<close>

theorem file_response_framing:
  assumes "wf_response r" "0 \<le> f_fd (resp_file r)" "plain_text v"
  shows "\<exists>s ls. file_head_text r v w = Some s \<and> read_head s = Some (ls, []) \<and>
    hd ls = ''HTTP/1.1 '' @ decimal (resp_status r) @ '' '' @ resp_reason r \<and>
    field_values ''Connection'' ls = [v] \<and>
    (\<exists>n. field_values ''Content-Length'' ls = [n] \<and> is_number n \<and> int (parse_decimal 0 n) = f_size (resp_file r))"
proof -
  from assms obtain t where t: "resp_content_type r = Some t" by (auto simp: wf_response_def)
  have n: "0 \<le> f_size (resp_file r)" using assms(1,2) by (simp add: wf_response_def)
  let ?ls = "response_lines r t (decimal (f_size (resp_file r))) v w"
  have "read_head (lines_text ?ls @ CRLF @ []) = Some (?ls, [])"
    by (intro read_head_lines response_lines_ok assms t plain_decimal)
  then show ?thesis
    using file_head_lines [OF assms(1) t assms(2), of v w] response_lines_fields n decimal_nat_is_number
    by (auto simp: decimal_nonneg)
qed

theorem file_response_framing_witness:
  "\<exists>s ls. file_head_text
      \<lparr>resp_status = 200, resp_reason = ''OK'', resp_body = None,
       resp_content_type = Some (content_type_for ''/a.txt''), resp_extra_header = None,
       resp_file = \<lparr>f_fd = 7, f_size = 12, f_content_type = Some (content_type_for ''/a.txt'')\<rparr>\<rparr>
      ''close'' 3 = Some s \<and> read_head s = Some (ls, []) \<and>
    hd ls = ''HTTP/1.1 '' @ decimal 200 @ '' '' @ ''OK'' \<and> field_values ''Connection'' ls = [''close''] \<and>
    (\<exists>n. field_values ''Content-Length'' ls = [n] \<and> is_number n \<and> int (parse_decimal 0 n) = 12)"
  using file_response_framing [OF wf_file_response [of 7 12 "''/a.txt''"], of "''close''" 3]
  by (simp add: plain_text_def)

end
