(* ===== verification/Kernel.thy ===== *)
theory Kernel
  imports Static_Files
begin

text \<open>
  The operating system as the event loop sees it. Every answer the kernel may choose is a
  part of the state \<open>kernel\<close>: one queue of answers per system call, which the model of the
  call consumes. An empty queue stands for a call that would block. What the kernel
  guarantees is built into the calls: it never transfers more than it was asked to,
  \<^verbatim>\<open>accept4\<close> and \<^verbatim>\<open>open\<close> return descriptors that are not in use, and
  \<^verbatim>\<open>malloc\<close> returns no block that is in use.
\<close>

datatype errno = EINTR | EAGAIN | ECONNABORTED | EOTHER

text \<open>The outcome of a transfer: a number of octets (0 is end of file), or an error.\<close>

datatype io = Count nat | Error errno

datatype read_answer = Data string | Read_error errno

datatype accept_answer = Accepted int | Accept_error errno

record kernel =
  k_writes :: "io list"
  k_sendfiles :: "io list"
  k_reads :: "read_answer list"
  k_accepts :: "accept_answer list"
  k_mallocs :: "nat option list"
  k_ctls :: "bool list"
  k_times :: "int list"
  k_now :: int
  k_files :: "(fs_view \<times> string) list"
  k_seen :: "(fs_view \<times> string) list"
  k_content :: "int \<Rightarrow> string"
  k_fds :: "int set"
  k_wire :: "int \<Rightarrow> string"

text \<open>\<^verbatim>\<open>close\<close>.\<close>

definition sys_close :: "int \<Rightarrow> kernel \<Rightarrow> kernel" where
  "sys_close fd k = k\<lparr>k_fds := k_fds k - {fd}\<rparr>"

text \<open>
  \<^verbatim>\<open>write(fd, data)\<close>: the octets that were accepted appear on the wire.
\<close>

definition sys_write :: "int \<Rightarrow> string \<Rightarrow> kernel \<Rightarrow> io \<times> kernel" where
  "sys_write fd data k =
     (case k_writes k of
        [] \<Rightarrow> (Error EAGAIN, k)
      | Error e # q \<Rightarrow> (Error e, k\<lparr>k_writes := q\<rparr>)
      | Count n # q \<Rightarrow>
          (Count (min n (length data)),
           k\<lparr>k_writes := q, k_wire := (k_wire k)(fd := k_wire k fd @ take n data)\<rparr>))"

text \<open>
  \<^verbatim>\<open>sendfile(fd, in, offset, count)\<close>: octets of the file behind \<open>in\<close>, from the offset
  on, appear on the wire; at the end of the file the answer is 0. The caller's offset is
  advanced by the answer.
\<close>

definition sys_sendfile :: "int \<Rightarrow> int \<Rightarrow> nat \<Rightarrow> nat \<Rightarrow> kernel \<Rightarrow> io \<times> kernel" where
  "sys_sendfile fd in_fd offset count k =
     (case k_sendfiles k of
        [] \<Rightarrow> (Error EAGAIN, k)
      | Error e # q \<Rightarrow> (Error e, k\<lparr>k_sendfiles := q\<rparr>)
      | Count n # q \<Rightarrow>
          let data = take (min n count) (drop offset (k_content k in_fd))
          in (Count (length data),
              k\<lparr>k_sendfiles := q, k_wire := (k_wire k)(fd := k_wire k fd @ data)\<rparr>))"

text \<open>\<^verbatim>\<open>read(fd, buf, count)\<close>; end of file is the empty string.\<close>

definition sys_read :: "nat \<Rightarrow> kernel \<Rightarrow> read_answer \<times> kernel" where
  "sys_read count k =
     (case k_reads k of
        [] \<Rightarrow> (Read_error EAGAIN, k)
      | Read_error e # q \<Rightarrow> (Read_error e, k\<lparr>k_reads := q\<rparr>)
      | Data s # q \<Rightarrow> (Data (take count s), k\<lparr>k_reads := q\<rparr>))"

text \<open>
  \<^verbatim>\<open>accept4\<close>: a new connection has an unused descriptor and nothing on its wire.
\<close>

definition sys_accept :: "kernel \<Rightarrow> accept_answer \<times> kernel" where
  "sys_accept k =
     (case k_accepts k of
        [] \<Rightarrow> (Accept_error EAGAIN, k)
      | Accept_error e # q \<Rightarrow> (Accept_error e, k\<lparr>k_accepts := q\<rparr>)
      | Accepted fd # q \<Rightarrow>
          if 0 \<le> fd \<and> fd \<notin> k_fds k
          then (Accepted fd, k\<lparr>k_accepts := q, k_fds := insert fd (k_fds k), k_wire := (k_wire k)(fd := [])\<rparr>)
          else (Accept_error EOTHER, k\<lparr>k_accepts := q\<rparr>))"

text \<open>\<^verbatim>\<open>epoll_ctl\<close> on a connection: whether it succeeded.\<close>

definition sys_epoll_ctl :: "kernel \<Rightarrow> bool \<times> kernel" where
  "sys_epoll_ctl k = (case k_ctls k of [] \<Rightarrow> (True, k) | b # q \<Rightarrow> (b, k\<lparr>k_ctls := q\<rparr>))"

text \<open>\<^verbatim>\<open>time(NULL)\<close>.\<close>

definition sys_time :: "kernel \<Rightarrow> int \<times> kernel" where
  "sys_time k = (case k_times k of [] \<Rightarrow> (k_now k, k) | t # q \<Rightarrow> (t, k\<lparr>k_times := q, k_now := t\<rparr>))"

text \<open>
  The view of the file system during one look-up, with the content of the file that may be
  opened. Descriptors handed out by \<^verbatim>\<open>open\<close> are unused. \<open>k_seen\<close> is the log
  of the look-ups: what the file system showed at each of them, the last one at the end.
  No definition reads it; it lets a property say which file system an answer was taken from.
\<close>

definition fresh_view :: "int set \<Rightarrow> fs_view \<Rightarrow> fs_view" where
  "fresh_view fds fs =
     fs\<lparr>fs_open := (\<lambda>p. case fs_open fs p of
        None \<Rightarrow> None | Some fd \<Rightarrow> if 0 \<le> fd \<and> fd \<notin> fds then Some fd else None),
        fs_fstat := (\<lambda>fd. case fs_fstat fs fd of
          None \<Rightarrow> None
        | Some (regular, n) \<Rightarrow> if 0 \<le> n \<and> n < 2 ^ 63 then Some (regular, n) else None)\<rparr>"

definition no_files :: fs_view where
  "no_files = \<lparr>fs_open = (\<lambda>p. None), fs_link = (\<lambda>fd. None), fs_fstat = (\<lambda>fd. None),
     fs_realpath = (\<lambda>p. None), fs_isdir = (\<lambda>p. None),
     fs_stack = (\<lambda>n k. NUL)\<rparr>"

definition sys_files :: "kernel \<Rightarrow> (fs_view \<times> string) \<times> kernel" where
  "sys_files k =
     (case k_files k of
        [] \<Rightarrow> ((no_files, []), k\<lparr>k_seen := k_seen k @ [(no_files, [])]\<rparr>)
      | (fs, content) # q \<Rightarrow>
          ((fresh_view (k_fds k) fs, content),
           k\<lparr>k_files := q, k_seen := k_seen k @ [(fresh_view (k_fds k) fs, content)]\<rparr>))"

lemma sys_files_seen: "sys_files k = (v, k') \<Longrightarrow> k_seen k' = k_seen k @ [v]"
  by (auto simp: sys_files_def split: list.splits)

lemma fresh_view_opens_fresh: "fs_opens_fresh (fresh_view fds fs) fds"
  by (auto simp: fs_opens_fresh_def fresh_view_def split: option.splits if_splits)

lemma no_files_opens_fresh: "fs_opens_fresh no_files fds"
  by (simp add: fs_opens_fresh_def no_files_def)

end
