(* ===== verification/Connection.thy ===== *)
theory Connection
  imports Response Kernel
begin

text \<open>
  One connection of \<^verbatim>\<open>src/event_loop.c\<close>: its record, the preparation of a response in
  its write buffer, and the two sending loops, which stop when the socket would block and
  are resumed later.
\<close>

abbreviation READ_CHUNK_SIZE :: nat where "READ_CHUNK_SIZE \<equiv> 4096"
abbreviation RESPONSE_BUF_SIZE :: nat where "RESPONSE_BUF_SIZE \<equiv> 512"
abbreviation SENDFILE_MAX_CHUNK :: int where "SENDFILE_MAX_CHUNK \<equiv> 0x7ffff000"

text \<open>Pointers to connections; \<open>None\<close> is NULL.\<close>

type_synonym ptr = "nat option"

record connection =
  c_fd :: int
  c_parser :: http_request_parser
  c_prev :: ptr
  c_next :: ptr
  c_write_buf :: carray
  c_write_len :: nat
  c_write_sent :: nat
  c_keep_alive_after_write :: bool
  c_awaiting_writable :: bool
  c_file_fd :: int
  c_file_offset :: int
  c_file_size :: int
  c_pending_input :: carray
  c_pending_input_len :: nat
  c_last_activity :: int

section \<open>Releasing the file\<close>

definition release_file_body :: "connection \<Rightarrow> kernel \<Rightarrow> connection \<times> kernel" where
  "release_file_body c k =
     (let k' = (if c_file_fd c \<ge> 0 then sys_close (c_file_fd c) k else k);
          c' = (if c_file_fd c \<ge> 0 then c\<lparr>c_file_fd := -1\<rparr> else c)
      in (c'\<lparr>c_file_offset := 0, c_file_size := 0\<rparr>, k'))"

section \<open>Sending\<close>

text \<open>
  The result of a sending loop: sent completely, blocked, or failed for good (the pairs of
  return value and \<^verbatim>\<open>*closed\<close> the code uses).
\<close>

datatype flush_result = Flushed | Blocked | Failed

text \<open>
  The loops end because every turn uses up an answer of the kernel; with no answer left the
  socket would block. The octets of a \<^verbatim>\<open>write\<close> must lie in the buffer.
\<close>

function try_flush_write_buffer :: "connection \<Rightarrow> kernel \<Rightarrow> (flush_result \<times> connection \<times> kernel) option" where
  "try_flush_write_buffer c k =
     (if c_write_sent c < c_write_len c then
        (if c_write_len c \<le> RESPONSE_BUF_SIZE then
           let data = drop (c_write_sent c) (array_str (c_write_buf c) (c_write_len c));
               (ans, k') = sys_write (c_fd c) data k
           in (case ans of
                 Count n \<Rightarrow>
                   if n > 0 then try_flush_write_buffer (c\<lparr>c_write_sent := c_write_sent c + n\<rparr>) k'
                   else Some (Failed, c, k')
               | Error e \<Rightarrow>
                   if e = EINTR then try_flush_write_buffer c k'
                   else if e = EAGAIN then Some (Blocked, c, k')
                   else Some (Failed, c, k'))
         else None)
      else Some (Flushed, c, k))"
  by pat_completeness auto
termination
  by (relation "measure (\<lambda>(c, k). length (k_writes k))")
     (auto simp: sys_write_def split: io.splits list.splits)

declare try_flush_write_buffer.simps [simp del]

function try_sendfile_body :: "connection \<Rightarrow> kernel \<Rightarrow> flush_result \<times> connection \<times> kernel" where
  "try_sendfile_body c k =
     (if c_file_offset c < c_file_size c then
        let remaining = c_file_size c - c_file_offset c;
            count = (if remaining > SENDFILE_MAX_CHUNK then SENDFILE_MAX_CHUNK else remaining);
            (ans, k') = sys_sendfile (c_fd c) (c_file_fd c) (nat (c_file_offset c)) (nat count) k
        in (case ans of
              Count n \<Rightarrow>
                if n > 0 then try_sendfile_body (c\<lparr>c_file_offset := c_file_offset c + int n\<rparr>) k'
                else (Failed, c, k')
            | Error e \<Rightarrow>
                if e = EINTR then try_sendfile_body c k'
                else if e = EAGAIN then (Blocked, c, k')
                else (Failed, c, k'))
      else (Flushed, c, k))"
  by pat_completeness auto
termination
  by (relation "measure (\<lambda>(c, k). length (k_sendfiles k))")
     (auto simp: sys_sendfile_def Let_def split: io.splits list.splits)

declare try_sendfile_body.simps [simp del]

definition try_flush_response :: "connection \<Rightarrow> kernel \<Rightarrow> (flush_result \<times> connection \<times> kernel) option" where
  "try_flush_response c k =
     do {
       (res, c1, k1) \<leftarrow> try_flush_write_buffer c k;
       if res \<noteq> Flushed then Some (res, c1, k1)
       else if c_file_fd c1 < 0 then Some (Flushed, c1, k1)
       else Some (try_sendfile_body c1 k1)
     }"

section \<open>Preparing a response\<close>

definition set_write_buffer :: "connection \<Rightarrow> int \<Rightarrow> bool \<times> connection" where
  "set_write_buffer c n =
     (if n < 0 \<or> nat n \<ge> RESPONSE_BUF_SIZE then (False, c)
      else (True, c\<lparr>c_write_len := nat n, c_write_sent := 0\<rparr>))"

definition internal_error :: string where
  "internal_error =
     ''HTTP/1.1 500 Internal Server Error'' @ CRLF @ ''Content-Type: text/plain'' @ CRLF @
     ''Content-Length: 21'' @ CRLF @ ''Connection: close'' @ CRLF @ CRLF @ ''Internal Server Error''"

definition prepare_response ::
  "connection \<Rightarrow> routed_response \<Rightarrow> bool \<Rightarrow> int \<Rightarrow> kernel \<Rightarrow> (connection \<times> kernel) option" where
  "prepare_response c r keep_alive worker_id k =
     (let c0 = c\<lparr>c_keep_alive_after_write := keep_alive\<rparr>;
          conn_value = (if keep_alive then ''keep-alive'' else ''close'')
      in do {
           (buf, n) \<leftarrow>
             (if f_fd (resp_file r) \<ge> 0
              then build_file_response_head (c_write_buf c0) RESPONSE_BUF_SIZE r conn_value worker_id
              else build_response (c_write_buf c0) RESPONSE_BUF_SIZE r conn_value worker_id);
           let (ok, c1) = set_write_buffer (c0\<lparr>c_write_buf := buf\<rparr>) (int n);
           if \<not> ok then
             do {
               buf2 \<leftarrow> array_write RESPONSE_BUF_SIZE (c_write_buf c1) 0 internal_error;
               Some (c1\<lparr>c_write_buf := buf2, c_write_len := length internal_error, c_write_sent := 0,
                        c_keep_alive_after_write := False\<rparr>,
                     k\<lparr>k_fds := snd (static_file_close (resp_file r) (k_fds k))\<rparr>)
             }
           else Some (if f_fd (resp_file r) \<ge> 0
                      then c1\<lparr>c_file_fd := f_fd (resp_file r), c_file_offset := 0,
                              c_file_size := f_size (resp_file r)\<rparr>
                      else c1, k)
         })"

text \<open>
  \<^verbatim>\<open>stash_pending_input\<close>: the octets are kept for later. \<^verbatim>\<open>memmove\<close>
  copies correctly when they come from the same array.
\<close>

definition stash_pending_input :: "connection \<Rightarrow> string \<Rightarrow> connection option" where
  "stash_pending_input c data =
     do {
       buf \<leftarrow> array_write READ_CHUNK_SIZE (c_pending_input c) 0 data;
       Some (c\<lparr>c_pending_input := buf, c_pending_input_len := length data\<rparr>)
     }"

end
