(* ===== verification/Sending.thy ===== *)
theory Sending
  imports Connection
begin

text \<open>
  The sending loops share a contract, the locale \<open>resumable_sender\<close>: whatever the kernel
  answers, an attempt moves a prefix of the pending octets to the wire, keeps the rest
  pending, and reports \<open>Flushed\<close> only when nothing is left. It follows once for all that
  any number of attempts puts the pending octets on the wire in order, each exactly once.
  The contract holds for the head, for the file body, and for the response made of both.
\<close>

section \<open>The contract\<close>

text \<open>
  Attempts separated by changes of the environment (new answers of the kernel), until one
  does not block.
\<close>

fun attempts :: "('s \<Rightarrow> (flush_result \<times> 's) option) \<Rightarrow> ('s \<Rightarrow> 's) list \<Rightarrow> 's \<Rightarrow> (flush_result \<times> 's) option" where
  "attempts flush [] s = Some (Blocked, s)"
| "attempts flush (e # es) s =
     (case flush (e s) of
        None \<Rightarrow> None
      | Some (res, s') \<Rightarrow> if res = Blocked then attempts flush es s' else Some (res, s'))"

locale resumable_sender =
  fixes flush :: "'s \<Rightarrow> (flush_result \<times> 's) option"
    and inv :: "'s \<Rightarrow> bool"
    and pending :: "'s \<Rightarrow> string"
    and wire :: "'s \<Rightarrow> string"
  assumes flush_law: "inv s \<Longrightarrow>
    \<exists>res s' sent. flush s = Some (res, s') \<and> inv s' \<and> pending s = sent @ pending s' \<and>
      wire s' = wire s @ sent \<and> (res = Flushed \<longrightarrow> pending s' = [])"
begin

definition quiet :: "('s \<Rightarrow> 's) \<Rightarrow> bool" where
  "quiet e \<longleftrightarrow> (\<forall>s. inv s \<longrightarrow> inv (e s) \<and> pending (e s) = pending s \<and> wire (e s) = wire s)"

lemma attempts_law:
  assumes "inv s" "list_all quiet es"
  shows "\<exists>res s' sent. attempts flush es s = Some (res, s') \<and> inv s' \<and> pending s = sent @ pending s' \<and>
    wire s' = wire s @ sent \<and> (res = Flushed \<longrightarrow> pending s' = [])"
  using assms
proof (induction es arbitrary: s)
  case (Cons e es)
  then have e: "inv (e s)" "pending (e s) = pending s" "wire (e s) = wire s" by (simp_all add: quiet_def)
  from flush_law [OF e(1)] obtain res s1 sent where s1: "flush (e s) = Some (res, s1)" "inv s1"
    "pending s = sent @ pending s1" "wire s1 = wire s @ sent" "res = Flushed \<longrightarrow> pending s1 = []"
    using e by auto
  show ?case
  proof (cases "res = Blocked")
    case True
    from Cons.IH [OF s1(2)] Cons.prems(2) obtain res2 s2 sent2 where
      "attempts flush es s1 = Some (res2, s2)" "inv s2" "pending s1 = sent2 @ pending s2"
      "wire s2 = wire s1 @ sent2" "res2 = Flushed \<longrightarrow> pending s2 = []" by auto
    with s1 True show ?thesis by auto
  next
    case False
    with s1 show ?thesis by auto
  qed
qed simp

lemma attempts_complete:
  assumes "inv s" "list_all quiet es" "attempts flush es s = Some (Flushed, s')"
  shows "wire s' = wire s @ pending s"
  using attempts_law [OF assms(1,2)] assms(3) by auto

end

section \<open>The head\<close>

definition conn_sendable :: "connection \<times> kernel \<Rightarrow> bool" where
  "conn_sendable = (\<lambda>(c, k). c_write_sent c \<le> c_write_len c \<and> c_write_len c \<le> RESPONSE_BUF_SIZE \<and>
     0 \<le> c_file_offset c \<and> c_file_offset c \<le> c_file_size c)"

definition conn_wire :: "connection \<times> kernel \<Rightarrow> string" where
  "conn_wire = (\<lambda>(c, k). k_wire k (c_fd c))"

definition head_pending :: "connection \<times> kernel \<Rightarrow> string" where
  "head_pending = (\<lambda>(c, k). drop (c_write_sent c) (array_str (c_write_buf c) (c_write_len c)))"

definition body_pending :: "connection \<times> kernel \<Rightarrow> string" where
  "body_pending = (\<lambda>(c, k).
     take (nat (c_file_size c - c_file_offset c)) (drop (nat (c_file_offset c)) (k_content k (c_file_fd c))))"

definition response_pending :: "connection \<times> kernel \<Rightarrow> string" where
  "response_pending s = head_pending s @ (if c_file_fd (fst s) < 0 then [] else body_pending s)"

text \<open>What a loop that reports \<open>Flushed\<close> has reached, and the octets it counts as sent.\<close>

definition head_done :: "connection \<Rightarrow> bool" where
  "head_done c \<longleftrightarrow> c_write_sent c = c_write_len c"

definition body_done :: "connection \<Rightarrow> bool" where
  "body_done c \<longleftrightarrow> c_file_offset c = c_file_size c"

definition response_done :: "connection \<Rightarrow> bool" where
  "response_done c \<longleftrightarrow> head_done c \<and> (0 \<le> c_file_fd c \<longrightarrow> body_done c)"

definition sent_count :: "connection \<Rightarrow> int" where
  "sent_count c = int (c_write_sent c) + c_file_offset c"

definition flush_head :: "connection \<times> kernel \<Rightarrow> (flush_result \<times> connection \<times> kernel) option" where
  "flush_head = (\<lambda>(c, k). try_flush_write_buffer c k)"

definition flush_body :: "connection \<times> kernel \<Rightarrow> (flush_result \<times> connection \<times> kernel) option" where
  "flush_body = (\<lambda>(c, k). Some (try_sendfile_body c k))"

definition flush_response :: "connection \<times> kernel \<Rightarrow> (flush_result \<times> connection \<times> kernel) option" where
  "flush_response = (\<lambda>(c, k). try_flush_response c k)"

text \<open>What a sending loop leaves alone.\<close>

definition head_rest :: "connection \<Rightarrow> connection" where
  "head_rest c = c\<lparr>c_write_sent := 0\<rparr>"

definition body_rest :: "connection \<Rightarrow> connection" where
  "body_rest c = c\<lparr>c_file_offset := 0\<rparr>"

definition conn_rest :: "connection \<Rightarrow> connection" where
  "conn_rest c = head_rest (body_rest c)"

definition kernel_rest :: "kernel \<Rightarrow> kernel" where
  "kernel_rest k = k\<lparr>k_writes := [], k_sendfiles := [], k_wire := (\<lambda>_. [])\<rparr>"

definition sends_only :: "(connection \<Rightarrow> connection) \<Rightarrow> connection \<Rightarrow> kernel \<Rightarrow> connection \<Rightarrow> kernel \<Rightarrow> bool" where
  "sends_only rest c k c' k' \<longleftrightarrow>
     rest c' = rest c \<and> c_fd c' = c_fd c \<and> kernel_rest k' = kernel_rest k \<and>
     (\<forall>fd. fd \<noteq> c_fd c \<longrightarrow> k_wire k' fd = k_wire k fd)"

lemma conn_rest_sel [simp]:
  "c_fd (conn_rest c) = c_fd c" "c_parser (conn_rest c) = c_parser c"
  "c_prev (conn_rest c) = c_prev c" "c_next (conn_rest c) = c_next c"
  "c_write_buf (conn_rest c) = c_write_buf c" "c_write_len (conn_rest c) = c_write_len c"
  "c_keep_alive_after_write (conn_rest c) = c_keep_alive_after_write c"
  "c_awaiting_writable (conn_rest c) = c_awaiting_writable c"
  "c_file_fd (conn_rest c) = c_file_fd c" "c_file_size (conn_rest c) = c_file_size c"
  "c_pending_input (conn_rest c) = c_pending_input c"
  "c_pending_input_len (conn_rest c) = c_pending_input_len c"
  "c_last_activity (conn_rest c) = c_last_activity c"
  by (simp_all add: conn_rest_def head_rest_def body_rest_def)

lemma kernel_rest_sel [simp]:
  "k_reads (kernel_rest k) = k_reads k" "k_accepts (kernel_rest k) = k_accepts k"
  "k_mallocs (kernel_rest k) = k_mallocs k" "k_ctls (kernel_rest k) = k_ctls k"
  "k_times (kernel_rest k) = k_times k" "k_now (kernel_rest k) = k_now k" "k_files (kernel_rest k) = k_files k"
  "k_seen (kernel_rest k) = k_seen k"
  "k_content (kernel_rest k) = k_content k" "k_fds (kernel_rest k) = k_fds k"
  by (simp_all add: kernel_rest_def)

lemma rest_upd [simp]:
  "head_rest (c\<lparr>c_write_sent := n\<rparr>) = head_rest c" "body_rest (c\<lparr>c_file_offset := i\<rparr>) = body_rest c"
  "kernel_rest (k\<lparr>k_writes := x\<rparr>) = kernel_rest k" "kernel_rest (k\<lparr>k_sendfiles := x\<rparr>) = kernel_rest k"
  "kernel_rest (k\<lparr>k_wire := w\<rparr>) = kernel_rest k"
  by (simp_all add: head_rest_def body_rest_def kernel_rest_def)

lemma sends_only_refl [simp]: "sends_only rest c k c k"
  by (simp add: sends_only_def)

lemma sends_only_trans:
  "sends_only rest c k c1 k1 \<Longrightarrow> sends_only rest c1 k1 c2 k2 \<Longrightarrow> sends_only rest c k c2 k2"
  unfolding sends_only_def by metis

lemma sends_only_head: "sends_only head_rest c k c' k' \<Longrightarrow> sends_only conn_rest c k c' k' \<and> c_file_offset c' = c_file_offset c"
proof -
  assume "sends_only head_rest c k c' k'"
  moreover have "conn_rest x = body_rest (head_rest x)" "c_file_offset (head_rest x) = c_file_offset x" for x
    by (simp_all add: conn_rest_def head_rest_def body_rest_def)
  ultimately show ?thesis unfolding sends_only_def by metis
qed

lemma sends_only_body: "sends_only body_rest c k c' k' \<Longrightarrow> sends_only conn_rest c k c' k' \<and> c_write_sent c' = c_write_sent c"
proof -
  assume "sends_only body_rest c k c' k'"
  moreover have "c_write_sent (body_rest x) = c_write_sent x" for x by (simp add: body_rest_def)
  ultimately show ?thesis unfolding sends_only_def conn_rest_def by metis
qed

lemma sends_onlyD:
  assumes "sends_only conn_rest c k c' k'"
  shows "c_fd c' = c_fd c" "c_parser c' = c_parser c" "c_prev c' = c_prev c" "c_next c' = c_next c"
    "c_write_buf c' = c_write_buf c" "c_write_len c' = c_write_len c"
    "c_keep_alive_after_write c' = c_keep_alive_after_write c"
    "c_awaiting_writable c' = c_awaiting_writable c" "c_file_fd c' = c_file_fd c" "c_file_size c' = c_file_size c"
    "c_pending_input c' = c_pending_input c" "c_pending_input_len c' = c_pending_input_len c"
    "c_last_activity c' = c_last_activity c" "k_content k' = k_content k" "k_fds k' = k_fds k"
  using assms unfolding sends_only_def by (metis conn_rest_sel kernel_rest_sel)+

text \<open>One attempt: the outcome as the contract has it, with the frame.\<close>

definition sends :: "(connection \<Rightarrow> connection) \<Rightarrow> (connection \<Rightarrow> bool) \<Rightarrow> connection \<Rightarrow> kernel \<Rightarrow> (connection \<times> kernel \<Rightarrow> string) \<Rightarrow>
    (flush_result \<times> connection \<times> kernel) option \<Rightarrow> bool" where
  "sends rest fin c k pend r \<longleftrightarrow>
     (\<exists>res c' k' sent. r = Some (res, c', k') \<and> sends_only rest c k c' k' \<and> conn_sendable (c', k') \<and>
        pend (c, k) = sent @ pend (c', k') \<and> conn_wire (c', k') = conn_wire (c, k) @ sent \<and>
        sent_count c' = sent_count c + int (length sent) \<and> (res = Flushed \<longrightarrow> fin c'))"

lemma sends_step:
  assumes "sends_only rest c k c1 k1" "pend (c, k) = s1 @ pend (c1, k1)" "conn_wire (c1, k1) = conn_wire (c, k) @ s1"
    "sent_count c1 = sent_count c + int (length s1)"
    "sends rest fin c1 k1 pend r"
  shows "sends rest fin c k pend r"
proof -
  from assms(5) obtain res c' k' sent where "r = Some (res, c', k')" "sends_only rest c1 k1 c' k'"
    "conn_sendable (c', k')" "pend (c1, k1) = sent @ pend (c', k')" "conn_wire (c', k') = conn_wire (c1, k1) @ sent"
    "sent_count c' = sent_count c1 + int (length sent)" "res = Flushed \<longrightarrow> fin c'"
    unfolding sends_def by blast
  moreover from this have "sends_only rest c k c' k'" using assms(1) sends_only_trans by blast
  ultimately show ?thesis using assms(2-4) unfolding sends_def
    by (intro exI [of _ res] exI [of _ c'] exI [of _ k'] exI [of _ "s1 @ sent"]) simp
qed

lemma sends_stop:
  assumes "sends_only rest c k c' k'" "conn_sendable (c', k')" "pend (c', k') = pend (c, k)"
    "conn_wire (c', k') = conn_wire (c, k)" "sent_count c' = sent_count c" "res = Flushed \<longrightarrow> fin c'"
  shows "sends rest fin c k pend (Some (res, c', k'))"
  using assms unfolding sends_def by auto

lemmas sends_defs = sends_only_def conn_sendable_def head_pending_def body_pending_def conn_wire_def
  head_done_def body_done_def sent_count_def

lemma drop_min_split: "drop i xs = take n (drop i xs) @ drop (i + min n (length xs - i)) xs"
proof (cases "n \<le> length xs - i")
  case True
  then show ?thesis using append_take_drop_id [of n "drop i xs"] by (simp add: add.commute)
qed simp

lemma try_flush_write_buffer_done:
  "c_write_sent c = c_write_len c \<Longrightarrow> try_flush_write_buffer c k = Some (Flushed, c, k)"
  by (simp add: try_flush_write_buffer.simps [of c k])

lemma try_flush_write_buffer_sends:
  "conn_sendable (c, k) \<Longrightarrow> sends head_rest head_done c k head_pending (try_flush_write_buffer c k)"
proof (induction "k_writes k" arbitrary: c k)
  case Nil
  then show ?case unfolding try_flush_write_buffer.simps [of c k]
    by (auto intro!: sends_stop simp: sends_defs sys_write_def)
next
  case (Cons a q)
  let ?data = "drop (c_write_sent c) (array_str (c_write_buf c) (c_write_len c))"
  show ?case
  proof (cases "c_write_sent c < c_write_len c")
    case False
    with Cons.prems show ?thesis
      by (auto intro!: sends_stop simp: sends_defs try_flush_write_buffer_done)
  next
    case True
    show ?thesis
    proof (cases a)
      case (Error e)
      let ?k = "k\<lparr>k_writes := q\<rparr>"
      have "sends head_rest head_done c ?k head_pending (try_flush_write_buffer c ?k)"
        using Cons.hyps(1) [of ?k c] Cons.prems by (simp add: conn_sendable_def)
      then have "sends head_rest head_done c k head_pending (try_flush_write_buffer c ?k)"
        by (intro sends_step [of head_rest c k c ?k head_pending "[]"]) (simp_all add: sends_defs)
      then show ?thesis using True Cons.hyps(2) [symmetric] Error Cons.prems
        unfolding try_flush_write_buffer.simps [of c k]
        by (auto intro!: sends_stop simp: sends_defs sys_write_def)
    next
      case (Count n)
      let ?n = "min n (length ?data)"
      let ?c = "c\<lparr>c_write_sent := c_write_sent c + ?n\<rparr>"
        and ?k = "k\<lparr>k_writes := q, k_wire := (k_wire k)(c_fd c := k_wire k (c_fd c) @ take n ?data)\<rparr>"
      have "sends head_rest head_done ?c ?k head_pending (try_flush_write_buffer ?c ?k)"
        using Cons.prems by (intro Cons.hyps(1)) (auto simp: conn_sendable_def)
      moreover have "head_pending (c, k) = take n ?data @ head_pending (?c, ?k)"
        using drop_min_split [of "c_write_sent c" "array_str (c_write_buf c) (c_write_len c)" n]
        by (simp add: head_pending_def)
      ultimately have "sends head_rest head_done c k head_pending (try_flush_write_buffer ?c ?k)"
        by (intro sends_step [of head_rest c k ?c ?k head_pending "take n ?data"]) (simp_all add: sends_only_def conn_wire_def sent_count_def)
      then show ?thesis using True Cons.hyps(2) [symmetric] Count Cons.prems
        unfolding try_flush_write_buffer.simps [of c k] Let_def
        by (cases "n = 0") (auto intro!: sends_stop simp: sys_write_def sends_defs)
    qed
  qed
qed


section \<open>The file body\<close>

lemma take_drop_split:
  "n \<le> m \<Longrightarrow> take m (drop i xs) = take n (drop i xs) @ take (m - n) (drop (i + n) xs)"
  by (metis (no_types) add.commute drop_drop le_add_diff_inverse take_add)

lemma try_sendfile_body_sends:
  "conn_sendable (c, k) \<Longrightarrow> sends body_rest body_done c k body_pending (Some (try_sendfile_body c k))"
proof (induction "k_sendfiles k" arbitrary: c k)
  case Nil
  then show ?case unfolding try_sendfile_body.simps [of c k]
    by (auto intro!: sends_stop simp: sends_defs sys_sendfile_def Let_def)
next
  case (Cons a q)
  let ?file = "k_content k (c_file_fd c)" and ?off = "nat (c_file_offset c)"
    and ?rem = "c_file_size c - c_file_offset c"
  let ?count = "if ?rem > SENDFILE_MAX_CHUNK then SENDFILE_MAX_CHUNK else ?rem"
  show ?case
  proof (cases "c_file_offset c < c_file_size c")
    case False
    with Cons.prems show ?thesis
      by (auto intro!: sends_stop simp: sends_defs try_sendfile_body.simps [of c k])
  next
    case True
    show ?thesis
    proof (cases a)
      case (Error e)
      let ?k = "k\<lparr>k_sendfiles := q\<rparr>"
      have "sends body_rest body_done c ?k body_pending (Some (try_sendfile_body c ?k))"
        using Cons.hyps(1) [of ?k c] Cons.prems by (simp add: conn_sendable_def)
      then have "sends body_rest body_done c k body_pending (Some (try_sendfile_body c ?k))"
        by (intro sends_step [of body_rest c k c ?k body_pending "[]"]) (simp_all add: sends_defs)
      then show ?thesis using True Cons.hyps(2) [symmetric] Error Cons.prems
        unfolding try_sendfile_body.simps [of c k]
        by (auto intro!: sends_stop simp: sends_defs sys_sendfile_def Let_def)
    next
      case (Count n)
      define data where "data = take (min n (nat ?count)) (drop ?off ?file)"
      let ?c = "c\<lparr>c_file_offset := c_file_offset c + int (length data)\<rparr>"
        and ?k = "k\<lparr>k_sendfiles := q, k_wire := (k_wire k)(c_fd c := k_wire k (c_fd c) @ data)\<rparr>"
      have len: "int (length data) \<le> ?rem" "0 \<le> c_file_offset c"
        using True Cons.prems by (auto simp: data_def conn_sendable_def)
      have "sends body_rest body_done ?c ?k body_pending (Some (try_sendfile_body ?c ?k))"
        using Cons.hyps(1) [of ?k ?c] Cons.prems len by (simp add: conn_sendable_def)
      moreover have "body_pending (c, k) = data @ body_pending (?c, ?k)"
      proof -
        have "data = take (length data) (drop ?off ?file)"
          unfolding data_def by (metis append_eq_conv_conj append_take_drop_id)
        moreover have "nat (c_file_offset c + int (length data)) = ?off + length data"
          "nat (c_file_size c - (c_file_offset c + int (length data))) = nat ?rem - length data"
          using len by (simp_all add: nat_add_distrib)
        ultimately show ?thesis
          using take_drop_split [of "length data" "nat ?rem" ?off ?file] len by (simp add: body_pending_def)
      qed
      ultimately have "sends body_rest body_done c k body_pending (Some (try_sendfile_body ?c ?k))"
        by (intro sends_step [of body_rest c k ?c ?k body_pending data]) (simp_all add: sends_only_def conn_wire_def sent_count_def)
      then show ?thesis using True Cons.hyps(2) [symmetric] Count Cons.prems
        unfolding try_sendfile_body.simps [of c k] Let_def sys_sendfile_def
        by (auto intro!: sends_stop simp: sends_defs simp flip: data_def)
    qed
  qed
qed


section \<open>The whole response\<close>

lemma try_flush_response_sends:
  assumes "conn_sendable (c, k)"
  shows "sends conn_rest response_done c k response_pending (try_flush_response c k)"
proof -
  obtain res c1 k1 sent where 1: "try_flush_write_buffer c k = Some (res, c1, k1)" "sends_only head_rest c k c1 k1"
    "conn_sendable (c1, k1)" "head_pending (c, k) = sent @ head_pending (c1, k1)"
    "conn_wire (c1, k1) = conn_wire (c, k) @ sent" "sent_count c1 = sent_count c + int (length sent)"
    "res = Flushed \<longrightarrow> head_done c1"
    using try_flush_write_buffer_sends [OF assms] unfolding sends_def by blast
  have f1: "sends_only conn_rest c k c1 k1" "c_file_offset c1 = c_file_offset c"
    using sends_only_head [OF 1(2)] by simp_all
  note D = sends_onlyD [OF f1(1)]
  have pend: "response_pending (c, k) = sent @ response_pending (c1, k1)"
    using 1(4) f1(2) D by (simp add: response_pending_def body_pending_def)
  show ?thesis
  proof (cases "res = Flushed \<and> \<not> c_file_fd c1 < 0")
    case False
    with 1 f1 pend show ?thesis
      by (auto simp: sends_def try_flush_response_def response_done_def)
  next
    case True
    then have hd1: "head_done c1" using 1(7) by blast
    obtain res2 c2 k2 sent2 where 2: "try_sendfile_body c1 k1 = (res2, c2, k2)" "sends_only body_rest c1 k1 c2 k2"
      "conn_sendable (c2, k2)" "body_pending (c1, k1) = sent2 @ body_pending (c2, k2)"
      "conn_wire (c2, k2) = conn_wire (c1, k1) @ sent2" "sent_count c2 = sent_count c1 + int (length sent2)"
      "res2 = Flushed \<longrightarrow> body_done c2"
      using try_sendfile_body_sends [OF 1(3)] unfolding sends_def by auto
    have f2: "sends_only conn_rest c1 k1 c2 k2" "c_write_sent c2 = c_write_sent c1"
      using sends_only_body [OF 2(2)] by simp_all
    note D2 = sends_onlyD [OF f2(1)]
    have hd2: "head_done c2" using hd1 f2(2) D2(6) by (simp add: head_done_def)
    have "head_pending (c1, k1) = []" "head_pending (c2, k2) = []"
      using hd1 hd2 by (simp_all add: head_pending_def head_done_def)
    then have "sends conn_rest response_done c1 k1 response_pending (Some (res2, c2, k2))"
      using 2 f2 hd2 D2(9) True unfolding sends_def response_pending_def response_done_def by simp
    from sends_step [OF f1(1) pend 1(5,6) this] show ?thesis
      using True 1(1) 2(1) by (simp add: try_flush_response_def)
  qed
qed

lemma done_pending:
  "head_done c \<Longrightarrow> head_pending (c, k) = []" "body_done c \<Longrightarrow> body_pending (c, k) = []"
  "response_done c \<Longrightarrow> response_pending (c, k) = []"
  by (simp_all add: head_done_def head_pending_def body_done_def body_pending_def response_done_def
      response_pending_def)

lemma sends_contract:
  assumes "sends rest fin c k pend r" "\<And>c k. fin c \<Longrightarrow> pend (c, k) = []"
  shows "\<exists>res s' sent. r = Some (res, s') \<and> conn_sendable s' \<and> pend (c, k) = sent @ pend s' \<and>
    conn_wire s' = conn_wire (c, k) @ sent \<and> (res = Flushed \<longrightarrow> pend s' = [])"
  using assms unfolding sends_def by blast

interpretation head: resumable_sender flush_head conn_sendable head_pending conn_wire
  by unfold_locales (clarify, simp only: flush_head_def prod.case, rule sends_contract, rule try_flush_write_buffer_sends, assumption, rule done_pending)

interpretation body: resumable_sender flush_body conn_sendable body_pending conn_wire
  by unfold_locales (clarify, simp only: flush_body_def prod.case, rule sends_contract, rule try_sendfile_body_sends, assumption, rule done_pending)

interpretation resp: resumable_sender flush_response conn_sendable response_pending conn_wire
  by unfold_locales (clarify, simp only: flush_response_def prod.case, rule sends_contract, rule try_flush_response_sends, assumption, rule done_pending)


section \<open>Prepared responses\<close>

definition conn_value_of :: "bool \<Rightarrow> string" where
  "conn_value_of keep_alive = (if keep_alive then ''keep-alive'' else ''close'')"

text \<open>The octets of a response that the write buffer holds.\<close>

definition head_text :: "routed_response \<Rightarrow> bool \<Rightarrow> int \<Rightarrow> string option" where
  "head_text r keep_alive w =
     (if 0 \<le> f_fd (resp_file r) then file_head_text r (conn_value_of keep_alive) w
      else response_text r (conn_value_of keep_alive) w)"

lemma head_text_fits:
  assumes "wf_response r" "\<bar>w\<bar> < 2 ^ 31"
  obtains s where "head_text r keep_alive w = Some s" "length s < RESPONSE_BUF_SIZE"
proof -
  from assms(1) obtain t where t: "resp_content_type r = Some t" by (auto simp: wf_response_def)
  have v: "length (conn_value_of keep_alive) \<le> 10" by (simp add: conn_value_of_def)
  show thesis
  proof (cases "0 \<le> f_fd (resp_file r)")
    case True
    then have "length (decimal (f_size (resp_file r))) \<le> 20"
      using assms(1) by (intro decimal_length [of _ 19, simplified]) (simp add: wf_response_def)
    from response_lines_length [OF assms(1) t v this assms(2)] that show thesis
      using file_head_lines [OF assms(1) t True] True by (simp add: head_text_def)
  next
    case False
    then obtain b where b: "resp_body r = Some b" "length b \<le> 23"
      using assms(1) by (auto simp: wf_response_def)
    then have "length (decimal_nat (length b)) \<le> 20" using decimal_nat_length [of "length b" 2] by simp
    from response_lines_length [OF assms(1) t v this assms(2)] that show thesis
      using response_text_lines [OF assms(1) t b(1)] False b(2) by (simp add: head_text_def)
  qed
qed

lemma array_write_prefix:
  "n \<le> length s \<Longrightarrow> array_write cap a 0 s = Some a' \<Longrightarrow> array_str a' n = take n s"
  by (auto simp: array_write_def array_str_def split: if_splits intro!: nth_equalityI)

text \<open>
  A prepared connection: the head in the buffer, the file attached, everything else as
  before; the fallback to 500 is never taken.
\<close>

definition prepared :: "connection \<Rightarrow> routed_response \<Rightarrow> bool \<Rightarrow> string \<Rightarrow> carray \<Rightarrow> connection" where
  "prepared c r keep_alive s buf =
     (let c1 = c\<lparr>c_keep_alive_after_write := keep_alive, c_write_buf := buf,
                 c_write_len := length s, c_write_sent := 0\<rparr>
      in if 0 \<le> f_fd (resp_file r)
         then c1\<lparr>c_file_fd := f_fd (resp_file r), c_file_offset := 0, c_file_size := f_size (resp_file r)\<rparr>
         else c1)"

lemma prepare_response_ok:
  assumes "wf_response r" "\<bar>w\<bar> < 2 ^ 31"
  obtains s buf where "head_text r keep_alive w = Some s" "length s < RESPONSE_BUF_SIZE"
    "array_str buf (length s) = s"
    "prepare_response c r keep_alive w k = Some (prepared c r keep_alive s buf, k)"
proof -
  obtain s where s: "head_text r keep_alive w = Some s" "length s < RESPONSE_BUF_SIZE"
    using head_text_fits [OF assms] .
  obtain buf where buf: "array_write RESPONSE_BUF_SIZE (c_write_buf c) 0 (take (RESPONSE_BUF_SIZE - 1) s @ [NUL]) = Some buf"
    by (simp add: array_write_def)
  have str: "array_str buf (length s) = s"
    using array_write_prefix [OF _ buf, of "length s"] s(2) by simp
  have "prepare_response c r keep_alive w k = Some (prepared c r keep_alive s buf, k)"
    using s buf unfolding prepare_response_def prepared_def head_text_def conn_value_of_def
    by (auto simp: build_response_def build_file_response_head_def snprintf_def set_write_buffer_def Let_def
        split: if_splits)
  with s str that show thesis by blast
qed

section \<open>Properties\<close>

text \<open>A connection with a three-octet head and a two-octet file, for the witnesses.\<close>

definition demo_conn :: connection where
  "demo_conn = \<lparr>c_fd = 5, c_parser = http_parser_init, c_prev = None, c_next = None,
     c_write_buf = (\<lambda>_. CHR ''x''), c_write_len = 3, c_write_sent = 0, c_keep_alive_after_write = True,
     c_awaiting_writable = False, c_file_fd = 7, c_file_offset = 0, c_file_size = 2,
     c_pending_input = zeroed, c_pending_input_len = 0, c_last_activity = 100\<rparr>"

definition demo_kernel :: kernel where
  "demo_kernel = \<lparr>k_writes = [Count 2, Error EINTR, Count 5], k_sendfiles = [Count 9], k_reads = [], k_accepts = [],
     k_mallocs = [], k_ctls = [], k_times = [], k_now = 100, k_files = [], k_seen = [], k_content = (\<lambda>_. ''ab''),
     k_fds = {3, 5, 7}, k_wire = (\<lambda>_. [])\<rparr>"

lemma demo_sendable: "conn_sendable (demo_conn, demo_kernel)"
  by (simp add: conn_sendable_def demo_conn_def)

text \<open>
  C20. Every response fits. For whatever the routes produce, any worker number and any file
  size, the head is shorter than the 512 octets of the write buffer, it is stored there
  unchanged, and the 500 fallback of \<open>prepare_response\<close> is never taken; what is then
  pending is the head followed by the file, if there is one.
\<close>

theorem response_fits_buffer:
  assumes "wf_response r" "\<bar>w\<bar> < 2 ^ 31" "c_file_fd c = -1"
  shows "\<exists>c' s. prepare_response c r keep_alive w k = Some (c', k) \<and> head_text r keep_alive w = Some s \<and>
    c_write_len c' = length s \<and> length s < RESPONSE_BUF_SIZE \<and> c_keep_alive_after_write c' = keep_alive \<and>
    response_pending (c', k) =
      s @ (if 0 \<le> f_fd (resp_file r)
           then take (nat (f_size (resp_file r))) (k_content k (f_fd (resp_file r))) else [])"
proof -
  obtain s buf where s: "head_text r keep_alive w = Some s" "length s < RESPONSE_BUF_SIZE"
    "array_str buf (length s) = s"
    "prepare_response c r keep_alive w k = Some (prepared c r keep_alive s buf, k)"
    using prepare_response_ok [OF assms(1,2)] .
  with assms(3) show ?thesis
    by (intro exI [of _ "prepared c r keep_alive s buf"] exI [of _ s])
       (simp add: prepared_def response_pending_def head_pending_def body_pending_def Let_def)
qed

definition refill :: "io list \<times> io list \<Rightarrow> connection \<times> kernel \<Rightarrow> connection \<times> kernel" where
  "refill = (\<lambda>(ws, ss) (c, k). (c, k\<lparr>k_writes := ws, k_sendfiles := ss\<rparr>))"

lemma refill_quiet: "list_all resp.quiet (map refill rounds)"
  unfolding list_all_iff resp.quiet_def
  by (auto simp: refill_def conn_sendable_def response_pending_def head_pending_def body_pending_def conn_wire_def)

text \<open>
  C18. A response reaches the wire in order, each octet once. However the kernel splits the
  writes and transfers, interrupts them or blocks, and however often the response is
  resumed: the octets on the wire grow by a prefix of the pending response, the rest stays
  pending, and \<open>Flushed\<close> is reported only when all of it is on the wire.
\<close>

theorem response_sent_once_in_order:
  assumes "conn_sendable (c, k)"
  shows "\<exists>res c' k' sent. attempts flush_response (map refill rounds) (c, k) = Some (res, c', k') \<and>
    response_pending (c, k) = sent @ response_pending (c', k') \<and>
    conn_wire (c', k') = conn_wire (c, k) @ sent \<and>
    (res = Flushed \<longrightarrow> conn_wire (c', k') = conn_wire (c, k) @ response_pending (c, k))"
  using resp.attempts_law [OF assms refill_quiet, of rounds] by auto

text \<open>
  C19. Content-Length is honoured or the connection fails. When the sending of a file
  response reports \<open>Flushed\<close>, exactly the announced number of octets of the file (and the
  rest of the head) has been sent; in particular a file that has become shorter than its
  announced size is never reported as sent.
\<close>

theorem file_body_length_honoured:
  assumes "conn_sendable (c, k)" "0 \<le> c_file_fd c" "try_flush_response c k = Some (Flushed, c', k')"
  shows "int (length (conn_wire (c', k'))) - int (length (conn_wire (c, k))) =
      int (c_write_len c - c_write_sent c) + (c_file_size c - c_file_offset c) \<and>
    (c_file_offset c < c_file_size c \<longrightarrow> c_file_size c \<le> int (length (k_content k (c_file_fd c))))"
proof -
  obtain sent where s: "sends_only conn_rest c k c' k'" "response_pending (c, k) = sent @ response_pending (c', k')"
    "conn_wire (c', k') = conn_wire (c, k) @ sent" "sent_count c' = sent_count c + int (length sent)"
    "response_done c'"
    using try_flush_response_sends [OF assms(1)] assms(3) unfolding sends_def by auto
  note D = sends_onlyD [OF s(1)]
  have count: "int (length sent) = int (c_write_len c - c_write_sent c) + (c_file_size c - c_file_offset c)"
    using s(4,5) assms(1,2) D by (simp add: sent_count_def response_done_def head_done_def body_done_def conn_sendable_def)
  have "length sent = length (response_pending (c, k))" using s(2) done_pending(3) [OF s(5)] by simp
  also have "\<dots> = (c_write_len c - c_write_sent c) +
      min (nat (c_file_size c - c_file_offset c)) (length (k_content k (c_file_fd c)) - nat (c_file_offset c))"
    using assms(2) by (simp add: response_pending_def head_pending_def body_pending_def min.commute)
  finally show ?thesis using count s(3) assms(1) by (auto simp: conn_sendable_def)
qed


theorem response_fits_buffer_witness:
  "\<exists>c' s. prepare_response (demo_conn\<lparr>c_file_fd := -1\<rparr>) method_not_allowed True 3 demo_kernel = Some (c', demo_kernel) \<and>
    head_text method_not_allowed True 3 = Some s \<and> c_write_len c' = length s \<and> length s < RESPONSE_BUF_SIZE \<and>
    c_keep_alive_after_write c' = True \<and>
    response_pending (c', demo_kernel) =
      s @ (if 0 \<le> f_fd (resp_file method_not_allowed)
           then take (nat (f_size (resp_file method_not_allowed))) (k_content demo_kernel (f_fd (resp_file method_not_allowed)))
           else [])"
  by (rule response_fits_buffer) (simp_all add: wf_method_not_allowed)

theorem response_sent_once_in_order_witness:
  "\<exists>res c' k' sent. attempts flush_response (map refill [([Count 1], []), ([Count 9], [Count 1])]) (demo_conn, demo_kernel) =
      Some (res, c', k') \<and>
    response_pending (demo_conn, demo_kernel) = sent @ response_pending (c', k') \<and>
    conn_wire (c', k') = conn_wire (demo_conn, demo_kernel) @ sent \<and>
    (res = Flushed \<longrightarrow>
       conn_wire (c', k') = conn_wire (demo_conn, demo_kernel) @ response_pending (demo_conn, demo_kernel))"
  by (rule response_sent_once_in_order [OF demo_sendable])

theorem file_body_length_honoured_witness:
  "\<exists>c' k'. try_flush_response demo_conn demo_kernel = Some (Flushed, c', k') \<and>
    int (length (conn_wire (c', k'))) - int (length (conn_wire (demo_conn, demo_kernel))) =
      int (c_write_len demo_conn - c_write_sent demo_conn) + (c_file_size demo_conn - c_file_offset demo_conn)"
proof -
  have "\<exists>c' k'. try_flush_response demo_conn demo_kernel = Some (Flushed, c', k')"
    by (simp add: try_flush_response_def try_flush_write_buffer.simps try_sendfile_body.simps demo_conn_def
        demo_kernel_def sys_write_def sys_sendfile_def Let_def)
  then obtain c' k' where "try_flush_response demo_conn demo_kernel = Some (Flushed, c', k')" by blast
  with file_body_length_honoured [OF demo_sendable _ this] show ?thesis by (auto simp: demo_conn_def)
qed

end
