(* ===== verification/Conn_List.thy ===== *)
theory Conn_List
  imports Sending
begin

text \<open>
  The list of live connections of \<^verbatim>\<open>src/event_loop.c\<close>: an intrusive doubly linked
  list through a heap of connection records. Dereferencing a pointer that is not allocated
  (a connection that was freed) has no result, so that a result \<open>Some\<close> excludes a use
  after free.
\<close>

section \<open>State\<close>

text \<open>
  The fields of \<^verbatim>\<open>event_loop_t\<close>, with the memory and the kernel it works on and the
  document root of \<^verbatim>\<open>static_files.c\<close>.
\<close>

record server =
  s_epoll_fd :: int
  s_listen_fd :: int
  s_timer_fd :: int
  s_idle_timeout_seconds :: int
  s_worker_id :: int
  s_connections :: ptr
  s_heap :: "nat \<rightharpoonup> connection"
  s_kernel :: kernel
  s_root :: static_root

definition upd_conn :: "nat \<Rightarrow> (connection \<Rightarrow> connection) \<Rightarrow> server \<Rightarrow> server option" where
  "upd_conn p f s =
     (case s_heap s p of None \<Rightarrow> None | Some c \<Rightarrow> Some (s\<lparr>s_heap := (s_heap s)(p \<mapsto> f c)\<rparr>))"

definition put_conn :: "nat \<Rightarrow> connection \<Rightarrow> kernel \<Rightarrow> server \<Rightarrow> server" where
  "put_conn p c k s = s\<lparr>s_heap := (s_heap s)(p \<mapsto> c), s_kernel := k\<rparr>"

section \<open>Operations\<close>

definition list_insert :: "nat \<Rightarrow> server \<Rightarrow> server option" where
  "list_insert p s =
     do {
       s1 \<leftarrow> upd_conn p (\<lambda>c. c\<lparr>c_prev := None\<rparr>) s;
       s2 \<leftarrow> upd_conn p (\<lambda>c. c\<lparr>c_next := s_connections s\<rparr>) s1;
       s3 \<leftarrow> (case s_connections s2 of
                None \<Rightarrow> Some s2 | Some q \<Rightarrow> upd_conn q (\<lambda>c. c\<lparr>c_prev := Some p\<rparr>) s2);
       Some (s3\<lparr>s_connections := Some p\<rparr>)
     }"

definition list_remove :: "nat \<Rightarrow> server \<Rightarrow> server option" where
  "list_remove p s =
     do {
       c \<leftarrow> s_heap s p;
       s1 \<leftarrow> (case c_prev c of
                Some q \<Rightarrow> upd_conn q (\<lambda>d. d\<lparr>c_next := c_next c\<rparr>) s
              | None \<Rightarrow> Some (s\<lparr>s_connections := c_next c\<rparr>));
       c1 \<leftarrow> s_heap s1 p;
       (case c_next c1 of
          Some q \<Rightarrow> upd_conn q (\<lambda>d. d\<lparr>c_prev := c_prev c1\<rparr>) s1
        | None \<Rightarrow> Some s1)
     }"

definition close_connection :: "nat \<Rightarrow> server \<Rightarrow> server option" where
  "close_connection p s =
     do {
       s1 \<leftarrow> list_remove p s;
       c \<leftarrow> s_heap s1 p;
       let (c', k) = release_file_body c (s_kernel s1);
       Some (s1\<lparr>s_heap := (s_heap s1)(p := None), s_kernel := sys_close (c_fd c') k\<rparr>)
     }"

text \<open>
  The loops over the list. Not returning is \<open>None\<close>, like an invalid access.
\<close>

partial_function (option) sweep_from :: "int \<Rightarrow> ptr \<Rightarrow> server \<Rightarrow> server option" where
  "sweep_from now conn s =
     (case conn of
        None \<Rightarrow> Some s
      | Some p \<Rightarrow>
          Option.bind (s_heap s p) (\<lambda>c.
            Option.bind
              (if now - c_last_activity c \<ge> s_idle_timeout_seconds s then close_connection p s else Some s)
              (\<lambda>s1. sweep_from now (c_next c) s1)))"

definition sweep_idle_connections :: "server \<Rightarrow> server option" where
  "sweep_idle_connections s =
     (let (now, k) = sys_time (s_kernel s)
      in sweep_from now (s_connections s) (s\<lparr>s_kernel := k\<rparr>))"

partial_function (option) close_all_connections :: "server \<Rightarrow> server option" where
  "close_all_connections s =
     (case s_connections s of
        None \<Rightarrow> Some s
      | Some p \<Rightarrow> Option.bind (close_connection p s) (\<lambda>s1. close_all_connections s1))"

section \<open>The shape of the list\<close>

text \<open>The pointer to the first element of a list, or the given one; and to the last.\<close>

definition first_of :: "nat list \<Rightarrow> ptr \<Rightarrow> ptr" where
  "first_of xs nx = (case xs of [] \<Rightarrow> nx | a # _ \<Rightarrow> Some a)"

definition last_of :: "nat list \<Rightarrow> ptr \<Rightarrow> ptr" where
  "last_of xs pv = (if xs = [] then pv else Some (last xs))"

text \<open>\<open>dseg h pv xs nx\<close>: the nodes \<open>xs\<close> are linked, after \<open>pv\<close> and before \<open>nx\<close>.\<close>

fun dseg :: "(nat \<rightharpoonup> connection) \<Rightarrow> ptr \<Rightarrow> nat list \<Rightarrow> ptr \<Rightarrow> bool" where
  "dseg h pv [] nx = True"
| "dseg h pv (a # as) nx =
     ((case h a of None \<Rightarrow> False | Some c \<Rightarrow> c_prev c = pv \<and> c_next c = first_of as nx) \<and>
      dseg h (Some a) as nx)"

text \<open>The contents of a node, without the links.\<close>

definition conn_data :: "connection \<Rightarrow> connection" where
  "conn_data c = c\<lparr>c_prev := None, c_next := None\<rparr>"

definition heap_data :: "(nat \<rightharpoonup> connection) \<Rightarrow> nat \<Rightarrow> connection option" where
  "heap_data h p = map_option conn_data (h p)"

definition live_list :: "server \<Rightarrow> nat list \<Rightarrow> bool" where
  "live_list s ps \<longleftrightarrow>
     s_connections s = first_of ps None \<and> dseg (s_heap s) None ps None \<and> distinct ps \<and>
     set ps = dom (s_heap s)"

lemma first_of_simps [simp]:
  "first_of [] nx = nx" "first_of (a # as) nx = Some a" "first_of (as @ bs) nx = first_of as (first_of bs nx)"
  by (simp_all add: first_of_def split: list.split)

lemma last_of_simps [simp]:
  "last_of [] pv = pv" "last_of (as @ [a]) pv = Some a" "last_of (a # as) pv = last_of as (Some a)"
  by (simp_all add: last_of_def)

lemma dseg_append: "dseg h pv (xs @ ys) nx \<longleftrightarrow> dseg h pv xs (first_of ys nx) \<and> dseg h (last_of xs pv) ys nx"
  by (induction xs arbitrary: pv) (auto split: option.splits)

lemma dseg_frame [simp]: "a \<notin> set xs \<Longrightarrow> dseg (h(a := v)) pv xs nx = dseg h pv xs nx"
  by (induction xs arbitrary: pv) auto

lemma dseg_relink_next:
  "dseg h pv (xs @ [a]) nx \<Longrightarrow> h a = Some c \<Longrightarrow> a \<notin> set xs \<Longrightarrow>
   dseg (h(a \<mapsto> c\<lparr>c_next := nx'\<rparr>)) pv (xs @ [a]) nx'"
  by (simp add: dseg_append)

lemma dseg_relink_prev:
  "dseg h pv (a # xs) nx \<Longrightarrow> h a = Some c \<Longrightarrow> a \<notin> set xs \<Longrightarrow>
   dseg (h(a \<mapsto> c\<lparr>c_prev := pv'\<rparr>)) pv' (a # xs) nx"
  by simp

lemma conn_data_links [simp]: "conn_data (c\<lparr>c_prev := x\<rparr>) = conn_data c" "conn_data (c\<lparr>c_next := x\<rparr>) = conn_data c"
  by (simp_all add: conn_data_def)

lemma heap_data_upd: "h a = Some c \<Longrightarrow> conn_data c' = conn_data c \<Longrightarrow> heap_data (h(a \<mapsto> c')) = heap_data h"
  by (auto simp: heap_data_def)

lemma dseg_upd_links:
  "h a = Some c \<Longrightarrow> c_prev c' = c_prev c \<Longrightarrow> c_next c' = c_next c \<Longrightarrow> dseg (h(a \<mapsto> c')) pv xs nx = dseg h pv xs nx"
  by (induction xs arbitrary: pv) (auto split: option.splits)


section \<open>Insertion and removal\<close>

lemma upd_conn_some: "s_heap s p = Some c \<Longrightarrow> upd_conn p f s = Some (s\<lparr>s_heap := (s_heap s)(p \<mapsto> f c)\<rparr>)"
  by (simp add: upd_conn_def)

lemma dseg_first: "dseg h pv (a # as) nx \<Longrightarrow> \<exists>c. h a = Some c \<and> c_prev c = pv \<and> c_next c = first_of as nx"
  by (auto split: option.splits)

lemma list_insert_ok:
  assumes "s_connections s = first_of ps None" "dseg (s_heap s) None ps None" "distinct ps" "p \<notin> set ps"
    "insert p (set ps) = dom (s_heap s)"
  obtains h where "list_insert p s = Some (s\<lparr>s_heap := h, s_connections := Some p\<rparr>)"
    "live_list (s\<lparr>s_heap := h, s_connections := Some p\<rparr>) (p # ps)" "heap_data h = heap_data (s_heap s)"
proof -
  from assms(5) obtain c where c: "s_heap s p = Some c" by blast
  let ?c = "c\<lparr>c_prev := None, c_next := s_connections s\<rparr>"
  let ?h = "(s_heap s)(p \<mapsto> ?c)"
  have two: "upd_conn p (\<lambda>c. c\<lparr>c_prev := None\<rparr>) s \<bind> upd_conn p (\<lambda>c. c\<lparr>c_next := s_connections s\<rparr>) =
      Some (s\<lparr>s_heap := ?h\<rparr>)"
    using c by (simp add: upd_conn_def)
  have data: "heap_data ?h = heap_data (s_heap s)" using c by (simp add: heap_data_upd)
  show thesis
  proof (cases ps)
    case Nil
    then show thesis
      using assms two c data by (intro that [of ?h]) (auto simp: list_insert_def upd_conn_def live_list_def)
  next
    case (Cons q qs)
    with assms(2) obtain d where d: "s_heap s q = Some d" "c_prev d = None" "c_next d = first_of qs None"
      using dseg_first by blast
    have pq: "p \<noteq> q" using assms(4) Cons by auto
    let ?h2 = "?h(q \<mapsto> d\<lparr>c_prev := Some p\<rparr>)"
    have "list_insert p s = Some (s\<lparr>s_heap := ?h2, s_connections := Some p\<rparr>)"
      using assms(1) two c d pq Cons by (simp add: list_insert_def upd_conn_def)
    moreover have "dseg ?h2 (Some p) ps None"
      using assms(2-4) d pq Cons by (auto simp: dseg_upd_links)
    then have "live_list (s\<lparr>s_heap := ?h2, s_connections := Some p\<rparr>) (p # ps)"
      using assms pq Cons d(1) c by (auto simp: live_list_def)
    moreover have "heap_data ?h2 = heap_data (s_heap s)" using data d pq by (metis fun_upd_other heap_data_upd conn_data_links(1))
    ultimately show thesis by (rule that)
  qed
qed

lemma list_remove_ok:
  assumes "live_list s (xs @ p # ys)"
  obtains h where "list_remove p s = Some (s\<lparr>s_heap := h, s_connections := first_of (xs @ ys) None\<rparr>)"
    "dseg h None (xs @ ys) None" "heap_data h = heap_data (s_heap s)" "dom h = dom (s_heap s)"
proof -
  let ?h = "s_heap s"
  from assms have dist: "distinct (xs @ p # ys)" and seg: "dseg ?h None xs (Some p)"
    "dseg ?h (last_of xs None) (p # ys) None" and fst: "s_connections s = first_of xs (Some p)"
    by (simp_all add: live_list_def dseg_append)
  from seg(2) obtain c where c: "?h p = Some c" "c_prev c = last_of xs None" "c_next c = first_of ys None"
    using dseg_first by blast
  have ys: "dseg ?h (Some p) ys None" using seg(2) by simp
  \<comment> \<open>unlink from the left\<close>
  obtain s1 h1 where s1: "s1 = s\<lparr>s_heap := h1, s_connections := first_of xs (first_of ys None)\<rparr>"
    "(case c_prev c of Some q \<Rightarrow> upd_conn q (\<lambda>d. d\<lparr>c_next := c_next c\<rparr>) s
      | None \<Rightarrow> Some (s\<lparr>s_connections := c_next c\<rparr>)) = Some s1"
    "dseg h1 None xs (first_of ys None)" "dseg h1 (Some p) ys None" "h1 p = Some c"
    "heap_data h1 = heap_data ?h" "dom h1 = dom ?h"
  proof (cases xs rule: rev_cases)
    case Nil
    then show thesis using c ys by (intro that [of _ ?h]) auto
  next
    case (snoc xs' a)
    then have "dseg ?h (last_of xs' None) [a] (Some p)" using seg(1) by (simp add: dseg_append)
    then obtain d where d: "?h a = Some d" using dseg_first by blast
    let ?h1 = "?h(a \<mapsto> d\<lparr>c_next := first_of ys None\<rparr>)"
    have "a \<noteq> p" "a \<notin> set ys" "a \<notin> set xs'" using dist snoc by auto
    then show thesis
      using c d ys snoc seg(1) dseg_relink_next [of ?h None xs' a "Some p" d "first_of ys None"] fst
      by (intro that [of "s\<lparr>s_heap := ?h1\<rparr>" ?h1]) (auto simp: upd_conn_some heap_data_upd first_of_def split: list.split)
  qed
  show thesis
  proof (cases ys)
    case Nil
    with s1 c show thesis by (intro that [of h1]) (auto simp: list_remove_def)
  next
    case (Cons b ys')
    with s1(4) obtain d where d: "h1 b = Some d" using dseg_first by blast
    let ?h2 = "h1(b \<mapsto> d\<lparr>c_prev := last_of xs None\<rparr>)"
    have b: "b \<noteq> p" "b \<notin> set xs" "b \<notin> set ys'" using dist Cons by auto
    then have "dseg ?h2 (last_of xs None) ys None"
      using s1(4) d Cons dseg_relink_prev [of h1 "Some p" b ys' None d "last_of xs None"] by simp
    moreover have "dseg ?h2 None xs (first_of ys None)" using s1(3) b by simp
    ultimately show thesis
      using s1 c d Cons b
      by (intro that [of ?h2]) (auto simp: list_remove_def upd_conn_some dseg_append heap_data_upd)
  qed
qed


section \<open>Closing a connection\<close>

text \<open>The descriptors a connection owns: its socket and the file it is sending.\<close>

definition owned :: "connection \<Rightarrow> int set" where
  "owned c = insert (c_fd c) (if 0 \<le> c_file_fd c then {c_file_fd c} else {})"

definition close_fds :: "int set \<Rightarrow> kernel \<Rightarrow> kernel" where
  "close_fds fds k = k\<lparr>k_fds := k_fds k - fds\<rparr>"

lemma conn_data_sel [simp]:
  "c_fd (conn_data c) = c_fd c" "c_file_fd (conn_data c) = c_file_fd c"
  "c_last_activity (conn_data c) = c_last_activity c" "owned (conn_data c) = owned c"
  by (simp_all add: conn_data_def owned_def)

lemma heap_data_eqD: "heap_data h p = heap_data h' p \<Longrightarrow> h' p = Some c \<Longrightarrow> \<exists>c'. h p = Some c' \<and> conn_data c' = conn_data c"
  by (auto simp: heap_data_def)

lemma release_file_body_close:
  "sys_close (c_fd (fst (release_file_body c k))) (snd (release_file_body c k)) = close_fds (owned c) k"
  by (simp add: release_file_body_def sys_close_def close_fds_def owned_def Let_def insert_commute flip: Diff_insert2)

lemma close_connection_ok:
  assumes "live_list s (xs @ p # ys)" "s_heap s p = Some c"
  obtains h where "close_connection p s =
      Some (s\<lparr>s_heap := h, s_connections := first_of (xs @ ys) None, s_kernel := close_fds (owned c) (s_kernel s)\<rparr>)"
    "live_list (s\<lparr>s_heap := h, s_connections := first_of (xs @ ys) None, s_kernel := close_fds (owned c) (s_kernel s)\<rparr>)
       (xs @ ys)"
    "heap_data h = (heap_data (s_heap s))(p := None)"
proof -
  obtain h where h: "list_remove p s = Some (s\<lparr>s_heap := h, s_connections := first_of (xs @ ys) None\<rparr>)"
    "dseg h None (xs @ ys) None" "heap_data h = heap_data (s_heap s)" "dom h = dom (s_heap s)"
    using list_remove_ok [OF assms(1)] .
  obtain c' where c': "h p = Some c'" "conn_data c' = conn_data c"
    using heap_data_eqD [of h p "s_heap s"] h(3) assms(2) by auto
  then have own: "owned c' = owned c" by (metis conn_data_sel(4))
  obtain c2 k2 where rel: "release_file_body c' (s_kernel s) = (c2, k2)" by fastforce
  have notin: "p \<notin> set (xs @ ys)" "distinct (xs @ ys)" "set (xs @ ys) = dom (s_heap s) - {p}"
    using assms(1) by (auto simp: live_list_def)
  show thesis
  proof (rule that [of "h(p := None)"])
    show "close_connection p s = Some (s\<lparr>s_heap := h(p := None), s_connections := first_of (xs @ ys) None,
        s_kernel := close_fds (owned c) (s_kernel s)\<rparr>)"
      using h(1) c'(1) release_file_body_close [of c' "s_kernel s"] own
      by (simp add: close_connection_def rel)
    show "live_list (s\<lparr>s_heap := h(p := None), s_connections := first_of (xs @ ys) None,
        s_kernel := close_fds (owned c) (s_kernel s)\<rparr>) (xs @ ys)"
      using h(2,4) notin by (simp add: live_list_def)
    show "heap_data (h(p := None)) = (heap_data (s_heap s))(p := None)"
      using h(3) by (auto simp: heap_data_def fun_eq_iff split: if_splits)
  qed
qed

section \<open>The registry as an interface\<close>

text \<open>
  What the loops over the list rely on: the abstract list of live connections, its first
  element, the successor of a node, and an operation that closes one of them, releasing the
  descriptors it owns and changing the contents of no other. The two loops of the code are
  given by their unfolding equations.
\<close>

locale live_registry =
  fixes rep :: "'s \<Rightarrow> nat list \<Rightarrow> bool"
    and head_ptr :: "'s \<Rightarrow> ptr"
    and node :: "'s \<Rightarrow> nat \<Rightarrow> 'c option"
    and succ :: "'c \<Rightarrow> ptr"
    and content :: "'s \<Rightarrow> nat \<Rightarrow> 'c option"
    and fds :: "'s \<Rightarrow> int set"
    and own :: "'c \<Rightarrow> int set"
    and stale :: "'s \<Rightarrow> 'c \<Rightarrow> bool"
    and close_node :: "nat \<Rightarrow> 's \<Rightarrow> 's option"
    and close_each :: "'s \<Rightarrow> 's option"
    and sweep :: "ptr \<Rightarrow> 's \<Rightarrow> 's option"
  assumes rep_first: "rep s ps \<Longrightarrow> head_ptr s = first_of ps None"
    and rep_node: "rep s (xs @ p # ys) \<Longrightarrow>
      \<exists>c d. node s p = Some c \<and> succ c = first_of ys None \<and> content s p = Some d \<and> own c = own d \<and>
        stale s c = stale s d"
    and rep_close: "rep s (xs @ p # ys) \<Longrightarrow> content s p = Some d \<Longrightarrow>
      \<exists>s'. close_node p s = Some s' \<and> rep s' (xs @ ys) \<and> content s' = (content s)(p := None) \<and>
        fds s' = fds s - own d \<and> stale s' = stale s"
    and rep_distinct: "rep s ps \<Longrightarrow> distinct ps"
    and close_each_unfold: "close_each s =
      (case head_ptr s of None \<Rightarrow> Some s | Some p \<Rightarrow> Option.bind (close_node p s) close_each)"
    and sweep_unfold: "sweep conn s =
      (case conn of None \<Rightarrow> Some s
       | Some p \<Rightarrow> Option.bind (node s p) (\<lambda>c.
           Option.bind (if stale s c then close_node p s else Some s) (sweep (succ c))))"
begin

definition stale_at :: "'s \<Rightarrow> nat \<Rightarrow> bool" where
  "stale_at s p \<longleftrightarrow> (\<exists>d. content s p = Some d \<and> stale s d)"

definition own_at :: "'s \<Rightarrow> nat \<Rightarrow> int set" where
  "own_at s p = (case content s p of None \<Rightarrow> {} | Some d \<Rightarrow> own d)"

lemma close_each_ok:
  "rep s ps \<Longrightarrow>
   \<exists>s'. close_each s = Some s' \<and> rep s' [] \<and> fds s' = fds s - (\<Union>p\<in>set ps. own_at s p)"
proof (induction ps arbitrary: s)
  case Nil
  then show ?case using rep_first [OF Nil] by (subst close_each_unfold) simp
next
  case (Cons p ps)
  have rep: "rep s ([] @ p # ps)" using Cons.prems by simp
  from rep_node [OF rep] obtain d where d: "content s p = Some d" by blast
  from rep_close [OF rep d] obtain s1 where s1: "close_node p s = Some s1" "rep s1 ps"
    "content s1 = (content s)(p := None)" "fds s1 = fds s - own d" by auto
  have "p \<notin> set ps" using rep_distinct [OF Cons.prems] by simp
  then have "own_at s1 q = own_at s q" if "q \<in> set ps" for q
    using that s1(3) by (cases "q = p") (simp_all add: own_at_def)
  then have "(\<Union>q\<in>set ps. own_at s1 q) = (\<Union>q\<in>set ps. own_at s q)" by simp
  with Cons.IH [OF s1(2)] s1 d rep_first [OF Cons.prems] show ?case
    by (subst close_each_unfold) (auto simp: own_at_def)
qed

lemma sweep_ok:
  "rep s (xs @ ys) \<Longrightarrow>
   \<exists>s'. sweep (first_of ys None) s = Some s' \<and> rep s' (xs @ filter (\<lambda>p. \<not> stale_at s p) ys) \<and>
     content s' = (\<lambda>p. if p \<in> set ys \<and> stale_at s p then None else content s p) \<and>
     fds s' = fds s - (\<Union>p\<in>{p \<in> set ys. stale_at s p}. own_at s p)"
proof (induction ys arbitrary: s xs)
  case Nil
  then show ?case by (subst sweep_unfold) simp
next
  case (Cons p ys)
  from rep_node [OF Cons.prems] obtain c d where c: "node s p = Some c" "succ c = first_of ys None"
    "content s p = Some d" "own c = own d" "stale s c = stale s d" by blast
  have p: "p \<notin> set ys" using rep_distinct [OF Cons.prems] by simp
  show ?case
  proof (cases "stale s c")
    case False
    have "rep s ((xs @ [p]) @ ys)" using Cons.prems by simp
    moreover have at: "\<not> stale_at s p" using c False by (simp add: stale_at_def)
    then have "{q \<in> set (p # ys). stale_at s q} = {q \<in> set ys. stale_at s q}"
      "(\<lambda>q. if q \<in> set (p # ys) \<and> stale_at s q then None else content s q) =
       (\<lambda>q. if q \<in> set ys \<and> stale_at s q then None else content s q)" by auto
    ultimately show ?thesis using Cons.IH [of s "xs @ [p]"] c False at
      unfolding sweep_unfold [of "first_of (p # ys) None" s] by simp
  next
    case True
    from rep_close [OF Cons.prems c(3)] obtain s1 where s1: "close_node p s = Some s1" "rep s1 (xs @ ys)"
      "content s1 = (content s)(p := None)" "fds s1 = fds s - own d" "stale s1 = stale s" by blast
    have stale1: "stale_at s1 q = stale_at s q" "own_at s1 q = own_at s q" if "q \<in> set ys" for q
      using that s1(3,5) p by (cases "q = p"; simp add: stale_at_def own_at_def)+
    have sets: "{q \<in> set ys. stale_at s1 q} = {q \<in> set ys. stale_at s q}" using stale1 by auto
    have filt: "filter (\<lambda>q. \<not> stale_at s1 q) ys = filter (\<lambda>q. \<not> stale_at s q) ys"
      using stale1 by (intro filter_cong) auto
    have at: "stale_at s p" "own_at s p = own d" using c True by (auto simp: stale_at_def own_at_def)
    have "(\<Union>q\<in>{q \<in> set ys. stale_at s1 q}. own_at s1 q) = (\<Union>q\<in>{q \<in> set ys. stale_at s q}. own_at s q)"
      unfolding sets using stale1(2) by auto
    moreover have "{q \<in> set (p # ys). stale_at s q} = insert p {q \<in> set ys. stale_at s q}" using at(1) by auto
    moreover have "(\<lambda>q. if q \<in> set ys \<and> stale_at s1 q then None else content s1 q) =
        (\<lambda>q. if q \<in> set (p # ys) \<and> stale_at s q then None else content s q)"
      using s1(3) stale1(1) at(1) p by (auto simp: fun_eq_iff)
    ultimately show ?thesis using Cons.IH [OF s1(2)] c True s1(1,4) filt at
      unfolding sweep_unfold [of "first_of (p # ys) None" s] by (simp add: Diff_eq Int_assoc)
  qed
qed

end

interpretation reg: live_registry live_list s_connections "\<lambda>s. s_heap s" c_next "\<lambda>s. heap_data (s_heap s)"
  "\<lambda>s. k_fds (s_kernel s)" owned "\<lambda>s c. now - c_last_activity c \<ge> s_idle_timeout_seconds s"
  close_connection close_all_connections "sweep_from now" for now
proof
  fix s ps xs p ys d
  show "live_list s ps \<Longrightarrow> s_connections s = first_of ps None" "live_list s ps \<Longrightarrow> distinct ps"
    by (simp_all add: live_list_def)
  show "live_list s (xs @ p # ys) \<Longrightarrow> \<exists>c d. s_heap s p = Some c \<and> c_next c = first_of ys None \<and>
      heap_data (s_heap s) p = Some d \<and> owned c = owned d \<and>
      (now - c_last_activity c \<ge> s_idle_timeout_seconds s) = (now - c_last_activity d \<ge> s_idle_timeout_seconds s)"
    by (auto simp: live_list_def dseg_append heap_data_def split: option.splits)
  show "\<exists>s'. close_connection p s = Some s' \<and> live_list s' (xs @ ys) \<and>
      heap_data (s_heap s') = (heap_data (s_heap s))(p := None) \<and> k_fds (s_kernel s') = k_fds (s_kernel s) - owned d \<and>
      (\<lambda>c. now - c_last_activity c \<ge> s_idle_timeout_seconds s') = (\<lambda>c. now - c_last_activity c \<ge> s_idle_timeout_seconds s)"
    if l: "live_list s (xs @ p # ys)" and d: "heap_data (s_heap s) p = Some d"
  proof -
    from d obtain c where c: "s_heap s p = Some c" "d = conn_data c" by (auto simp: heap_data_def)
    from close_connection_ok [OF l c(1)] c(2) show ?thesis by (force simp: close_fds_def)
  qed
qed (subst close_all_connections.simps sweep_from.simps, rule refl)+


section \<open>Properties\<close>

text \<open>Two connections in a list, for the witnesses.\<close>

definition demo_server :: server where
  "demo_server = \<lparr>s_epoll_fd = 4, s_listen_fd = 3, s_timer_fd = 6, s_idle_timeout_seconds = 30, s_worker_id = 0,
     s_connections = Some 1,
     s_heap = [1 \<mapsto> demo_conn\<lparr>c_next := Some 2, c_awaiting_writable := True\<rparr>,
               2 \<mapsto> demo_conn\<lparr>c_fd := 8, c_file_fd := -1, c_file_size := 0, c_prev := Some 1, c_last_activity := 10\<rparr>],
     s_kernel = demo_kernel\<lparr>k_fds := {3, 4, 5, 6, 7, 8}\<rparr>, s_root = demo_root\<rparr>"

lemma demo_server_live: "live_list demo_server [1, 2]"
  by (simp add: live_list_def demo_server_def demo_conn_def insert_commute)

text \<open>
  Insertion into the intrusive list. The new connection becomes the first of the live
  connections; the links are consistent in both directions, no other content changes and no
  freed node is touched.
\<close>

lemma list_insert_refines_cons:
  assumes "live_list (s\<lparr>s_heap := (s_heap s)(p := None)\<rparr>) ps" "s_heap s p = Some c"
  shows "\<exists>s'. list_insert p s = Some s' \<and> live_list s' (p # ps) \<and> heap_data (s_heap s') = heap_data (s_heap s) \<and>
    s_kernel s' = s_kernel s"
proof -
  have set: "set ps = dom (s_heap s) - {p}" "dseg ((s_heap s)(p := None)) None ps None" "distinct ps"
    "s_connections s = first_of ps None"
    using assms(1) by (simp_all add: live_list_def)
  then have p: "p \<notin> set ps" by blast
  have dom: "insert p (set ps) = dom (s_heap s)" using set(1) assms(2) by blast
  have seg: "dseg (s_heap s) None ps None" using set(2) p by simp
  obtain h where "list_insert p s = Some (s\<lparr>s_heap := h, s_connections := Some p\<rparr>)"
    "live_list (s\<lparr>s_heap := h, s_connections := Some p\<rparr>) (p # ps)" "heap_data h = heap_data (s_heap s)"
    using list_insert_ok [OF set(4) seg set(3) p dom] .
  then show ?thesis by (intro exI [of _ "s\<lparr>s_heap := h, s_connections := Some p\<rparr>"]) simp
qed

text \<open>
  C34. Closing a connection. The pointer is unlinked from wherever it is in the list, freed,
  and its socket and file descriptors, and only these, are released; no other connection
  changes but for its links.
\<close>

theorem close_connection_refines_remove:
  assumes "live_list s ps" "p \<in> set ps" "s_heap s p = Some c"
  shows "\<exists>s'. close_connection p s = Some s' \<and> live_list s' (remove1 p ps) \<and>
    heap_data (s_heap s') = (heap_data (s_heap s))(p := None) \<and>
    k_fds (s_kernel s') = k_fds (s_kernel s) - owned c"
proof -
  from assms(2) obtain xs ys where ps: "ps = xs @ p # ys" by (meson split_list)
  have "p \<notin> set xs" using assms(1) ps by (simp add: live_list_def)
  then have "remove1 p ps = xs @ ys" using ps by (simp add: remove1_append)
  with close_connection_ok [OF assms(1) [unfolded ps] assms(3)] show ?thesis
    by (force simp: close_fds_def)
qed

theorem close_connection_refines_remove_witness:
  "\<exists>s'. close_connection 1 demo_server = Some s' \<and> live_list s' (remove1 1 [1, 2]) \<and>
    heap_data (s_heap s') = (heap_data (s_heap demo_server))(1 := None) \<and>
    k_fds (s_kernel s') = k_fds (s_kernel demo_server) -
      owned (demo_conn\<lparr>c_next := Some 2, c_awaiting_writable := True\<rparr>)"
  by (rule close_connection_refines_remove [OF demo_server_live]) (simp_all add: demo_server_def)

text \<open>
  C35. The idle sweep ends and closes exactly the idle connections: those whose last activity
  is at least the timeout ago. The others keep their contents and their order, and exactly
  the descriptors of the closed ones are released.
\<close>

definition idle_at :: "int \<Rightarrow> server \<Rightarrow> nat \<Rightarrow> bool" where
  "idle_at now s p \<longleftrightarrow>
     (case s_heap s p of None \<Rightarrow> False | Some c \<Rightarrow> now - c_last_activity c \<ge> s_idle_timeout_seconds s)"

definition owned_at :: "server \<Rightarrow> nat \<Rightarrow> int set" where
  "owned_at s p = (case s_heap s p of None \<Rightarrow> {} | Some c \<Rightarrow> owned c)"

lemma reg_at: "reg.stale_at now s p = idle_at now s p" "reg.own_at s p = owned_at s p"
  by (auto simp: reg.stale_at_def reg.own_at_def idle_at_def owned_at_def heap_data_def split: option.splits)

lemma sweep_from_ok:
  assumes "live_list s ps"
  shows "\<exists>s'. sweep_from now (s_connections s) s = Some s' \<and> live_list s' (filter (\<lambda>p. \<not> idle_at now s p) ps) \<and>
    (\<forall>p. heap_data (s_heap s') p = (if idle_at now s p then None else heap_data (s_heap s) p)) \<and>
    k_fds (s_kernel s') = k_fds (s_kernel s) - (\<Union>p\<in>{p \<in> set ps. idle_at now s p}. owned_at s p)"
proof -
  have "s_connections s = first_of ps None" and dom: "set ps = dom (s_heap s)"
    using assms by (simp_all add: live_list_def)
  moreover have "idle_at now s p \<Longrightarrow> p \<in> set ps" for p
    using dom by (auto simp: idle_at_def split: option.splits)
  ultimately show ?thesis using reg.sweep_ok [of s "[]" ps now] assms unfolding reg_at by auto
qed

theorem sweep_closes_exactly_idle:
  assumes "live_list s ps"
  shows "\<exists>s' now. sweep_idle_connections s = Some s' \<and> now = fst (sys_time (s_kernel s)) \<and>
    live_list s' (filter (\<lambda>p. \<not> idle_at now s p) ps) \<and>
    (\<forall>p. heap_data (s_heap s') p = (if idle_at now s p then None else heap_data (s_heap s) p)) \<and>
    k_fds (s_kernel s') = k_fds (s_kernel s) - (\<Union>p\<in>{p \<in> set ps. idle_at now s p}. owned_at s p)"
proof -
  obtain now k where t: "sys_time (s_kernel s) = (now, k)" by fastforce
  then have k: "k_fds k = k_fds (s_kernel s)" by (auto simp: sys_time_def split: list.splits)
  let ?s = "s\<lparr>s_kernel := k\<rparr>"
  have "live_list ?s ps" using assms by (simp add: live_list_def)
  moreover have "idle_at now ?s = idle_at now s" "owned_at ?s = owned_at s"
    by (auto simp: fun_eq_iff idle_at_def owned_at_def split: option.split)
  ultimately show ?thesis using sweep_from_ok [of ?s ps now] t k
    by (auto simp: sweep_idle_connections_def)
qed

theorem sweep_closes_exactly_idle_witness:
  "\<exists>s' now. sweep_idle_connections demo_server = Some s' \<and> now = fst (sys_time (s_kernel demo_server)) \<and>
    live_list s' (filter (\<lambda>p. \<not> idle_at now demo_server p) [1, 2]) \<and>
    (\<forall>p. heap_data (s_heap s') p = (if idle_at now demo_server p then None else heap_data (s_heap demo_server) p)) \<and>
    k_fds (s_kernel s') =
      k_fds (s_kernel demo_server) - (\<Union>p\<in>{p \<in> set [1, 2]. idle_at now demo_server p}. owned_at demo_server p)"
  by (rule sweep_closes_exactly_idle [OF demo_server_live])

text \<open>
  C36. Shutdown. \<open>close_all_connections\<close> ends, frees every connection and releases exactly
  the descriptors the connections own.
\<close>

theorem close_all_releases_everything:
  assumes "live_list s ps"
  shows "\<exists>s'. close_all_connections s = Some s' \<and> s_connections s' = None \<and> s_heap s' = Map.empty \<and>
    k_fds (s_kernel s') = k_fds (s_kernel s) - (\<Union>p\<in>set ps. owned_at s p)"
  using reg.close_each_ok [OF assms] unfolding reg_at by (auto simp: live_list_def)

theorem close_all_releases_everything_witness:
  "\<exists>s'. close_all_connections demo_server = Some s' \<and> s_connections s' = None \<and> s_heap s' = Map.empty \<and>
    k_fds (s_kernel s') = k_fds (s_kernel demo_server) - (\<Union>p\<in>set [1, 2]. owned_at demo_server p)"
  by (rule close_all_releases_everything [OF demo_server_live])

end
