(* ===== verification/Event_Loop.thy ===== *)
theory Event_Loop
  imports Conn_List
begin

text \<open>
  The handlers of \<^verbatim>\<open>src/event_loop.c\<close> and the loop that dispatches epoll events to
  them. A handler maps a server to a server; \<open>None\<close> is an invalid access (outside an array,
  or to a freed connection) or a loop that does not return. A boolean result is the C
  return value: false if the connection was closed.
\<close>

section \<open>Responding\<close>

definition finish_after_response_sent :: "nat \<Rightarrow> server \<Rightarrow> (bool \<times> server) option" where
  "finish_after_response_sent p s =
     do {
       c \<leftarrow> s_heap s p;
       let (c1, k1) = release_file_body c (s_kernel s);
       let s1 = put_conn p c1 k1 s;
       if \<not> c_keep_alive_after_write c1 then do { s2 \<leftarrow> close_connection p s1; Some (False, s2) }
       else do {
         let (t, k2) = sys_time k1;
         let c2 = c1\<lparr>c_parser := http_parser_init, c_write_len := 0, c_write_sent := 0, c_last_activity := t\<rparr>;
         if c_awaiting_writable c2 then do {
           let (ok, k3) = sys_epoll_ctl k2;
           if \<not> ok then do { s3 \<leftarrow> close_connection p (put_conn p c2 k3 s1); Some (False, s3) }
           else Some (True, put_conn p (c2\<lparr>c_awaiting_writable := False\<rparr>) k3 s1)
         }
         else Some (True, put_conn p c2 k2 s1)
       }
     }"

definition send_response :: "nat \<Rightarrow> server \<Rightarrow> (bool \<times> server) option" where
  "send_response p s =
     do {
       c \<leftarrow> s_heap s p;
       (res, c1, k1) \<leftarrow> try_flush_response c (s_kernel s);
       let s1 = put_conn p c1 k1 s;
       (case res of
          Failed \<Rightarrow> do { s2 \<leftarrow> close_connection p s1; Some (False, s2) }
        | Blocked \<Rightarrow>
            do {
              let (ok, k2) = sys_epoll_ctl k1;
              if \<not> ok then do { s2 \<leftarrow> close_connection p (put_conn p c1 k2 s1); Some (False, s2) }
              else Some (True, put_conn p (c1\<lparr>c_awaiting_writable := True\<rparr>) k2 s1)
            }
        | Flushed \<Rightarrow> finish_after_response_sent p s1)
     }"

text \<open>
  The part of a turn of \<^verbatim>\<open>process_input\<close> that chooses the response: 400 for a
  malformed request, the route otherwise. The file system view and the content of a file
  that is opened are the kernel's.
\<close>

definition choose_response ::
  "server \<Rightarrow> http_request_parser \<Rightarrow> http_parse_result \<Rightarrow> (routed_response \<times> bool \<times> kernel) option" where
  "choose_response s parser result =
     (if result = HTTP_PARSE_ERROR
      then Some (simple_response 400 ''Bad Request'' ''Bad Request'' None, False, s_kernel s)
      else do {
        let ((fs, content), k) = sys_files (s_kernel s);
        (r, fds) \<leftarrow> route_request (s_root s) fs (k_fds k) parser;
        Some (r, http_parser_should_keep_alive parser,
              k\<lparr>k_fds := fds,
                k_content := (if f_fd (resp_file r) \<ge> 0
                              then (k_content k)(f_fd (resp_file r) := content) else k_content k)\<rparr>)
      })"

text \<open>
  The rest of the input is the remaining list. The input may come from the connection's own
  \<^verbatim>\<open>pending_input\<close>; nothing writes to that array before the input has been used.
\<close>

partial_function (option) process_input :: "nat \<Rightarrow> string \<Rightarrow> server \<Rightarrow> (bool \<times> server) option" where
  "process_input p data s =
     (if data = [] then Some (True, s)
      else Option.bind (s_heap s p) (\<lambda>c.
        Option.bind (http_parser_execute (c_parser c) data) (\<lambda>(parser, result, consumed).
          let c1 = c\<lparr>c_parser := parser\<rparr>; rest = drop consumed data
          in if result = HTTP_PARSE_INCOMPLETE then Some (True, put_conn p c1 (s_kernel s) s)
             else Option.bind (choose_response s parser result) (\<lambda>(r, keep_alive, k1).
               Option.bind (prepare_response c1 r keep_alive (s_worker_id s) k1) (\<lambda>(c2, k2).
                 Option.bind (send_response p (put_conn p c2 k2 s)) (\<lambda>(alive, s3).
                   if \<not> alive then Some (False, s3)
                   else Option.bind (s_heap s3 p) (\<lambda>c3.
                     if c_awaiting_writable c3
                     then Option.bind (stash_pending_input c3 rest) (\<lambda>c4.
                            Some (True, put_conn p c4 (s_kernel s3) s3))
                     else process_input p rest s3)))))))"

section \<open>Reading and resuming\<close>

partial_function (option) handle_client_readable :: "nat \<Rightarrow> server \<Rightarrow> server option" where
  "handle_client_readable p s =
     Option.bind (s_heap s p) (\<lambda>c.
       let (ans, k1) = sys_read READ_CHUNK_SIZE (s_kernel s)
       in case ans of
            Data buf \<Rightarrow>
              if buf = [] then close_connection p (put_conn p c k1 s)
              else let (t, k2) = sys_time k1
                   in Option.bind (process_input p buf (put_conn p (c\<lparr>c_last_activity := t\<rparr>) k2 s)) (\<lambda>(alive, s1).
                        if \<not> alive then Some s1
                        else Option.bind (s_heap s1 p) (\<lambda>c1.
                          if c_awaiting_writable c1 then Some s1 else handle_client_readable p s1))
          | Read_error e \<Rightarrow>
              if e = EINTR then handle_client_readable p (put_conn p c k1 s)
              else if e = EAGAIN then Some (put_conn p c k1 s)
              else close_connection p (put_conn p c k1 s))"

definition flush_pending_write :: "nat \<Rightarrow> server \<Rightarrow> server option" where
  "flush_pending_write p s =
     do {
       c \<leftarrow> s_heap s p;
       (res, c1, k1) \<leftarrow> try_flush_response c (s_kernel s);
       let s1 = put_conn p c1 k1 s;
       (case res of
          Failed \<Rightarrow> close_connection p s1
        | Blocked \<Rightarrow> Some s1
        | Flushed \<Rightarrow>
            do {
              (alive, s2) \<leftarrow> finish_after_response_sent p s1;
              if \<not> alive then Some s2
              else do {
                c2 \<leftarrow> s_heap s2 p;
                if c_pending_input_len c2 > 0 then
                  do {
                    data \<leftarrow> (if c_pending_input_len c2 \<le> READ_CHUNK_SIZE
                             then Some (array_str (c_pending_input c2) (c_pending_input_len c2)) else None);
                    (alive2, s3) \<leftarrow> process_input p data
                       (put_conn p (c2\<lparr>c_pending_input_len := 0\<rparr>) (s_kernel s2) s2);
                    Some s3
                  }
                else Some s2
              }
            })
     }"

section \<open>Accepting\<close>

definition new_connection :: "int \<Rightarrow> int \<Rightarrow> connection" where
  "new_connection fd now =
     \<lparr>c_fd = fd, c_parser = http_parser_init, c_prev = None, c_next = None, c_write_buf = zeroed,
      c_write_len = 0, c_write_sent = 0, c_keep_alive_after_write = False, c_awaiting_writable = False,
      c_file_fd = -1, c_file_offset = 0, c_file_size = 0, c_pending_input = zeroed,
      c_pending_input_len = 0, c_last_activity = now\<rparr>"

text \<open>\<^verbatim>\<open>malloc\<close>: a block that is in use is never returned.\<close>

definition sys_malloc :: "(nat \<rightharpoonup> connection) \<Rightarrow> kernel \<Rightarrow> nat option \<times> kernel" where
  "sys_malloc heap k =
     (case k_mallocs k of
        [] \<Rightarrow> (None, k)
      | a # q \<Rightarrow>
          ((case a of None \<Rightarrow> None | Some p \<Rightarrow> if heap p = None then Some p else None), k\<lparr>k_mallocs := q\<rparr>))"

partial_function (option) accept_new_connections :: "server \<Rightarrow> server option" where
  "accept_new_connections s =
     (let (ans, k1) = sys_accept (s_kernel s)
      in case ans of
           Accept_error e \<Rightarrow>
             if e = EAGAIN then Some (s\<lparr>s_kernel := k1\<rparr>)
             else if e = EINTR \<or> e = ECONNABORTED then accept_new_connections (s\<lparr>s_kernel := k1\<rparr>)
             else Some (s\<lparr>s_kernel := k1\<rparr>)
         | Accepted fd \<Rightarrow>
             let (block, k2) = sys_malloc (s_heap s) k1
             in case block of
                  None \<Rightarrow> accept_new_connections (s\<lparr>s_kernel := sys_close fd k2\<rparr>)
                | Some p \<Rightarrow>
                    let (t, k3) = sys_time k2
                    in Option.bind (list_insert p (put_conn p (new_connection fd t) k3 s)) (\<lambda>s1.
                         let (ok, k4) = sys_epoll_ctl (s_kernel s1); s2 = s1\<lparr>s_kernel := k4\<rparr>
                         in Option.bind (if ok then Some s2 else close_connection p s2)
                              (\<lambda>s3. accept_new_connections s3)))"

section \<open>Dispatch\<close>

text \<open>The \<^verbatim>\<open>data.ptr\<close> of an event, and whether it reports EPOLLERR or EPOLLHUP.\<close>

datatype event_source = Listen_fd | Timer_fd | Shutdown_fd | Conn nat

record epoll_event =
  ev_source :: event_source
  ev_error :: bool

datatype loop_control = Continue | Exit int

definition is_infrastructure_fd :: "event_source \<Rightarrow> bool" where
  "is_infrastructure_fd tag \<longleftrightarrow> tag = Listen_fd \<or> tag = Timer_fd \<or> tag = Shutdown_fd"

definition continue :: "server option \<Rightarrow> (loop_control \<times> server) option" where
  "continue r = map_option (\<lambda>s. (Continue, s)) r"

definition handle_event :: "epoll_event \<Rightarrow> server \<Rightarrow> (loop_control \<times> server) option" where
  "handle_event ev s =
     (if ev_error ev then
        (if is_infrastructure_fd (ev_source ev) then Some (Exit (-1), s)
         else (case ev_source ev of Conn p \<Rightarrow> continue (close_connection p s) | _ \<Rightarrow> None))
      else
        (case ev_source ev of
           Listen_fd \<Rightarrow> continue (accept_new_connections s)
         | Shutdown_fd \<Rightarrow> Some (Exit 0, s)
         | Timer_fd \<Rightarrow> continue (sweep_idle_connections s)
         | Conn p \<Rightarrow>
             do {
               c \<leftarrow> s_heap s p;
               if c_awaiting_writable c then continue (flush_pending_write p s)
               else continue (handle_client_readable p s)
             }))"

fun handle_events :: "epoll_event list \<Rightarrow> server \<Rightarrow> (loop_control \<times> server) option" where
  "handle_events [] s = Some (Continue, s)"
| "handle_events (ev # evs) s =
     do {
       (ctl, s1) \<leftarrow> handle_event ev s;
       (case ctl of Continue \<Rightarrow> handle_events evs s1 | Exit status \<Rightarrow> Some (Exit status, s1))
     }"

text \<open>
  The loop over the answers of \<^verbatim>\<open>epoll_wait\<close>. With no answer left the loop is
  still waiting. The result is the control that ended the loop, \<open>Continue\<close> while it waits.
\<close>

datatype wait_answer = Ready "epoll_event list" | Wait_error errno

fun wait_loop :: "wait_answer list \<Rightarrow> server \<Rightarrow> (loop_control \<times> server) option" where
  "wait_loop [] s = Some (Continue, s)"
| "wait_loop (Wait_error e # ws) s = (if e = EINTR then wait_loop ws s else Some (Exit 0, s))"
| "wait_loop (Ready evs # ws) s =
     do {
       (ctl, s1) \<leftarrow> handle_events evs s;
       (case ctl of Continue \<Rightarrow> wait_loop ws s1 | Exit status \<Rightarrow> Some (Exit status, s1))
     }"

section \<open>Running a loop\<close>

record event_loop_config =
  cfg_listen_fd :: int
  cfg_idle_timeout_seconds :: int
  cfg_shutdown_fd :: int
  cfg_worker_id :: int

text \<open>
  What the system calls of the set-up answer. A descriptor is \<open>None\<close> when the call fails;
  new descriptors are unused ones.
\<close>

record setup_answers =
  su_nonblocking :: bool
  su_epoll :: "int option"
  su_add_listen :: bool
  su_timer :: "int option"
  su_settime :: bool
  su_add_timer :: bool
  su_add_shutdown :: bool

definition open_fresh :: "int option \<Rightarrow> kernel \<Rightarrow> int option \<times> kernel" where
  "open_fresh a k =
     (case a of
        None \<Rightarrow> (None, k)
      | Some fd \<Rightarrow> if 0 \<le> fd \<and> fd \<notin> k_fds k then (Some fd, k\<lparr>k_fds := insert fd (k_fds k)\<rparr>) else (None, k))"

text \<open>
  The set-up of \<^verbatim>\<open>event_loop_run\<close>: the server that enters the loop, or the kernel
  that is left when the function returns -1.
\<close>

definition event_loop_setup ::
  "event_loop_config \<Rightarrow> setup_answers \<Rightarrow> static_root \<Rightarrow> kernel \<Rightarrow> kernel + server" where
  "event_loop_setup config su root k =
     (if \<not> su_nonblocking su then Inl k
      else case open_fresh (su_epoll su) k of
        (None, k1) \<Rightarrow> Inl k1
      | (Some epoll_fd, k1) \<Rightarrow>
          if \<not> su_add_listen su then Inl (sys_close epoll_fd k1)
          else case open_fresh (su_timer su) k1 of
            (None, k2) \<Rightarrow> Inl (sys_close epoll_fd k2)
          | (Some timer_fd, k2) \<Rightarrow>
              if \<not> su_settime su then Inl (sys_close epoll_fd (sys_close timer_fd k2))
              else if \<not> su_add_timer su then Inl (sys_close epoll_fd (sys_close timer_fd k2))
              else if cfg_shutdown_fd config \<ge> 0 \<and> \<not> su_add_shutdown su
              then Inl (sys_close epoll_fd (sys_close timer_fd k2))
              else Inr \<lparr>s_epoll_fd = epoll_fd, s_listen_fd = cfg_listen_fd config, s_timer_fd = timer_fd,
                        s_idle_timeout_seconds = cfg_idle_timeout_seconds config,
                        s_worker_id = cfg_worker_id config, s_connections = None, s_heap = Map.empty,
                        s_kernel = k2, s_root = root\<rparr>)"

datatype run_outcome = Running server | Returned int server | Not_started kernel

definition event_loop_run ::
  "event_loop_config \<Rightarrow> setup_answers \<Rightarrow> wait_answer list \<Rightarrow> static_root \<Rightarrow> kernel \<Rightarrow> run_outcome option" where
  "event_loop_run config su waits root k =
     (case event_loop_setup config su root k of
        Inl k' \<Rightarrow> Some (Not_started k')
      | Inr s \<Rightarrow>
          do {
            (ctl, s1) \<leftarrow> wait_loop waits s;
            (case ctl of
               Continue \<Rightarrow> Some (Running s1)
             | Exit status \<Rightarrow>
                 do {
                   s2 \<leftarrow> close_all_connections s1;
                   Some (Returned status
                     (s2\<lparr>s_kernel := sys_close (s_epoll_fd s2) (sys_close (s_timer_fd s2) (s_kernel s2))\<rparr>))
                 })
          })"

end
