(* ===== verification/Loop_Safety.thy ===== *)
theory Loop_Safety
  imports Event_Loop
begin

text \<open>
  The invariant of a running event loop and its preservation by every handler: the list of
  live connections is intact, every connection is well-formed, and the open descriptors are
  exactly the ones of the infrastructure and of the connections, each owned once. Each
  lemma also says that the handler returns, without an invalid access.
\<close>

section \<open>The invariant\<close>

definition wf_conn :: "connection \<Rightarrow> bool" where
  "wf_conn c \<longleftrightarrow>
     wf_parser (c_parser c) \<and> c_write_sent c \<le> c_write_len c \<and> c_write_len c \<le> RESPONSE_BUF_SIZE \<and>
     0 \<le> c_file_offset c \<and> c_file_offset c \<le> c_file_size c \<and> c_pending_input_len c \<le> READ_CHUNK_SIZE \<and>
     0 \<le> c_fd c \<and> c_file_fd c \<noteq> c_fd c \<and> -1 \<le> c_file_fd c"

text \<open>
  Between two events, a connection that is not waiting to write has no file and its parser
  is in the middle of a request.
\<close>

definition settled :: "connection \<Rightarrow> bool" where
  "settled c \<longleftrightarrow> c_awaiting_writable c \<or> c_file_fd c = -1 \<and> \<not> terminal (p_state (c_parser c))"

text \<open>Ownership of descriptors: \<open>own\<close> gives the ones of each connection.\<close>

definition fd_inv :: "int set \<Rightarrow> (nat \<Rightarrow> int set) \<Rightarrow> int set \<Rightarrow> bool" where
  "fd_inv base own fds \<longleftrightarrow>
     fds = base \<union> (\<Union>p. own p) \<and> (\<forall>p. own p \<inter> base = {}) \<and> (\<forall>p q. p \<noteq> q \<longrightarrow> own p \<inter> own q = {})"

text \<open>What the handlers do not change: the configuration and the queues of other calls.\<close>

type_synonym config = "int \<times> int \<times> int \<times> int \<times> int \<times> static_root"
type_synonym queues = "read_answer list \<times> accept_answer list \<times> nat option list"

definition config_of :: "server \<Rightarrow> config" where
  "config_of s = (s_epoll_fd s, s_listen_fd s, s_timer_fd s, s_idle_timeout_seconds s, s_worker_id s, s_root s)"

definition queues_of :: "kernel \<Rightarrow> queues" where
  "queues_of k = (k_reads k, k_accepts k, k_mallocs k)"

definition config_ok :: "server \<Rightarrow> bool" where
  "config_ok s \<longleftrightarrow> wf_root (s_root s) \<and> \<bar>s_worker_id s\<bar> < 2 ^ 31"

text \<open>
  The invariant, for the live connections \<open>ps\<close>; the connections in \<open>X\<close> are in the middle of
  a response and need not be settled.
\<close>

definition loop_inv :: "config \<times> queues \<times> int set \<Rightarrow> nat set \<Rightarrow> nat list \<Rightarrow> server \<Rightarrow> bool" where
  "loop_inv ctx X ps s \<longleftrightarrow>
     (case ctx of (cfg, qs, base) \<Rightarrow>
        config_of s = cfg \<and> config_ok s \<and> queues_of (s_kernel s) = qs \<and> live_list s ps \<and>
        fd_inv base (owned_at s) (k_fds (s_kernel s)) \<and>
        (\<forall>p c. s_heap s p = Some c \<longrightarrow> wf_conn c \<and> (p \<in> X \<or> settled c)))"

lemma fd_inv_update:
  assumes "fd_inv base own fds" "new \<inter> (fds - own p) = {}"
  shows "fd_inv base (own(p := new)) ((fds - own p) \<union> new)"
proof -
  have fds: "fds = base \<union> (\<Union>q. own q)" and base: "\<And>q. own q \<inter> base = {}"
    and dis: "\<And>q r. q \<noteq> r \<Longrightarrow> own q \<inter> own r = {}"
    using assms(1) by (auto simp: fd_inv_def)
  have other: "own q \<subseteq> fds - own p" if "q \<noteq> p" for q using that fds dis [of q p] by blast
  have "fds - own p \<union> new = base \<union> (\<Union>q. (own(p := new)) q)"
    using fds base [of p] dis by (auto split: if_splits) (metis disjoint_iff)
  moreover have "(own(p := new)) q \<inter> base = {}" for q
    using base [of q] base [of p] fds assms(2) by auto
  moreover have "(own(p := new)) q \<inter> (own(p := new)) r = {}" if "q \<noteq> r" for q r
    using that dis [OF that] other [of q] other [of r] assms(2) by auto
  ultimately show ?thesis unfolding fd_inv_def by blast
qed

lemma fd_inv_owned: "fd_inv base own fds \<Longrightarrow> own p \<subseteq> fds"
  by (auto simp: fd_inv_def)

lemma put_conn_sel [simp]:
  "s_heap (put_conn p c k s) = (s_heap s)(p \<mapsto> c)" "s_kernel (put_conn p c k s) = k"
  "s_root (put_conn p c k s) = s_root s" "s_worker_id (put_conn p c k s) = s_worker_id s"
  "s_connections (put_conn p c k s) = s_connections s" "config_of (put_conn p c k s) = config_of s"
  "config_ok (put_conn p c k s) = config_ok s"
  "put_conn p c' k' (put_conn p c k s) = put_conn p c' k' s"
  by (simp_all add: put_conn_def config_of_def config_ok_def)

lemma live_list_put:
  "live_list s ps \<Longrightarrow> s_heap s p = Some c \<Longrightarrow> c_prev c' = c_prev c \<Longrightarrow> c_next c' = c_next c \<Longrightarrow>
   live_list (put_conn p c' k s) ps"
  by (auto simp: live_list_def dseg_upd_links)

lemma owned_at_put: "owned_at (put_conn p c k s) = (owned_at s)(p := owned c)"
  by (auto simp: owned_at_def fun_eq_iff)

lemma owned_at_some: "s_heap s p = Some c \<Longrightarrow> owned_at s p = owned c"
  by (simp add: owned_at_def)

text \<open>Changing one connection, with a change of its descriptors.\<close>

lemma loop_inv_put:
  assumes "loop_inv (cfg, qs, base) X ps s" "s_heap s p = Some c" "c_prev c' = c_prev c" "c_next c' = c_next c"
    "wf_conn c'" "p \<in> X' \<or> settled c'" "X \<subseteq> insert p X'" "queues_of k' = qs'"
    "k_fds k' = (k_fds (s_kernel s) - owned c) \<union> owned c'" "owned c' \<inter> (k_fds (s_kernel s) - owned c) = {}"
  shows "loop_inv (cfg, qs', base) X' ps (put_conn p c' k' s)"
proof -
  have "fd_inv base (owned_at s) (k_fds (s_kernel s))" using assms(1) by (simp add: loop_inv_def)
  from fd_inv_update [OF this, of "owned c'" p]
  have "fd_inv base (owned_at (put_conn p c' k' s)) (k_fds k')"
    using assms(2,9,10) by (simp add: owned_at_put owned_at_some)
  moreover have "live_list (put_conn p c' k' s) ps"
    using assms(1-4) live_list_put by (simp add: loop_inv_def)
  ultimately show ?thesis using assms(1,5-8) by (auto simp: loop_inv_def)
qed

lemma loop_inv_put_same:
  assumes "loop_inv (cfg, qs, base) X ps s" "s_heap s p = Some c" "c_prev c' = c_prev c" "c_next c' = c_next c"
    "wf_conn c'" "p \<in> X' \<or> settled c'" "X \<subseteq> insert p X'" "queues_of k' = qs'"
    "k_fds k' = k_fds (s_kernel s)" "owned c' = owned c"
  shows "loop_inv (cfg, qs', base) X' ps (put_conn p c' k' s)"
proof -
  have "fd_inv base (owned_at s) (k_fds (s_kernel s))" using assms(1) by (simp add: loop_inv_def)
  then have "owned c \<subseteq> k_fds (s_kernel s)" using fd_inv_owned owned_at_some [OF assms(2)] by metis
  then show ?thesis using assms by (intro loop_inv_put [OF assms(1,2)]) auto
qed


lemma owned_upd [simp]:
  "owned (c\<lparr>c_awaiting_writable := b\<rparr>) = owned c" "owned (c\<lparr>c_parser := q\<rparr>) = owned c"
  "owned (c\<lparr>c_last_activity := t\<rparr>) = owned c" "owned (c\<lparr>c_pending_input_len := n\<rparr>) = owned c"
  "owned (c\<lparr>c_pending_input := a\<rparr>) = owned c"
  by (simp_all add: owned_def)

lemma wf_conn_upd [simp]:
  "wf_conn (c\<lparr>c_awaiting_writable := b\<rparr>) = wf_conn c" "wf_conn (c\<lparr>c_last_activity := t\<rparr>) = wf_conn c"
  "wf_conn (c\<lparr>c_pending_input := a\<rparr>) = wf_conn c"
  by (simp_all add: wf_conn_def)

section \<open>Closing\<close>

lemma wf_conn_data [simp]: "wf_conn (conn_data c) = wf_conn c" "settled (conn_data c) = settled c"
  by (simp_all add: conn_data_def wf_conn_def settled_def)

lemma owned_at_data: "owned_at s p = (case heap_data (s_heap s) p of None \<Rightarrow> {} | Some c \<Rightarrow> owned c)"
  by (auto simp: owned_at_def heap_data_def split: option.split)

lemma queues_close_fds [simp]: "queues_of (close_fds fds k) = queues_of k" "k_fds (close_fds fds k) = k_fds k - fds"
  by (simp_all add: queues_of_def close_fds_def)

lemma loop_inv_live: "loop_inv ctx X ps s \<Longrightarrow> live_list s ps"
  by (auto simp: loop_inv_def)

lemma live_lookup: "live_list s ps \<Longrightarrow> p \<in> set ps \<Longrightarrow> \<exists>c. s_heap s p = Some c"
  by (auto simp: live_list_def)

lemma loop_inv_lookup:
  assumes "loop_inv ctx X ps s" "p \<in> set ps"
  obtains c where "s_heap s p = Some c" "wf_conn c" "p \<in> X \<or> settled c"
  using live_lookup [OF loop_inv_live [OF assms(1)] assms(2)] assms(1) by (auto simp: loop_inv_def)

lemma close_connection_inv:
  assumes "loop_inv ctx X ps s" "p \<in> set ps"
  shows "\<exists>s'. close_connection p s = Some s' \<and> loop_inv ctx (X - {p}) (remove1 p ps) s'"
proof -
  obtain cfg qs base where ctx: "ctx = (cfg, qs, base)" by (cases ctx)
  from assms(2) obtain xs ys where ps: "ps = xs @ p # ys" by (meson split_list)
  have live: "live_list s (xs @ p # ys)" using loop_inv_live [OF assms(1)] ps by simp
  then have rem: "remove1 p ps = xs @ ys" using ps by (simp add: live_list_def remove1_append)
  obtain c where c: "s_heap s p = Some c" "wf_conn c" using loop_inv_lookup [OF assms] by blast
  obtain h where h: "close_connection p s =
      Some (s\<lparr>s_heap := h, s_connections := first_of (xs @ ys) None, s_kernel := close_fds (owned c) (s_kernel s)\<rparr>)"
    "live_list (s\<lparr>s_heap := h, s_connections := first_of (xs @ ys) None, s_kernel := close_fds (owned c) (s_kernel s)\<rparr>)
       (xs @ ys)"
    "heap_data h = (heap_data (s_heap s))(p := None)"
    using close_connection_ok [OF live c(1)] .
  let ?s = "s\<lparr>s_heap := h, s_connections := first_of (xs @ ys) None, s_kernel := close_fds (owned c) (s_kernel s)\<rparr>"
  have "fd_inv base ((owned_at s)(p := {})) ((k_fds (s_kernel s) - owned_at s p) \<union> {})"
    using assms(1) ctx by (intro fd_inv_update) (simp_all add: loop_inv_def)
  moreover have "owned_at ?s = (owned_at s)(p := {})"
    using h(3) by (auto simp: owned_at_data fun_eq_iff)
  ultimately have fds: "fd_inv base (owned_at ?s) (k_fds (s_kernel ?s))"
    using owned_at_some [OF c(1)] by simp
  have conns: "wf_conn d \<and> (q \<in> X - {p} \<or> settled d)" if "h q = Some d" for q d
  proof -
    have "heap_data h q = Some (conn_data d)" using that by (simp add: heap_data_def)
    then obtain d' where "q \<noteq> p" "s_heap s q = Some d'" "conn_data d' = conn_data d"
      using h(3) by (auto simp: heap_data_def split: if_splits)
    moreover from this have "wf_conn d' \<and> (q \<in> X \<or> settled d')" using assms(1) ctx by (simp add: loop_inv_def)
    moreover have "wf_conn d = wf_conn d'" "settled d = settled d'" using calculation(3) wf_conn_data by metis+
    ultimately show ?thesis by blast
  qed
  have "loop_inv ctx (X - {p}) (xs @ ys) ?s"
    using assms(1) ctx h(2) fds conns
    by (simp add: loop_inv_def config_of_def config_ok_def)
  with h(1) rem show ?thesis by simp
qed


section \<open>Finishing and sending a response\<close>

abbreviation released :: "connection \<Rightarrow> connection" where
  "released c \<equiv> c\<lparr>c_file_fd := -1, c_file_offset := 0, c_file_size := 0\<rparr>"

lemma release_file_body_eq:
  assumes "wf_conn c"
  shows "release_file_body c k = (released c, close_fds (owned c - {c_fd c}) k)"
proof (cases "0 \<le> c_file_fd c")
  case True
  moreover have "owned c - {c_fd c} = {c_file_fd c}" using True assms by (auto simp: owned_def wf_conn_def)
  ultimately show ?thesis by (simp add: release_file_body_def sys_close_def close_fds_def)
next
  case False
  then have m1: "c_file_fd c = -1" and own: "owned c - {c_fd c} = {}"
    using assms by (auto simp: owned_def wf_conn_def)
  have eq: "c\<lparr>c_file_offset := 0, c_file_size := 0\<rparr> = released c"
    by (rule connection.equality) (simp_all add: m1)
  have none: "close_fds {} k = k" by (simp add: close_fds_def)
  have "release_file_body c k = (c\<lparr>c_file_offset := 0, c_file_size := 0\<rparr>, k)"
    using False by (simp add: release_file_body_def)
  then show ?thesis by (simp only: eq own none)
qed

lemma owned_released: "owned (released c) = {c_fd c}"
  by (simp add: owned_def)

lemma sys_time_frame: "sys_time k = (t, k') \<Longrightarrow> queues_of k' = queues_of k \<and> k_fds k' = k_fds k"
  by (auto simp: sys_time_def queues_of_def split: list.splits)

lemma sys_ctl_frame: "sys_epoll_ctl k = (ok, k') \<Longrightarrow> queues_of k' = queues_of k \<and> k_fds k' = k_fds k"
  by (auto simp: sys_epoll_ctl_def queues_of_def split: list.splits)

text \<open>
  The outcome of a handler on connection \<open>p\<close>: it is closed, or kept and settled; \<open>busy\<close> says
  whether it may be waiting to write.
\<close>

definition handled :: "config \<times> queues \<times> int set \<Rightarrow> nat list \<Rightarrow> nat \<Rightarrow> (bool \<times> server) option \<Rightarrow> bool" where
  "handled ctx ps p r \<longleftrightarrow>
     (\<exists>alive s'. r = Some (alive, s') \<and> loop_inv ctx {} (if alive then ps else remove1 p ps) s')"

lemma handled_close:
  assumes "loop_inv ctx {p} ps s" "p \<in> set ps"
  shows "handled ctx ps p (Option.bind (close_connection p s) (\<lambda>s'. Some (False, s')))"
  using close_connection_inv [OF assms] by (auto simp: handled_def)

lemma handled_keep: "loop_inv ctx {} ps s \<Longrightarrow> handled ctx ps p (Some (True, s))"
  by (simp add: handled_def exI [of "\<lambda>x. x" True])

lemma handled_closed: "loop_inv ctx {} (remove1 p ps) s \<Longrightarrow> handled ctx ps p (Some (False, s))"
  by (simp add: handled_def exI [of Not False])

lemma loop_inv_fd_in:
  assumes "loop_inv (cfg, qs, base) X ps s" "s_heap s p = Some c"
  shows "owned c \<subseteq> k_fds (s_kernel s)"
  using assms fd_inv_owned [of base "owned_at s" "k_fds (s_kernel s)" p]
  by (simp add: loop_inv_def owned_at_some)

text \<open>The result of finishing, for a well-formed connection.\<close>

definition restarted :: "connection \<Rightarrow> int \<Rightarrow> connection" where
  "restarted c t = (released c)\<lparr>c_parser := http_parser_init, c_write_len := 0, c_write_sent := 0, c_last_activity := t\<rparr>"

lemma finish_eq:
  assumes "s_heap s p = Some c" "wf_conn c" "sys_time (close_fds (owned c - {c_fd c}) (s_kernel s)) = (t, k2)"
    "sys_epoll_ctl k2 = (ok, k3)"
  shows "finish_after_response_sent p s =
    (if \<not> c_keep_alive_after_write c
     then Option.bind (close_connection p (put_conn p (released c) (close_fds (owned c - {c_fd c}) (s_kernel s)) s))
            (\<lambda>s'. Some (False, s'))
     else if c_awaiting_writable c
     then (if \<not> ok then Option.bind (close_connection p (put_conn p (restarted c t) k3 s)) (\<lambda>s'. Some (False, s'))
           else Some (True, put_conn p ((restarted c t)\<lparr>c_awaiting_writable := False\<rparr>) k3 s))
     else Some (True, put_conn p (restarted c t) k2 s))"
  by (simp add: finish_after_response_sent_def release_file_body_eq assms restarted_def)

lemma finish_inv:
  assumes inv: "loop_inv (cfg, qs, base) {p} ps s" and p: "p \<in> set ps"
  shows "handled (cfg, qs, base) ps p (finish_after_response_sent p s)"
proof -
  obtain c where c: "s_heap s p = Some c" "wf_conn c" using loop_inv_lookup [OF inv p] by blast
  let ?c1 = "released c" and ?k1 = "close_fds (owned c - {c_fd c}) (s_kernel s)"
  have fd: "c_fd c \<in> k_fds (s_kernel s)" using loop_inv_fd_in [OF inv c(1)] by (simp add: owned_def)
  have qs: "queues_of (s_kernel s) = qs" using inv by (simp add: loop_inv_def)
  have wf1: "wf_conn ?c1" using c(2) by (simp add: wf_conn_def)
  have put: "loop_inv (cfg, qs, base) X ps (put_conn p d k s)"
    if "c_prev d = c_prev c" "c_next d = c_next c" "wf_conn d" "p \<in> X \<or> settled d"
      "queues_of k = qs" "k_fds k = k_fds ?k1" "owned d = {c_fd c}" for d k X
  proof (rule loop_inv_put [OF inv c(1) that(1-4) _ that(5)])
    show "{p} \<subseteq> insert p X" by simp
    show "k_fds k = k_fds (s_kernel s) - owned c \<union> owned d"
      using that(6,7) fd by (auto simp: owned_def)
    show "owned d \<inter> (k_fds (s_kernel s) - owned c) = {}" using that(7) by (auto simp: owned_def)
  qed
  have inv1: "loop_inv (cfg, qs, base) {p} ps (put_conn p ?c1 ?k1 s)"
    using wf1 qs by (intro put) (simp_all add: owned_released)
  obtain t k2 where t: "sys_time ?k1 = (t, k2)" by fastforce
  obtain ok k3 where ok: "sys_epoll_ctl k2 = (ok, k3)" by fastforce
  let ?c2 = "restarted c t"
  have c2: "c_prev ?c2 = c_prev c" "c_next ?c2 = c_next c" "c_file_fd ?c2 = -1" "c_parser ?c2 = http_parser_init"
    "c_awaiting_writable ?c2 = c_awaiting_writable c" by (simp_all add: restarted_def)
  have wf2: "wf_conn ?c2" "owned ?c2 = {c_fd c}" using c(2) by (simp_all add: wf_conn_def owned_def restarted_def)
  have init: "\<not> terminal (p_state http_parser_init)" by (simp add: http_parser_init_def)
  have k: "queues_of k2 = qs" "k_fds k2 = k_fds ?k1" "queues_of k3 = qs" "k_fds k3 = k_fds ?k1"
    using sys_time_frame [OF t] sys_ctl_frame [OF ok] qs by simp_all
  have inv2: "loop_inv (cfg, qs, base) {p} ps (put_conn p ?c2 k3 s)"
    using wf2 k c2 by (intro put) simp_all
  have inv3: "loop_inv (cfg, qs, base) {} ps (put_conn p (?c2\<lparr>c_awaiting_writable := False\<rparr>) k3 s)"
    using wf2 k init c2 by (intro put) (simp_all add: settled_def)
  have inv4: "loop_inv (cfg, qs, base) {} ps (put_conn p ?c2 k2 s)" if "\<not> c_awaiting_writable c"
    using wf2 k init that c2 by (intro put) (simp_all add: settled_def)
  note eq = finish_eq [OF c t ok]
  show ?thesis
    unfolding eq using handled_close [OF inv1 p] handled_close [OF inv2 p] handled_keep [OF inv3]
      handled_keep [OF inv4] by simp
qed


lemma queues_kernel_rest: "kernel_rest k' = kernel_rest k \<Longrightarrow> queues_of k' = queues_of k"
  unfolding queues_of_def by (metis kernel_rest_sel(1-3))

lemma flush_keeps:
  assumes "wf_conn c"
  obtains res c1 k1 where "try_flush_response c k = Some (res, c1, k1)" "wf_conn c1" "owned c1 = owned c"
    "c_prev c1 = c_prev c" "c_next c1 = c_next c" "k_fds k1 = k_fds k" "queues_of k1 = queues_of k"
    "c_awaiting_writable c1 = c_awaiting_writable c"
proof -
  have "conn_sendable (c, k)" using assms by (simp add: conn_sendable_def wf_conn_def)
  then obtain res c1 k1 where s: "try_flush_response c k = Some (res, c1, k1)" "sends_only conn_rest c k c1 k1"
    "conn_sendable (c1, k1)"
    using try_flush_response_sends unfolding sends_def by blast
  note D = sends_onlyD [OF s(2)]
  have "wf_conn c1" using assms s(3) unfolding wf_conn_def conn_sendable_def by (simp add: D)
  moreover have "queues_of k1 = queues_of k" using s(2) by (intro queues_kernel_rest) (simp add: sends_only_def)
  moreover have "owned c1 = owned c" by (simp add: owned_def D)
  ultimately show thesis using D(3,4,8,15) by (intro that [OF s(1)])
qed

lemma send_response_inv:
  assumes inv: "loop_inv (cfg, qs, base) {p} ps s" and p: "p \<in> set ps"
  shows "handled (cfg, qs, base) ps p (send_response p s)"
proof -
  obtain c where c: "s_heap s p = Some c" "wf_conn c" using loop_inv_lookup [OF inv p] by blast
  have qs: "queues_of (s_kernel s) = qs" using inv by (simp add: loop_inv_def)
  obtain res c1 k1 where f: "try_flush_response c (s_kernel s) = Some (res, c1, k1)" "wf_conn c1" "owned c1 = owned c"
    "c_prev c1 = c_prev c" "c_next c1 = c_next c" "k_fds k1 = k_fds (s_kernel s)" "queues_of k1 = qs"
    using flush_keeps [OF c(2), of "s_kernel s"] qs by metis
  obtain ok k2 where ok: "sys_epoll_ctl k1 = (ok, k2)" by fastforce
  have k2: "queues_of k2 = qs" "k_fds k2 = k_fds (s_kernel s)" using sys_ctl_frame [OF ok] f by simp_all
  have inv1: "loop_inv (cfg, qs, base) {p} ps (put_conn p c1 k1 s)"
    by (rule loop_inv_put_same [OF inv c(1) f(4,5,2) _ _ f(7,6,3)]) simp_all
  have inv2: "loop_inv (cfg, qs, base) {p} ps (put_conn p c1 k2 s)"
    by (rule loop_inv_put_same [OF inv c(1) f(4,5,2) _ _ k2 f(3)]) simp_all
  have inv3: "loop_inv (cfg, qs, base) {} ps (put_conn p (c1\<lparr>c_awaiting_writable := True\<rparr>) k2 s)"
    by (rule loop_inv_put_same [OF inv c(1) _ _ _ _ _ k2])
       (use f in \<open>simp_all add: settled_def\<close>)
  show ?thesis
    using c(1) f(1) ok finish_inv [OF inv1 p] handled_close [OF inv1 p] handled_close [OF inv2 p] handled_keep [OF inv3]
    by (cases res) (simp_all add: send_response_def Let_def)
qed

lemma finish_not_waiting:
  "finish_after_response_sent p s = Some (True, s') \<Longrightarrow> \<exists>c. s_heap s' p = Some c \<and> \<not> c_awaiting_writable c"
  by (auto simp: finish_after_response_sent_def release_file_body_def Let_def Option.bind_eq_Some_conv
      split: if_splits prod.splits)

section \<open>Processing input\<close>

lemma spec_run_consumed: "spec_run r data = (r', n) \<Longrightarrow> n \<le> length data"
  by (induction r data arbitrary: r' n rule: spec_run.induct) (auto split: if_splits prod.splits)

lemma spec_run_progress: "spec_run r data = (r', n) \<Longrightarrow> \<not> terminal (r_state r) \<Longrightarrow> data \<noteq> [] \<Longrightarrow> 0 < n"
  by (cases data) (auto split: prod.splits)

lemma execute_progress:
  assumes "wf_parser p" "\<not> terminal (p_state p)" "data \<noteq> []"
  obtains q n where "http_parser_execute p data = Some (q, result_of (p_state q), n)" "wf_parser q"
    "0 < n" "n \<le> length data"
proof -
  obtain q r n where q: "http_parser_execute p data = Some (q, r, n)" "wf_parser q"
    "spec_run (abs_parser p) data = (abs_parser q, n)" "r = result_of (p_state q)"
    using http_parser_execute_Some [OF assms(1)] .
  moreover have "0 < n" using spec_run_progress [OF q(3)] assms(2,3) by (simp add: abs_parser_def)
  ultimately show thesis using that spec_run_consumed [OF q(3)] by blast
qed

lemma fresh_view_sizes: "fs_sizes (fresh_view fds fs)" "fs_sizes no_files"
  by (auto simp: fs_sizes_def fresh_view_def no_files_def split: option.splits if_splits)

lemma choose_response_ok:
  assumes "config_ok s" "wf_parser parser"
  obtains r keep_alive k where "choose_response s parser result = Some (r, keep_alive, k)" "wf_response r"
    "k_fds k = k_fds (s_kernel s) \<union> file_fds (resp_file r)" "file_fds (resp_file r) \<inter> k_fds (s_kernel s) = {}"
    "queues_of k = queues_of (s_kernel s)"
proof (cases "result = HTTP_PARSE_ERROR")
  case True
  then show thesis
    by (intro that [of "simple_response 400 ''Bad Request'' ''Bad Request'' None" False "s_kernel s"])
       (simp_all add: choose_response_def file_fds_def wf_simple_response plain_text_def)
next
  case False
  obtain fs content k where k: "sys_files (s_kernel s) = ((fs, content), k)" by (metis prod.exhaust)
  then have fr: "k_fds k = k_fds (s_kernel s)" "queues_of k = queues_of (s_kernel s)"
    "fs_opens_fresh fs (k_fds k)" "fs_sizes fs"
    by (auto simp: sys_files_def queues_of_def no_files_opens_fresh fresh_view_opens_fresh fresh_view_sizes
        split: list.splits)
  from route_request_ok [OF assms(2) _ fr(3,4), of "s_root s"] assms(1)
  obtain r where r: "route_request (s_root s) fs (k_fds k) parser = Some (r, k_fds k \<union> file_fds (resp_file r))"
    "wf_response r" "file_fds (resp_file r) \<inter> k_fds k = {}"
    by (auto simp: config_ok_def)
  let ?k = "k\<lparr>k_fds := k_fds k \<union> file_fds (resp_file r),
       k_content := (if f_fd (resp_file r) \<ge> 0 then (k_content k)(f_fd (resp_file r) := content) else k_content k)\<rparr>"
  show thesis
    by (rule that [of r "http_parser_should_keep_alive parser" ?k])
       (use False k fr r in \<open>simp_all add: choose_response_def queues_of_def\<close>)
qed

lemma stash_ok:
  assumes "wf_conn c" "length rest \<le> READ_CHUNK_SIZE"
  obtains c' where "stash_pending_input c rest = Some c'" "wf_conn c'" "owned c' = owned c"
    "settled c' = settled c" "c_prev c' = c_prev c" "c_next c' = c_next c"
proof -
  obtain buf where "array_write READ_CHUNK_SIZE (c_pending_input c) 0 rest = Some buf"
    using assms(2) by (simp add: array_write_def)
  with assms that show thesis
    by (simp add: stash_pending_input_def wf_conn_def settled_def owned_def)
qed


text \<open>A prepared connection, ready to be sent.\<close>

lemma prepared_ok:
  assumes "wf_conn c" "c_file_fd c = -1" "wf_response r" "length msg < RESPONSE_BUF_SIZE" "c_fd c \<notin> file_fds (resp_file r)"
  shows "wf_conn (prepared c r keep_alive msg buf)"
    "owned (prepared c r keep_alive msg buf) = insert (c_fd c) (file_fds (resp_file r))"
    "c_prev (prepared c r keep_alive msg buf) = c_prev c" "c_next (prepared c r keep_alive msg buf) = c_next c"
  using assms by (auto simp: prepared_def Let_def wf_conn_def wf_response_def owned_def file_fds_def)

lemma respond_inv:
  assumes inv: "loop_inv (cfg, qs, base) {} ps s" and p: "p \<in> set ps"
    and c: "s_heap s p = Some c" "c_file_fd c = -1" and parser: "wf_parser parser"
  obtains r keep_alive k1 c2 k2 where "choose_response s parser result = Some (r, keep_alive, k1)"
    "prepare_response (c\<lparr>c_parser := parser\<rparr>) r keep_alive (s_worker_id s) k1 = Some (c2, k2)"
    "handled (cfg, qs, base) ps p (send_response p (put_conn p c2 k2 s))"
proof -
  have ok: "config_ok s" "queues_of (s_kernel s) = qs" "wf_conn c" using inv c(1) by (auto simp: loop_inv_def)
  let ?c1 = "c\<lparr>c_parser := parser\<rparr>"
  have wf1: "wf_conn ?c1" using ok(3) parser by (simp add: wf_conn_def)
  obtain r keep_alive k where r: "choose_response s parser result = Some (r, keep_alive, k)" "wf_response r"
    "k_fds k = k_fds (s_kernel s) \<union> file_fds (resp_file r)" "file_fds (resp_file r) \<inter> k_fds (s_kernel s) = {}"
    "queues_of k = queues_of (s_kernel s)"
    using choose_response_ok [OF ok(1) parser] .
  have w: "\<bar>s_worker_id s\<bar> < 2 ^ 31" using ok(1) by (simp add: config_ok_def)
  obtain msg buf where msg: "length msg < RESPONSE_BUF_SIZE"
    "prepare_response ?c1 r keep_alive (s_worker_id s) k = Some (prepared ?c1 r keep_alive msg buf, k)"
    using prepare_response_ok [OF r(2) w] by metis
  have own: "owned c = {c_fd c}" "c_fd c \<in> k_fds (s_kernel s)"
    using c(2) loop_inv_fd_in [OF inv c(1)] by (auto simp: owned_def)
  then have notin: "c_fd ?c1 \<notin> file_fds (resp_file r)" using r(4) by auto
  note pr = prepared_ok [OF wf1 _ r(2) msg(1) notin, of keep_alive buf]
  have "loop_inv (cfg, qs, base) {p} ps (put_conn p (prepared ?c1 r keep_alive msg buf) k s)"
  proof (rule loop_inv_put [OF inv c(1)])
    show "k_fds k = k_fds (s_kernel s) - owned c \<union> owned (prepared ?c1 r keep_alive msg buf)"
      "owned (prepared ?c1 r keep_alive msg buf) \<inter> (k_fds (s_kernel s) - owned c) = {}"
      using r(3,4) own pr(2) c(2) by auto
  qed (use pr c(2) r(5) ok(2) in simp_all)
  from send_response_inv [OF this p] r(1) msg(2) that show thesis by blast
qed

lemma process_input_inv:
  assumes "loop_inv (cfg, qs, base) {} ps s" "p \<in> set ps" "s_heap s p = Some c" "\<not> c_awaiting_writable c"
    "length data \<le> READ_CHUNK_SIZE"
  shows "handled (cfg, qs, base) ps p (process_input p data s)"
  using assms
proof (induction "length data" arbitrary: data s c rule: less_induct)
  case less
  have wf: "wf_conn c" "settled c" and qs: "queues_of (s_kernel s) = qs"
    using less.prems(1,3) by (auto simp: loop_inv_def)
  then have set: "c_file_fd c = -1" "\<not> terminal (p_state (c_parser c))" "wf_parser (c_parser c)"
    using less.prems(4) by (auto simp: settled_def wf_conn_def)
  show ?case
  proof (cases "data = []")
    case True
    with less.prems(1) show ?thesis by (simp add: process_input.simps handled_keep)
  next
    case False
    obtain q n where q: "http_parser_execute (c_parser c) data = Some (q, result_of (p_state q), n)" "wf_parser q"
      "0 < n" "n \<le> length data"
      using execute_progress [OF set(3,2) False] .
    let ?c1 = "c\<lparr>c_parser := q\<rparr>"
    show ?thesis
    proof (cases "terminal (p_state q)")
      case nt: False
      have "wf_conn ?c1" using wf(1) q(2) by (simp add: wf_conn_def)
      then have "loop_inv (cfg, qs, base) {} ps (put_conn p ?c1 (s_kernel s) s)"
        using set(1) nt qs by (intro loop_inv_put_same [OF less.prems(1,3)]) (simp_all add: settled_def)
      then show ?thesis using False less.prems(3) q(1) nt
        by (simp add: process_input.simps [of p data s] result_of_incomplete handled_keep)
    next
      case t: True
      obtain r keep_alive k1 c2 k2 where r: "choose_response s q (result_of (p_state q)) = Some (r, keep_alive, k1)"
        "prepare_response ?c1 r keep_alive (s_worker_id s) k1 = Some (c2, k2)"
        "handled (cfg, qs, base) ps p (send_response p (put_conn p c2 k2 s))"
        using respond_inv [OF less.prems(1-3) set(1) q(2)] .
      then obtain alive s3 where s3: "send_response p (put_conn p c2 k2 s) = Some (alive, s3)"
        "loop_inv (cfg, qs, base) {} (if alive then ps else remove1 p ps) s3" by (auto simp: handled_def)
      have inc: "result_of (p_state q) \<noteq> HTTP_PARSE_INCOMPLETE" using t by (simp add: result_of_incomplete)
      note eq = process_input.simps [of p data s]
      show ?thesis
      proof (cases alive)
        case False
        with s3 \<open>data \<noteq> []\<close> less.prems(3) q(1) inc r(1,2) show ?thesis unfolding eq by (simp add: handled_closed)
      next
        case True
        with s3(2) have inv3: "loop_inv (cfg, qs, base) {} ps s3" by simp
        obtain c3 where c3: "s_heap s3 p = Some c3" "wf_conn c3" "settled c3"
          using loop_inv_lookup [OF inv3 less.prems(2)] by blast
        have len: "length (drop n data) \<le> READ_CHUNK_SIZE" "length (drop n data) < length data"
          using less.prems(5) q(3) False by auto
        obtain c4 where c4: "stash_pending_input c3 (drop n data) = Some c4" "wf_conn c4" "owned c4 = owned c3"
          "settled c4 = settled c3" "c_prev c4 = c_prev c3" "c_next c4 = c_next c3"
          using stash_ok [OF c3(2) len(1)] .
        have inv4: "loop_inv (cfg, qs, base) {} ps (put_conn p c4 (s_kernel s3) s3)"
          using c3 c4 inv3 by (intro loop_inv_put_same [OF inv3 c3(1)]) (simp_all add: loop_inv_def)
        have IH: "handled (cfg, qs, base) ps p (process_input p (drop n data) s3)" if "\<not> c_awaiting_writable c3"
          by (rule less.hyps [OF len(2) inv3 less.prems(2) c3(1) that len(1)])
        show ?thesis
          using True s3(1) False less.prems(3) q(1) inc r(1,2) c3(1) c4(1) handled_keep [OF inv4] IH
          unfolding eq Let_def by simp
      qed
    qed
  qed
qed


section \<open>Reading, resuming, accepting\<close>

text \<open>The outcome of a handler of connection \<open>p\<close> that returns nothing.\<close>

definition any_inv :: "config \<Rightarrow> int set \<Rightarrow> nat list \<Rightarrow> server \<Rightarrow> bool" where
  "any_inv cfg base ps s \<longleftrightarrow> (\<exists>qs. loop_inv (cfg, qs, base) {} ps s)"

lemma any_inv_live: "any_inv cfg base ps s \<Longrightarrow> live_list s ps"
  unfolding any_inv_def by (elim exE) (rule loop_inv_live)

lemma any_invI: "loop_inv (cfg, qs, base) {} ps s \<Longrightarrow> any_inv cfg base ps s"
  unfolding any_inv_def by blast

definition kept :: "config \<Rightarrow> int set \<Rightarrow> nat list \<Rightarrow> nat \<Rightarrow> server option \<Rightarrow> bool" where
  "kept cfg base ps p r \<longleftrightarrow>
     (\<exists>s' ps'. r = Some s' \<and> any_inv cfg base ps' s' \<and> (ps' = ps \<or> ps' = remove1 p ps))"

lemma kept_close: "loop_inv (cfg, qs, base) X ps s \<Longrightarrow> X \<subseteq> {p} \<Longrightarrow> p \<in> set ps \<Longrightarrow> kept cfg base ps p (close_connection p s)"
  using close_connection_inv [of "(cfg, qs, base)" X ps s p] unfolding kept_def
  by (metis Diff_eq_empty_iff any_invI)

lemma kept_Some: "loop_inv (cfg, qs, base) {} ps s \<Longrightarrow> kept cfg base ps p (Some s)"
  by (auto simp: kept_def dest: any_invI)

lemma kept_closed: "loop_inv (cfg, qs, base) {} (remove1 p ps) s \<Longrightarrow> kept cfg base ps p (Some s)"
  by (auto simp: kept_def dest: any_invI)

lemma kept_handled:
  assumes "handled (cfg, qs, base) ps p r" "\<And>s'. loop_inv (cfg, qs, base) {} ps s' \<Longrightarrow> kept cfg base ps p (f s')"
  shows "kept cfg base ps p (Option.bind r (\<lambda>(alive, s1). if \<not> alive then Some s1 else f s1))"
proof -
  obtain alive s1 where "r = Some (alive, s1)" "loop_inv (cfg, qs, base) {} (if alive then ps else remove1 p ps) s1"
    using assms(1) unfolding handled_def by blast
  with assms(2) kept_closed show ?thesis by (cases alive) simp_all
qed

lemma sys_read_frame:
  "sys_read n k = (ans, k') \<Longrightarrow> k_fds k' = k_fds k \<and>
   (case ans of Data buf \<Rightarrow> length buf \<le> n \<and> length (k_reads k') < length (k_reads k)
    | Read_error e \<Rightarrow> e = EAGAIN \<or> length (k_reads k') < length (k_reads k))"
  by (auto simp: sys_read_def split: list.splits read_answer.splits)

lemma queues_reads: "queues_of k = (rs, as, ms) \<longleftrightarrow> k_reads k = rs \<and> k_accepts k = as \<and> k_mallocs k = ms"
  by (simp add: queues_of_def)

lemma handle_client_readable_inv:
  assumes "loop_inv (cfg, qs, base) {} ps s" "p \<in> set ps" "s_heap s p = Some c" "\<not> c_awaiting_writable c"
  shows "kept cfg base ps p (handle_client_readable p s)"
  using assms
proof (induction "length (k_reads (s_kernel s))" arbitrary: s c qs rule: less_induct)
  case less
  obtain ans k1 where r: "sys_read READ_CHUNK_SIZE (s_kernel s) = (ans, k1)" by fastforce
  note fr = sys_read_frame [OF r]
  obtain t k2 where t: "sys_time k1 = (t, k2)" by fastforce
  have wf: "wf_conn c" "settled c" using less.prems(1,3) by (auto simp: loop_inv_def)
  let ?s1 = "put_conn p c k1 s" and ?s2 = "put_conn p (c\<lparr>c_last_activity := t\<rparr>) k2 s"
  have inv1: "loop_inv (cfg, queues_of k1, base) {} ps ?s1"
    using fr wf by (intro loop_inv_put_same [OF less.prems(1,3)]) simp_all
  have inv2: "loop_inv (cfg, queues_of k1, base) {} ps ?s2"
    using fr wf sys_time_frame [OF t]
    by (intro loop_inv_put_same [OF less.prems(1,3)]) (simp_all add: settled_def)
  note eq = handle_client_readable.simps [of p s]
  show ?case
  proof (cases ans)
    case (Data buf)
    have len: "length buf \<le> READ_CHUNK_SIZE" "length (k_reads k1) < length (k_reads (s_kernel s))"
      using fr Data by simp_all
    have h: "handled (cfg, queues_of k1, base) ps p (process_input p buf ?s2)"
      using len(1) less.prems(4) by (intro process_input_inv [OF inv2 less.prems(2), of "c\<lparr>c_last_activity := t\<rparr>"]) simp_all
    have "kept cfg base ps p (Option.bind (s_heap s1 p)
        (\<lambda>c1. if c_awaiting_writable c1 then Some s1 else handle_client_readable p s1))"
      if inv: "loop_inv (cfg, queues_of k1, base) {} ps s1" for s1
    proof -
      obtain c1 where c1: "s_heap s1 p = Some c1" using loop_inv_lookup [OF inv less.prems(2)] by blast
      have "k_reads (s_kernel s1) = k_reads k1" using inv by (simp add: loop_inv_def queues_of_def)
      then show ?thesis
        using less.hyps [OF _ inv less.prems(2) c1] len(2) kept_Some [OF inv] c1 by simp
    qed
    from kept_handled [OF h this] show ?thesis
      using less.prems(3) r t Data kept_close [OF inv1 _ less.prems(2)] unfolding eq by simp
  next
    case (Read_error e)
    show ?thesis
      using less.hyps [of ?s1, OF _ inv1 less.prems(2) _ less.prems(4)] fr less.prems(3) r Read_error
        kept_close [OF inv1 _ less.prems(2)] kept_Some [OF inv1]
      unfolding eq by auto
  qed
qed

lemma flush_pending_write_inv:
  assumes inv: "loop_inv (cfg, qs, base) {} ps s" and p: "p \<in> set ps" and c: "s_heap s p = Some c"
    and aw: "c_awaiting_writable c"
  shows "kept cfg base ps p (flush_pending_write p s)"
proof -
  have wf: "wf_conn c" "settled c" and qs: "queues_of (s_kernel s) = qs" using inv c by (auto simp: loop_inv_def)
  obtain res c1 k1 where f: "try_flush_response c (s_kernel s) = Some (res, c1, k1)" "wf_conn c1" "owned c1 = owned c"
    "c_prev c1 = c_prev c" "c_next c1 = c_next c" "k_fds k1 = k_fds (s_kernel s)" "queues_of k1 = qs"
    "c_awaiting_writable c1"
    using flush_keeps [OF wf(1), of "s_kernel s"] qs aw by metis
  have inv0: "loop_inv (cfg, qs, base) {} ps (put_conn p c1 k1 s)"
    by (rule loop_inv_put_same [OF inv c f(4,5,2) _ _ f(7,6,3)]) (use f(8) in \<open>simp_all add: settled_def\<close>)
  have inv1: "loop_inv (cfg, qs, base) {p} ps (put_conn p c1 k1 s)"
    by (rule loop_inv_put_same [OF inv c f(4,5,2) _ _ f(7,6,3)]) simp_all
  let ?resume = "\<lambda>s2. Option.bind (s_heap s2 p) (\<lambda>c2.
      if c_pending_input_len c2 > 0
      then Option.bind (if c_pending_input_len c2 \<le> READ_CHUNK_SIZE
                        then Some (array_str (c_pending_input c2) (c_pending_input_len c2)) else None) (\<lambda>data.
             Option.bind (process_input p data (put_conn p (c2\<lparr>c_pending_input_len := 0\<rparr>) (s_kernel s2) s2))
               (\<lambda>(alive2, s3). Some s3))
      else Some s2)"
  have resume: "kept cfg base ps p (?resume s2)" if inv2: "loop_inv (cfg, qs, base) {} ps s2"
    and fin: "\<exists>c2. s_heap s2 p = Some c2 \<and> \<not> c_awaiting_writable c2" for s2
  proof -
    obtain c2 where c2: "s_heap s2 p = Some c2" "\<not> c_awaiting_writable c2" "wf_conn c2" "settled c2"
      using fin inv2 by (auto simp: loop_inv_def)
    then have len: "c_pending_input_len c2 \<le> READ_CHUNK_SIZE" by (simp add: wf_conn_def)
    let ?s = "put_conn p (c2\<lparr>c_pending_input_len := 0\<rparr>) (s_kernel s2) s2"
    have "loop_inv (cfg, qs, base) {} ps ?s"
      using c2 inv2 by (intro loop_inv_put_same [OF inv2 c2(1)]) (simp_all add: wf_conn_def settled_def loop_inv_def)
    then have "handled (cfg, qs, base) ps p
        (process_input p (array_str (c_pending_input c2) (c_pending_input_len c2)) ?s)"
      using c2(2) len by (intro process_input_inv [OF _ p, of _ _ _ _ "c2\<lparr>c_pending_input_len := 0\<rparr>"]) simp_all
    then have "kept cfg base ps p (Option.bind
        (process_input p (array_str (c_pending_input c2) (c_pending_input_len c2)) ?s) (\<lambda>(alive2, s3). Some s3))"
      using kept_handled [of cfg qs base ps p _ Some] kept_Some by simp
    then show ?thesis using c2(1) len kept_Some [OF inv2] by simp
  qed
  have fin: "kept cfg base ps p (Option.bind (finish_after_response_sent p (put_conn p c1 k1 s))
      (\<lambda>(alive, s2). if \<not> alive then Some s2 else ?resume s2))"
  proof -
    obtain alive s2 where s2: "finish_after_response_sent p (put_conn p c1 k1 s) = Some (alive, s2)"
      "loop_inv (cfg, qs, base) {} (if alive then ps else remove1 p ps) s2"
      using finish_inv [OF inv1 p] by (auto simp: handled_def)
    show ?thesis
    proof (cases alive)
      case True
      with s2 have "kept cfg base ps p (?resume s2)" by (intro resume finish_not_waiting) simp_all
      with s2(1) True show ?thesis by simp
    next
      case False
      with s2 show ?thesis by (simp add: kept_closed)
    qed
  qed
  show ?thesis
    using c f(1) fin kept_close [OF inv0 _ p] kept_Some [OF inv0]
    by (cases res) (simp_all add: flush_pending_write_def Let_def)
qed


lemma loop_inv_transfer:
  assumes "\<And>p c. s_heap s0 p = Some c \<Longrightarrow> wf_conn c \<and> (p \<in> X \<or> settled c)"
    "fd_inv base (owned_at s0) (k_fds (s_kernel s0))" "heap_data (s_heap s) = heap_data (s_heap s0)"
    "k_fds (s_kernel s) = k_fds (s_kernel s0)" "live_list s ps" "config_ok s"
  shows "loop_inv (config_of s, queues_of (s_kernel s), base) X ps s"
proof -
  have "owned_at s = owned_at s0" using assms(3) by (simp add: owned_at_data fun_eq_iff)
  moreover have "wf_conn c \<and> (p \<in> X \<or> settled c)" if c: "s_heap s p = Some c" for p c
  proof -
    obtain c0 where "s_heap s0 p = Some c0" "conn_data c0 = conn_data c"
      using heap_data_eqD [of "s_heap s0" p "s_heap s" c] assms(3) c by auto
    with assms(1) [of p c0] wf_conn_data show ?thesis by metis
  qed
  ultimately show ?thesis using assms by (simp add: loop_inv_def)
qed

lemma sys_accept_frame:
  assumes "sys_accept k = (ans, k')"
  shows "case ans of
      Accept_error e \<Rightarrow> k_fds k' = k_fds k \<and> (e = EAGAIN \<or> length (k_accepts k') < length (k_accepts k))
    | Accepted fd \<Rightarrow> 0 \<le> fd \<and> fd \<notin> k_fds k \<and> k_fds k' = insert fd (k_fds k) \<and>
        length (k_accepts k') < length (k_accepts k)"
  using assms by (auto simp: sys_accept_def split: list.splits accept_answer.splits if_splits)

lemma sys_malloc_frame:
  "sys_malloc h k = (b, k') \<Longrightarrow> k_fds k' = k_fds k \<and> k_accepts k' = k_accepts k \<and> (\<forall>p. b = Some p \<longrightarrow> h p = None)"
  by (auto simp: sys_malloc_def split: list.splits option.splits if_splits)

lemma loop_inv_kernel:
  "loop_inv (cfg, qs, base) X ps s \<Longrightarrow> k_fds k = k_fds (s_kernel s) \<Longrightarrow>
   loop_inv (cfg, queues_of k, base) X ps (s\<lparr>s_kernel := k\<rparr>)"
  by (simp add: loop_inv_def config_of_def config_ok_def live_list_def owned_at_def [abs_def])

lemma new_connection_ok: "0 \<le> fd \<Longrightarrow> wf_conn (new_connection fd t) \<and> settled (new_connection fd t) \<and> owned (new_connection fd t) = {fd}"
  by (simp add: new_connection_def wf_conn_def settled_def owned_def http_parser_init_def)
     (simp flip: http_parser_init_def)

lemma insert_new_inv:
  assumes inv: "loop_inv (cfg, qs, base) {} ps s" and p: "s_heap s p = None"
    and fd: "0 \<le> fd" "fd \<notin> k_fds (s_kernel s)" and k: "k_fds k = insert fd (k_fds (s_kernel s))"
  obtains s1 where "list_insert p (put_conn p (new_connection fd t) k s) = Some s1"
    "loop_inv (cfg, queues_of k, base) {} (p # ps) s1" "s_kernel s1 = k"
proof -
  let ?c = "new_connection fd t"
  let ?s0 = "put_conn p ?c k s"
  note new = new_connection_ok [OF fd(1), of t]
  have live: "s_connections s = first_of ps None" "dseg (s_heap s) None ps None" "distinct ps"
    "set ps = dom (s_heap s)"
    using loop_inv_live [OF inv] by (simp_all add: live_list_def)
  have notin: "p \<notin> set ps" using live(4) p by auto
  obtain h where h: "list_insert p ?s0 = Some (?s0\<lparr>s_heap := h, s_connections := Some p\<rparr>)"
    "live_list (?s0\<lparr>s_heap := h, s_connections := Some p\<rparr>) (p # ps)" "heap_data h = heap_data (s_heap ?s0)"
    using list_insert_ok [of ?s0 ps p] live notin by (auto simp: put_conn_def)
  have own: "owned_at s p = {}" using p by (simp add: owned_at_def)
  have "fd_inv base (owned_at s) (k_fds (s_kernel s))" using inv by (simp add: loop_inv_def)
  from fd_inv_update [OF this, of "{fd}" p] have fds: "fd_inv base (owned_at ?s0) (k_fds k)"
    using own fd(2) k new by (simp add: owned_at_put)
  let ?s1 = "?s0\<lparr>s_heap := h, s_connections := Some p\<rparr>"
  have cfg: "config_of ?s1 = cfg" "config_ok ?s1"
    using inv by (simp_all add: loop_inv_def config_of_def config_ok_def put_conn_def)
  have "loop_inv (config_of ?s1, queues_of (s_kernel ?s1), base) {} (p # ps) ?s1"
    by (rule loop_inv_transfer [of ?s0])
       (use inv new fds h cfg in \<open>auto simp: loop_inv_def split: if_splits\<close>)
  with cfg(1) h(1) show thesis by (intro that [of ?s1]) simp_all
qed


text \<open>Accepting keeps the live connections and may add new ones.\<close>

definition grown :: "config \<Rightarrow> int set \<Rightarrow> nat list \<Rightarrow> server option \<Rightarrow> bool" where
  "grown cfg base ps r \<longleftrightarrow> (\<exists>s' ps'. r = Some s' \<and> any_inv cfg base ps' s' \<and> set ps \<subseteq> set ps')"

lemma grown_Some: "loop_inv (cfg, qs, base) {} ps s \<Longrightarrow> grown cfg base ps (Some s)"
  by (auto simp: grown_def dest: any_invI)

lemma grown_mono: "grown cfg base ps' r \<Longrightarrow> set ps \<subseteq> set ps' \<Longrightarrow> grown cfg base ps r"
  by (auto simp: grown_def)

lemma accept_inv:
  "loop_inv (cfg, qs, base) {} ps s \<Longrightarrow> grown cfg base ps (accept_new_connections s)"
proof (induction "length (k_accepts (s_kernel s))" arbitrary: s qs ps rule: less_induct)
  case less
  obtain ans k1 where a: "sys_accept (s_kernel s) = (ans, k1)" by fastforce
  note fr = sys_accept_frame [OF a]
  note eq = accept_new_connections.simps [of s]
  show ?case
  proof (cases ans)
    case (Accept_error e)
    then have inv: "loop_inv (cfg, queues_of k1, base) {} ps (s\<lparr>s_kernel := k1\<rparr>)"
      using fr by (intro loop_inv_kernel [OF less.prems]) simp
    with fr a Accept_error show ?thesis
      using less.hyps [OF _ inv] grown_Some [OF inv] unfolding eq by auto
  next
    case (Accepted fd)
    obtain b k2 where b: "sys_malloc (s_heap s) k1 = (b, k2)" by fastforce
    note fb = sys_malloc_frame [OF b]
    have fd: "0 \<le> fd" "fd \<notin> k_fds (s_kernel s)" "k_fds k2 = insert fd (k_fds (s_kernel s))"
      "length (k_accepts k2) < length (k_accepts (s_kernel s))"
      using fr Accepted fb by simp_all
    show ?thesis
    proof (cases b)
      case None
      let ?s = "s\<lparr>s_kernel := sys_close fd k2\<rparr>"
      have "loop_inv (cfg, queues_of (sys_close fd k2), base) {} ps ?s"
        using fd by (intro loop_inv_kernel [OF less.prems]) (simp add: sys_close_def)
      moreover have "length (k_accepts (s_kernel ?s)) < length (k_accepts (s_kernel s))"
        using fd(4) by (simp add: sys_close_def)
      ultimately show ?thesis using less.hyps a Accepted b None unfolding eq by simp
    next
      case (Some p)
      then have free: "s_heap s p = None" using fb by simp
      obtain t k3 where t: "sys_time k2 = (t, k3)" by fastforce
      note ft = sys_time_frame [OF t]
      obtain s1 where s1: "list_insert p (put_conn p (new_connection fd t) k3 s) = Some s1"
        "loop_inv (cfg, queues_of k3, base) {} (p # ps) s1" "s_kernel s1 = k3"
        using insert_new_inv [OF less.prems free fd(1,2), of k3 t] fd(3) ft by auto
      obtain ok k4 where ok: "sys_epoll_ctl k3 = (ok, k4)" by fastforce
      note fc = sys_ctl_frame [OF ok]
      let ?s2 = "s1\<lparr>s_kernel := k4\<rparr>"
      have inv2: "loop_inv (cfg, queues_of k4, base) {} (p # ps) ?s2"
        using fc s1(3) by (intro loop_inv_kernel [OF s1(2)]) simp
      have acc: "k_accepts k4 = k_accepts k2" using fc ft by (simp add: queues_of_def)
      obtain s3 ps3 where s3: "(if ok then Some ?s2 else close_connection p ?s2) = Some s3"
        "loop_inv (cfg, queues_of k4, base) {} ps3 s3" "set ps \<subseteq> set ps3"
      proof (cases ok)
        case True
        then show thesis using inv2 by (intro that [of ?s2 "p # ps"]) auto
      next
        case False
        obtain s3 where "close_connection p ?s2 = Some s3" "loop_inv (cfg, queues_of k4, base) {} ps s3"
          using close_connection_inv [OF inv2, of p] by auto
        with False show thesis by (intro that [of s3 ps]) simp_all
      qed
      have "k_accepts (s_kernel s3) = k_accepts k2" using s3(2) acc by (simp add: loop_inv_def queues_of_def)
      then have "grown cfg base ps3 (accept_new_connections s3)" using less.hyps [OF _ s3(2)] fd(4) by simp
      from grown_mono [OF this s3(3)] show ?thesis
        using a Accepted b Some t s1 ok s3(1) unfolding eq by simp
    qed
  qed
qed

section \<open>Sweeping\<close>

lemma sweep_inv:
  "loop_inv ctx {} (xs @ ys) s \<Longrightarrow>
   \<exists>s' ps'. sweep_from now (first_of ys None) s = Some s' \<and> loop_inv ctx {} ps' s'"
proof (induction ys arbitrary: xs s)
  case Nil
  then show ?case by (auto simp: sweep_from.simps)
next
  case (Cons p ys)
  have live: "live_list s (xs @ p # ys)" using loop_inv_live [OF Cons.prems] .
  then obtain c where c: "s_heap s p = Some c" "c_next c = first_of ys None"
    by (auto simp: live_list_def dseg_append split: option.splits)
  have "p \<notin> set xs" using live by (simp add: live_list_def)
  then have rem: "remove1 p (xs @ p # ys) = xs @ ys" by (simp add: remove1_append)
  obtain s1 where s1: "close_connection p s = Some s1" "loop_inv ctx {} (xs @ ys) s1"
    using close_connection_inv [OF Cons.prems, of p] rem by auto
  show ?case
    using Cons.IH [of xs s1] Cons.IH [of "xs @ [p]" s] c s1 Cons.prems
    by (auto simp: sweep_from.simps [of now "Some p"])
qed

text \<open>The sweep keeps the invariant and the connections that are not idle when it starts.\<close>

lemma sweep_idle_inv:
  assumes "loop_inv (cfg, qs, base) {} ps s"
  shows "\<exists>s' ps'. sweep_idle_connections s = Some s' \<and> any_inv cfg base ps' s' \<and>
    set ps' = {p \<in> set ps. \<not> idle_at (fst (sys_time (s_kernel s))) s p}"
proof -
  obtain now k where t: "sys_time (s_kernel s) = (now, k)" by fastforce
  let ?s = "s\<lparr>s_kernel := k\<rparr>"
  have inv: "loop_inv (cfg, queues_of k, base) {} ([] @ ps) ?s"
    using sys_time_frame [OF t] loop_inv_kernel [OF assms, of k] by simp
  have first: "s_connections s = first_of ps None" using loop_inv_live [OF assms] by (simp add: live_list_def)
  obtain s' ps' where s': "sweep_from now (s_connections s) ?s = Some s'" "loop_inv (cfg, queues_of k, base) {} ps' s'"
    using sweep_inv [OF inv, of now] first by auto
  moreover have "live_list s' (filter (\<lambda>p. \<not> idle_at now ?s p) ps)"
    using sweep_from_ok [of ?s ps now] loop_inv_live [OF inv] s'(1) by auto
  then have "set ps' = {p \<in> set ps. \<not> idle_at now ?s p}"
    using loop_inv_live [OF s'(2)] by (simp add: live_list_def)
  moreover have "idle_at now ?s = idle_at now s" by (auto simp: idle_at_def fun_eq_iff split: option.splits)
  ultimately show ?thesis using t any_invI unfolding sweep_idle_connections_def by fastforce
qed


section \<open>Dispatch\<close>

text \<open>
  What epoll documents of the events of one \<^verbatim>\<open>epoll_wait\<close>: a descriptor is reported
  at most once, and only while it is registered, so the connection events name connections
  that are live when the batch arrives, each at most once. Events may come in any order.
\<close>

fun conn_names :: "epoll_event list \<Rightarrow> nat list" where
  "conn_names [] = []"
| "conn_names (ev # evs) = (case ev_source ev of Conn p \<Rightarrow> p # conn_names evs | _ \<Rightarrow> conn_names evs)"

definition epoll_batch :: "nat set \<Rightarrow> epoll_event list \<Rightarrow> bool" where
  "epoll_batch live evs \<longleftrightarrow> distinct (conn_names evs) \<and> set (conn_names evs) \<subseteq> live"

text \<open>
  What the code relies on beyond this, and epoll does not promise: when the timer is handled,
  no connection named later in the batch has been idle for the timeout. Without it the code
  goes wrong (\<open>timer_then_connection_use_after_free\<close> below), so this condition excludes
  exactly the batches in which the sweep frees a connection that is still to be handled.
\<close>

fun sweep_spares :: "epoll_event list \<Rightarrow> server \<Rightarrow> bool" where
  "sweep_spares [] s = True"
| "sweep_spares (ev # evs) s =
     ((ev_source ev = Timer_fd \<and> \<not> ev_error ev \<longrightarrow>
         (\<forall>p\<in>set (conn_names evs). \<not> idle_at (fst (sys_time (s_kernel s))) s p)) \<and>
      (case handle_event ev s of Some (Continue, s1) \<Rightarrow> sweep_spares evs s1 | _ \<Rightarrow> True))"

text \<open>In particular, it holds of any batch without the timer.\<close>

lemma sweep_spares_no_timer: "\<forall>ev\<in>set evs. ev_source ev \<noteq> Timer_fd \<Longrightarrow> sweep_spares evs s"
  by (induction evs arbitrary: s) (auto split: option.splits loop_control.splits)

lemma sweep_spares_single [simp]: "sweep_spares [ev] s"
  by (auto split: option.splits loop_control.splits)

lemma handle_event_inv:
  assumes inv: "any_inv cfg base ps s" and ev: "epoll_batch (set ps) (ev # evs)" "sweep_spares (ev # evs) s"
  shows "\<exists>ctl s' ps'. handle_event ev s = Some (ctl, s') \<and> any_inv cfg base ps' s' \<and>
    epoll_batch (set ps') evs \<and> (ctl = Continue \<longrightarrow> sweep_spares evs s')"
proof -
  obtain qs where q: "loop_inv (cfg, qs, base) {} ps s" using inv by (auto simp: any_inv_def)
  show ?thesis
  proof (cases "ev_source ev")
    case (Conn p)
    then have p: "p \<in> set ps" "p \<notin> set (conn_names evs)" "epoll_batch (set ps) evs"
      using ev(1) by (auto simp: epoll_batch_def)
    obtain c where c: "s_heap s p = Some c" using loop_inv_lookup [OF q p(1)] by blast
    let ?r = "if ev_error ev then close_connection p s
      else if c_awaiting_writable c then flush_pending_write p s else handle_client_readable p s"
    have "kept cfg base ps p ?r"
      using kept_close [OF q _ p(1)] flush_pending_write_inv [OF q p(1) c] handle_client_readable_inv [OF q p(1) c] by simp
    then obtain s' ps' where s': "?r = Some s'" "any_inv cfg base ps' s'" "ps' = ps \<or> ps' = remove1 p ps"
      unfolding kept_def by blast
    have "distinct ps" using loop_inv_live [OF q] by (simp add: live_list_def)
    then have "epoll_batch (set ps') evs" using s'(3) p(2,3) by (auto simp: epoll_batch_def)
    moreover have "handle_event ev s = Some (Continue, s')"
      using Conn c s'(1) by (simp add: handle_event_def is_infrastructure_fd_def continue_def split: if_splits)
    ultimately show ?thesis using s'(2) ev(2) by auto
  next
    case Timer_fd
    then have names: "conn_names (ev # evs) = conn_names evs" by simp
    obtain s' ps' where s': "sweep_idle_connections s = Some s'" "any_inv cfg base ps' s'"
      "set ps' = {p \<in> set ps. \<not> idle_at (fst (sys_time (s_kernel s))) s p}"
      using sweep_idle_inv [OF q] by blast
    have "epoll_batch (set ps') evs" if "\<not> ev_error ev"
      using that ev s'(3) names Timer_fd by (auto simp: epoll_batch_def)
    then show ?thesis
      using inv ev s'(1,2) Timer_fd names
      by (cases "ev_error ev") (auto simp: handle_event_def is_infrastructure_fd_def continue_def epoll_batch_def)
  next
    case Listen_fd
    from accept_inv [OF q] obtain s' ps' where
      s': "accept_new_connections s = Some s'" "any_inv cfg base ps' s'" "set ps \<subseteq> set ps'"
      by (auto simp: grown_def)
    with Listen_fd show ?thesis using inv ev
      by (cases "ev_error ev") (auto simp: handle_event_def is_infrastructure_fd_def continue_def epoll_batch_def)
  next
    case Shutdown_fd
    then show ?thesis using inv ev
      by (cases "ev_error ev") (auto simp: handle_event_def is_infrastructure_fd_def epoll_batch_def)
  qed
qed

lemma handle_events_inv:
  "any_inv cfg base ps s \<Longrightarrow> epoll_batch (set ps) evs \<Longrightarrow> sweep_spares evs s \<Longrightarrow>
   \<exists>ctl s' ps'. handle_events evs s = Some (ctl, s') \<and> any_inv cfg base ps' s'"
proof (induction evs arbitrary: s ps)
  case (Cons ev evs)
  obtain ctl s1 ps1 where 1: "handle_event ev s = Some (ctl, s1)" "any_inv cfg base ps1 s1"
    "epoll_batch (set ps1) evs" "ctl = Continue \<longrightarrow> sweep_spares evs s1"
    using handle_event_inv [OF Cons.prems] by blast
  with Cons.IH [OF 1(2,3)] show ?case by (cases ctl) auto
qed auto

text \<open>The two conditions for every batch of a run, with the server that is there when it arrives.\<close>

fun epoll_waits :: "wait_answer list \<Rightarrow> server \<Rightarrow> bool" where
  "epoll_waits [] s = True"
| "epoll_waits (Wait_error e # ws) s = epoll_waits ws s"
| "epoll_waits (Ready evs # ws) s =
     (epoll_batch (dom (s_heap s)) evs \<and>
      (case handle_events evs s of Some (Continue, s1) \<Rightarrow> epoll_waits ws s1 | _ \<Rightarrow> True))"

fun sweeps_spare :: "wait_answer list \<Rightarrow> server \<Rightarrow> bool" where
  "sweeps_spare [] s = True"
| "sweeps_spare (Wait_error e # ws) s = sweeps_spare ws s"
| "sweeps_spare (Ready evs # ws) s =
     (sweep_spares evs s \<and>
      (case handle_events evs s of Some (Continue, s1) \<Rightarrow> sweeps_spare ws s1 | _ \<Rightarrow> True))"

lemma wait_loop_inv:
  "any_inv cfg base ps s \<Longrightarrow> epoll_waits ws s \<Longrightarrow> sweeps_spare ws s \<Longrightarrow>
   \<exists>ctl s' ps'. wait_loop ws s = Some (ctl, s') \<and> any_inv cfg base ps' s'"
proof (induction ws s arbitrary: ps rule: wait_loop.induct)
  case (3 evs ws s)
  have "dom (s_heap s) = set ps" using any_inv_live [OF 3(2)] by (simp add: live_list_def)
  then obtain ctl s1 ps1 where 1: "handle_events evs s = Some (ctl, s1)" "any_inv cfg base ps1 s1"
    using handle_events_inv [OF 3(2), of evs] 3(3,4) by auto
  show ?case
  proof (cases ctl)
    case Continue
    with 1 3(3,4) show ?thesis using 3(1) [of "(ctl, s1)" ctl s1 ps1] by simp
  next
    case (Exit status)
    with 1 show ?thesis by auto
  qed
qed auto


section \<open>A whole run\<close>

lemma close_all_inv:
  "loop_inv ctx {} ps s \<Longrightarrow>
   \<exists>s'. close_all_connections s = Some s' \<and> loop_inv ctx {} [] s' \<and> k_wire (s_kernel s') = k_wire (s_kernel s)"
proof (induction ps arbitrary: s)
  case Nil
  then show ?case using loop_inv_live [OF Nil] by (simp add: close_all_connections.simps live_list_def)
next
  case (Cons p ps)
  obtain s1 where s1: "close_connection p s = Some s1" "loop_inv ctx {} ps s1"
    using close_connection_inv [OF Cons.prems, of p] by auto
  have live: "live_list s ([] @ p # ps)" using loop_inv_live [OF Cons.prems] by simp
  obtain c where "s_heap s p = Some c" using live_lookup [OF live] by auto
  then have "k_wire (s_kernel s1) = k_wire (s_kernel s)"
    by (rule close_connection_ok [OF live]) (use s1(1) in \<open>auto simp: close_fds_def\<close>)
  moreover have "s_connections s = Some p" using live by (simp add: live_list_def)
  ultimately show ?case using s1 Cons.IH [OF s1(2)] by (simp add: close_all_connections.simps [of s])
qed

lemma open_fresh_cases:
  obtains (fail) "open_fresh a k = (None, k)"
  | (opened) fd where "open_fresh a k = (Some fd, k\<lparr>k_fds := insert fd (k_fds k)\<rparr>)" "0 \<le> fd" "fd \<notin> k_fds k"
proof (cases a)
  case None
  then show thesis by (intro fail) (simp add: open_fresh_def)
next
  case (Some fd)
  show thesis
  proof (cases "0 \<le> fd \<and> fd \<notin> k_fds k")
    case True
    with Some show thesis by (intro opened [of fd]) (simp_all add: open_fresh_def)
  next
    case False
    with Some show thesis by (intro fail) (simp add: open_fresh_def)
  qed
qed

text \<open>The set-up either leaves the descriptors as they were, or starts with an empty list.\<close>

lemma event_loop_setup_ok:
  "case event_loop_setup config su root k of
     Inl k' \<Rightarrow> k_fds k' = k_fds k
   | Inr s \<Rightarrow> s_epoll_fd s \<notin> k_fds k \<and> s_timer_fd s \<notin> k_fds k \<and> s_epoll_fd s \<noteq> s_timer_fd s \<and>
       k_fds (s_kernel s) = insert (s_timer_fd s) (insert (s_epoll_fd s) (k_fds k)) \<and>
       s_heap s = Map.empty \<and> s_connections s = None \<and> s_root s = root \<and> s_worker_id s = cfg_worker_id config"
proof (cases rule: open_fresh_cases [of "su_epoll su" k])
  case fail
  then show ?thesis by (simp add: event_loop_setup_def)
next
  case (opened efd)
  let ?k1 = "k\<lparr>k_fds := insert efd (k_fds k)\<rparr>"
  show ?thesis
    by (cases rule: open_fresh_cases [of "su_timer su" ?k1])
       (use opened in \<open>auto simp: event_loop_setup_def sys_close_def\<close>)
qed

lemma setup_inv:
  assumes "event_loop_setup config su root k = Inr s" "wf_root root" "\<bar>cfg_worker_id config\<bar> < 2 ^ 31"
  shows "any_inv (config_of s) (k_fds (s_kernel s)) [] s"
  using event_loop_setup_ok [where config = config and su = su and root = root and k = k] assms
  by (intro any_invI [of _ "queues_of (s_kernel s)"])
     (auto simp: loop_inv_def config_ok_def live_list_def fd_inv_def owned_at_def)


section \<open>Properties\<close>

lemma demo_heap:
  "s_heap demo_server = [1 \<mapsto> demo_conn\<lparr>c_next := Some 2, c_awaiting_writable := True\<rparr>,
     2 \<mapsto> demo_conn\<lparr>c_fd := 8, c_file_fd := -1, c_file_size := 0, c_prev := Some 1, c_last_activity := 10\<rparr>]"
  by (simp add: demo_server_def)

lemma demo_server_inv: "any_inv (config_of demo_server) {3, 4, 6} [1, 2] demo_server"
proof -
  have own: "owned_at demo_server = (\<lambda>_. {})(1 := {5, 7}, 2 := {8})"
    unfolding owned_at_def demo_heap by (rule ext) (simp add: owned_def demo_conn_def)
  have "fd_inv {3, 4, 6} (owned_at demo_server) (k_fds (s_kernel demo_server))"
    unfolding own by (auto simp: fd_inv_def demo_server_def)
  moreover have "wf_conn c \<and> settled c" if "s_heap demo_server q = Some c" for q c
    using that wf_parser_init unfolding demo_heap
    by (auto simp: wf_conn_def settled_def demo_conn_def http_parser_init_def split: if_splits)
  moreover have "config_ok demo_server"
    by (simp add: config_ok_def demo_server_def demo_root_wf)
  ultimately show ?thesis using demo_server_live
    by (intro any_invI [of _ "queues_of (s_kernel demo_server)"]) (simp add: loop_inv_def)
qed

text \<open>
  C24. The event loop is memory safe and leaks no descriptor. Any batch of events, in any
  order, that names live connections, each at most once (what epoll documents), and in
  which no connection named behind the timer is idle when the timer is handled (what the
  code needs and epoll does not promise, see C33), is handled without an invalid access,
  whatever the clients send, the kernel answers and the file system holds;
  afterwards the list of connections is intact, every connection is well-formed (in
  particular its buffers are within their bounds), and the open descriptors are exactly
  those of the infrastructure and of the connections, each owned once.
\<close>

theorem event_batch_safe:
  assumes "any_inv cfg base ps s" "epoll_batch (dom (s_heap s)) evs" "sweep_spares evs s"
  shows "\<exists>ctl s' ps'. handle_events evs s = Some (ctl, s') \<and> any_inv cfg base ps' s'"
  using handle_events_inv [OF assms(1) _ assms(3)] any_inv_live [OF assms(1)] assms(2) by (simp add: live_list_def)

theorem event_batch_safe_witness:
  "\<exists>ctl s' ps'. handle_events [\<lparr>ev_source = Timer_fd, ev_error = False\<rparr>, \<lparr>ev_source = Conn 1, ev_error = False\<rparr>,
       \<lparr>ev_source = Listen_fd, ev_error = False\<rparr>] demo_server = Some (ctl, s') \<and>
     any_inv (config_of demo_server) {3, 4, 6} ps' s'"
proof (rule event_batch_safe [OF demo_server_inv])
  have "\<not> idle_at (fst (sys_time (s_kernel demo_server))) demo_server 1"
    by (simp add: idle_at_def demo_heap) (simp add: demo_server_def demo_kernel_def demo_conn_def sys_time_def)
  then show "sweep_spares [\<lparr>ev_source = Timer_fd, ev_error = False\<rparr>, \<lparr>ev_source = Conn 1, ev_error = False\<rparr>,
       \<lparr>ev_source = Listen_fd, ev_error = False\<rparr>] demo_server"
    by (auto split: option.splits loop_control.splits)
qed (simp add: epoll_batch_def demo_heap)

text \<open>A loop that ends returns its status, its descriptors and its connections; what was sent stays sent.\<close>

lemma run_exit_ok:
  assumes su: "event_loop_setup config su root k = Inr s"
    and ends: "wait_loop waits s = Some (Exit status, s1)" "any_inv (config_of s) (k_fds (s_kernel s)) ps1 s1"
  obtains s3 where "event_loop_run config su waits root k = Some (Returned status s3)"
    "k_fds (s_kernel s3) = k_fds k" "s_heap s3 = Map.empty" "k_wire (s_kernel s3) = k_wire (s_kernel s1)"
proof -
  note ok = event_loop_setup_ok [where config = config and su = su and root = root and k = k, unfolded su sum.case]
  let ?base = "k_fds (s_kernel s)"
  from ends(2) obtain qs where q: "loop_inv (config_of s, qs, ?base) {} ps1 s1" by (auto simp: any_inv_def)
  obtain s2 where s2: "close_all_connections s1 = Some s2" "loop_inv (config_of s, qs, ?base) {} [] s2"
    "k_wire (s_kernel s2) = k_wire (s_kernel s1)"
    using close_all_inv [OF q] by blast
  have heap: "s_heap s2 = Map.empty" using loop_inv_live [OF s2(2)] by (auto simp: live_list_def)
  then have "owned_at s2 = (\<lambda>p. {})" by (simp add: owned_at_def fun_eq_iff)
  then have fds: "k_fds (s_kernel s2) = ?base" using s2(2) by (simp add: loop_inv_def fd_inv_def)
  have "s_epoll_fd s2 = s_epoll_fd s" "s_timer_fd s2 = s_timer_fd s"
    using s2(2) by (simp_all add: loop_inv_def config_of_def)
  then have "k_fds (sys_close (s_epoll_fd s2) (sys_close (s_timer_fd s2) (s_kernel s2))) = k_fds k"
    using ok fds by (auto simp: sys_close_def)
  with su ends(1) s2 heap show thesis
    by (intro that [of "s2\<lparr>s_kernel := sys_close (s_epoll_fd s2) (sys_close (s_timer_fd s2) (s_kernel s2))\<rparr>"])
       (simp_all add: event_loop_run_def sys_close_def)
qed

lemma event_loop_run_ok:
  assumes "wf_root root" "\<bar>cfg_worker_id config\<bar> < 2 ^ 31"
    "\<And>s. event_loop_setup config su root k = Inr s \<Longrightarrow> epoll_waits waits s"
    "\<And>s. event_loop_setup config su root k = Inr s \<Longrightarrow> sweeps_spare waits s"
  shows "\<exists>out. event_loop_run config su waits root k = Some out \<and>
    (case out of
       Not_started k' \<Rightarrow> k_fds k' = k_fds k
     | Returned status s \<Rightarrow> k_fds (s_kernel s) = k_fds k \<and> s_heap s = Map.empty
     | Running s \<Rightarrow> (\<exists>base ps. any_inv (config_of s) base ps s \<and> k_fds k \<subseteq> base))"
proof (cases "event_loop_setup config su root k")
  case (Inl k')
  then show ?thesis
    using event_loop_setup_ok [where config = config and su = su and root = root and k = k]
    by (simp add: event_loop_run_def)
next
  case (Inr s)
  note su = event_loop_setup_ok [where config = config and su = su and root = root and k = k, unfolded Inr sum.case]
  from setup_inv [OF Inr assms(1,2)] obtain ctl s1 ps1 where
    1: "wait_loop waits s = Some (ctl, s1)" "any_inv (config_of s) (k_fds (s_kernel s)) ps1 s1"
    using wait_loop_inv assms(3,4) [OF Inr] by blast
  then have cfg: "config_of s1 = config_of s" by (auto simp: any_inv_def loop_inv_def)
  show ?thesis
  proof (cases ctl)
    case Continue
    then show ?thesis using Inr 1 cfg su by (auto simp: event_loop_run_def)
  next
    case (Exit status)
    then obtain s3 where "event_loop_run config su waits root k = Some (Returned status s3)"
      "k_fds (s_kernel s3) = k_fds k" "s_heap s3 = Map.empty"
      using run_exit_ok [OF Inr _ 1(2)] 1(1) by metis
    then show ?thesis by simp
  qed
qed

text \<open>
  C25. A whole run. From a well-formed document root and a worker number that is an
  \<^verbatim>\<open>int\<close>, \<open>event_loop_run\<close> does not go wrong on any sequence of batches, provided
  that each satisfies what epoll documents (\<open>epoll_waits\<close>: it names live connections, each
  once) and that no timer event comes before an event of a connection that is idle by then
  (\<open>sweeps_spare\<close>: epoll does not promise this, and without it C33 shows a use after free).
  If the set-up fails or the loop ends, the open descriptors are those from before the call
  and no connection is left allocated; while it runs, the invariant holds.
\<close>

theorem event_loop_run_safe:
  assumes "wf_root root" "\<bar>cfg_worker_id config\<bar> < 2 ^ 31"
    "\<And>s. event_loop_setup config su root k = Inr s \<Longrightarrow> epoll_waits waits s"
    "\<And>s. event_loop_setup config su root k = Inr s \<Longrightarrow> sweeps_spare waits s"
  shows "\<exists>out. event_loop_run config su waits root k = Some out \<and>
    (case out of
       Not_started k' \<Rightarrow> k_fds k' = k_fds k
     | Returned status s \<Rightarrow> k_fds (s_kernel s) = k_fds k \<and> s_heap s = Map.empty
     | Running s \<Rightarrow> (\<exists>base ps. any_inv (config_of s) base ps s \<and> k_fds k \<subseteq> base))"
  using assms by (rule event_loop_run_ok)

definition demo_config :: event_loop_config where
  "demo_config = \<lparr>cfg_listen_fd = 3, cfg_idle_timeout_seconds = 30, cfg_shutdown_fd = 9, cfg_worker_id = 0\<rparr>"

definition demo_setup :: setup_answers where
  "demo_setup = \<lparr>su_nonblocking = True, su_epoll = Some 20, su_add_listen = True, su_timer = Some 21,
     su_settime = True, su_add_timer = True, su_add_shutdown = True\<rparr>"

theorem event_loop_run_safe_witness:
  "\<exists>out. event_loop_run demo_config demo_setup
        [Wait_error EINTR, Ready [\<lparr>ev_source = Listen_fd, ev_error = False\<rparr>], Ready [\<lparr>ev_source = Shutdown_fd, ev_error = False\<rparr>]]
        demo_root demo_kernel = Some out \<and>
    (case out of
       Not_started k' \<Rightarrow> k_fds k' = k_fds demo_kernel
     | Returned status s \<Rightarrow> k_fds (s_kernel s) = k_fds demo_kernel \<and> s_heap s = Map.empty
     | Running s \<Rightarrow> (\<exists>base ps. any_inv (config_of s) base ps s \<and> k_fds demo_kernel \<subseteq> base))"
  by (rule event_loop_run_safe [OF demo_root_wf])
     (auto simp: demo_config_def epoll_batch_def split: option.splits loop_control.splits)

text \<open>
  C33. A use after free. If a batch reports the timer before a connection that has been idle
  for the timeout, the sweep frees the connection and the next turn of the loop dereferences
  its pointer: the behaviour of the code is undefined. Nothing in epoll excludes such a
  batch (the data of the client may arrive after the timer expired and before
  \<^verbatim>\<open>epoll_wait\<close> returns).
\<close>

theorem timer_then_connection_use_after_free:
  assumes "live_list s ps" "idle_at (fst (sys_time (s_kernel s))) s p"
  shows "handle_events (\<lparr>ev_source = Timer_fd, ev_error = False\<rparr> # \<lparr>ev_source = Conn p, ev_error = e\<rparr> # evs) s = None"
proof -
  obtain now k where t: "sys_time (s_kernel s) = (now, k)" by fastforce
  let ?s = "s\<lparr>s_kernel := k\<rparr>"
  have "live_list ?s ps" using assms(1) by (simp add: live_list_def)
  moreover have "idle_at now ?s p" using assms(2) t by (auto simp: idle_at_def split: option.splits)
  ultimately obtain s' where s': "sweep_from now (s_connections s) ?s = Some s'" "heap_data (s_heap s') p = None"
    using sweep_from_ok [of ?s ps now] by auto
  then have free: "s_heap s' p = None" by (simp add: heap_data_def)
  then have "handle_event \<lparr>ev_source = Conn p, ev_error = e\<rparr> s' = None"
    by (simp add: handle_event_def is_infrastructure_fd_def continue_def close_connection_def list_remove_def)
  with s'(1) t show ?thesis
    by (simp add: handle_event_def continue_def sweep_idle_connections_def)
qed

theorem timer_then_connection_use_after_free_witness:
  "handle_events [\<lparr>ev_source = Timer_fd, ev_error = False\<rparr>, \<lparr>ev_source = Conn 2, ev_error = False\<rparr>] demo_server = None"
  by (rule timer_then_connection_use_after_free [OF demo_server_live])
     (simp add: idle_at_def demo_heap, simp add: demo_server_def demo_kernel_def sys_time_def)

lemma wait_loop_append: "wait_loop waits s = Some (Continue, s1) \<Longrightarrow> wait_loop (waits @ ws) s = wait_loop ws s1"
proof (induction waits s arbitrary: s1 rule: wait_loop.induct)
  case (3 evs waits s)
  from 3(2) obtain ctl s2 where e: "handle_events evs s = Some (ctl, s2)"
    by (cases "handle_events evs s") auto
  with 3 show ?case by (cases ctl) auto
qed (auto split: if_splits)

section \<open>A client connects\<close>

text \<open>The server after its first client, with descriptor \<open>fd\<close>, was accepted into the block \<open>p\<close>.\<close>

definition met :: "nat \<Rightarrow> int \<Rightarrow> server \<Rightarrow> server" where
  "met p fd s = s\<lparr>s_heap := [p \<mapsto> new_connection fd (k_now (s_kernel s))], s_connections := Some p,
     s_kernel := (s_kernel s)\<lparr>k_accepts := [], k_fds := insert fd (k_fds (s_kernel s)),
       k_wire := (k_wire (s_kernel s))(fd := []), k_mallocs := []\<rparr>\<rparr>"

lemma accept_one:
  assumes "s_connections s = None" "s_heap s = Map.empty" "0 \<le> fd" "fd \<notin> k_fds (s_kernel s)"
    "k_accepts (s_kernel s) = [Accepted fd]" "k_mallocs (s_kernel s) = [Some p]" "k_times (s_kernel s) = []"
    "k_ctls (s_kernel s) = []"
  shows "handle_event \<lparr>ev_source = Listen_fd, ev_error = False\<rparr> s = Some (Continue, met p fd s)"
proof -
  have "accept_new_connections s = accept_new_connections (met p fd s)"
    using assms by (subst accept_new_connections.simps)
      (simp add: met_def sys_accept_def sys_malloc_def sys_time_def list_insert_def upd_conn_def put_conn_def
        sys_epoll_ctl_def new_connection_def fun_upd_idem)
  also have "\<dots> = Some (met p fd s)"
    by (subst accept_new_connections.simps) (simp add: met_def sys_accept_def)
  finally show ?thesis by (simp add: handle_event_def continue_def)
qed

end
