(* ===== verification/Settings.thy ===== *)
theory Settings
  imports Response
begin

text \<open>
  The numbers the server takes from its environment: \<^verbatim>\<open>strtol\<close> in base 10,
  \<^verbatim>\<open>online_cpu_count\<close> and \<^verbatim>\<open>worker_pool_worker_count\<close> of
  \<^verbatim>\<open>worker_pool.c\<close> and \<^verbatim>\<open>idle_timeout_from_env\<close> of \<^verbatim>\<open>main.c\<close>.
  Both settings follow one contract, the locale \<open>bounded_setting\<close>: a numeral within the
  limits is taken, anything else gives a fallback that is within them.
\<close>

section \<open>strtol\<close>

text \<open>
  \<^verbatim>\<open>strtol(s, &end, 10)\<close> of the C standard, in the C locale and with a
  \<^verbatim>\<open>long\<close> of 64 bits: the value, and how many characters lie before
  \<^verbatim>\<open>end\<close>. A C string is the list of its characters without the terminator, so
  \<^verbatim>\<open>*end == '\0'\<close> says that \<^verbatim>\<open>end\<close> is its length.
\<close>

definition is_space :: "char \<Rightarrow> bool" where
  "is_space c \<longleftrightarrow> c = SP \<or> 9 \<le> byte c \<and> byte c \<le> 13"

definition LONG_MAX :: int where "LONG_MAX = 2 ^ 63 - 1"
definition LONG_MIN :: int where "LONG_MIN = - (2 ^ 63)"

definition clamp_long :: "int \<Rightarrow> int" where
  "clamp_long i = max LONG_MIN (min LONG_MAX i)"

definition is_sign :: "char \<Rightarrow> bool" where
  "is_sign c \<longleftrightarrow> c = CHR ''+'' \<or> c = CHR ''-''"

definition sign_len :: "string \<Rightarrow> nat" where
  "sign_len s = (case s of [] \<Rightarrow> 0 | c # cs \<Rightarrow> if is_sign c then 1 else 0)"

definition is_negative :: "string \<Rightarrow> bool" where
  "is_negative s \<longleftrightarrow> (case s of [] \<Rightarrow> False | c # cs \<Rightarrow> c = CHR ''-'')"

definition strtol :: "string \<Rightarrow> int \<times> nat" where
  "strtol s =
     (let ws = takeWhile is_space s;
          r = drop (length ws) s;
          ds = takeWhile is_digit (drop (sign_len r) r);
          n = int (parse_decimal 0 ds)
      in if ds = [] then (0, 0)
         else (clamp_long (if is_negative r then - n else n), length ws + sign_len r + length ds))"

section \<open>The settings\<close>

definition MAX_WORKERS :: int where "MAX_WORKERS = 64"
definition DEFAULT_IDLE_TIMEOUT_SECONDS :: int where "DEFAULT_IDLE_TIMEOUT_SECONDS = 30"

text \<open>The argument is the answer of \<^verbatim>\<open>sysconf(_SC_NPROCESSORS_ONLN)\<close>.\<close>

definition online_cpu_count :: "int \<Rightarrow> int" where
  "online_cpu_count online =
     (if online < 1 then 1 else if online > MAX_WORKERS then MAX_WORKERS else online)"

text \<open>The argument \<open>raw\<close> is the answer of \<^verbatim>\<open>getenv\<close>.\<close>

definition worker_pool_worker_count :: "int \<Rightarrow> string option \<Rightarrow> int" where
  "worker_pool_worker_count online raw =
     (case raw of
        None \<Rightarrow> online_cpu_count online
      | Some s \<Rightarrow>
          if s = [] then online_cpu_count online
          else let (v, e) = strtol s
               in if e = 0 \<or> e \<noteq> length s \<or> v < 1 \<or> v > MAX_WORKERS then online_cpu_count online else v)"

definition idle_timeout_from_env :: "string option \<Rightarrow> int" where
  "idle_timeout_from_env raw =
     (case raw of
        None \<Rightarrow> DEFAULT_IDLE_TIMEOUT_SECONDS
      | Some s \<Rightarrow>
          if s = [] then DEFAULT_IDLE_TIMEOUT_SECONDS
          else let (v, e) = strtol s
               in if e = 0 \<or> e \<noteq> length s \<or> v \<le> 0 \<or> v > 3600 then DEFAULT_IDLE_TIMEOUT_SECONDS else v)"

section \<open>Numerals\<close>

text \<open>The strings \<^verbatim>\<open>strtol\<close> reads to their end, with the number they denote.\<close>

definition numeral_of :: "string \<Rightarrow> int \<Rightarrow> bool" where
  "numeral_of s i \<longleftrightarrow>
     (\<exists>ws sg ds. s = ws @ sg @ ds \<and> list_all is_space ws \<and> sg \<in> {[], ''+'', ''-''} \<and> is_number ds \<and>
        i = (if sg = ''-'' then - int (parse_decimal 0 ds) else int (parse_decimal 0 ds)))"

lemma char_classes_disjoint:
  "is_digit c \<Longrightarrow> \<not> is_space c" "is_sign c \<Longrightarrow> \<not> is_space c" "is_digit c \<Longrightarrow> \<not> is_sign c"
  by (auto simp: is_digit_def is_space_def is_sign_def)

lemma takeWhile_prefix:
  "list_all P xs \<Longrightarrow> ys = [] \<or> \<not> P (hd ys) \<Longrightarrow> takeWhile P (xs @ ys) = xs"
  by (cases ys) (auto simp: list_all_iff takeWhile_append2 takeWhile_append1)

lemma is_number_hd: "is_number ds \<Longrightarrow> is_digit (hd ds)"
  by (cases ds) (auto simp: is_number_def)

lemma strtol_numeral:
  assumes "numeral_of s i"
  shows "strtol s = (clamp_long i, length s) \<and> s \<noteq> []"
proof -
  obtain ws sg ds where s: "s = ws @ sg @ ds" "list_all is_space ws" "sg \<in> {[], ''+'', ''-''}" "is_number ds"
    and i: "i = (if sg = ''-'' then - int (parse_decimal 0 ds) else int (parse_decimal 0 ds))"
    using assms unfolding numeral_of_def by blast
  have d: "is_digit (hd ds)" "ds \<noteq> []" using s(4) is_number_hd by (auto simp: is_number_def)
  then obtain c cs where ds: "ds = c # cs" "is_digit c" by (cases ds) auto
  have "\<not> is_space CHR ''+''" "\<not> is_space CHR ''-''" by (simp_all add: is_space_def)
  then have "\<not> is_space (hd (sg @ ds))" using s(3) ds char_classes_disjoint(1) [OF ds(2)] by auto
  then have ws: "takeWhile is_space s = ws" using s(1,2) by (auto intro: takeWhile_prefix)
  have sg: "sign_len (sg @ ds) = length sg" "is_negative (sg @ ds) \<longleftrightarrow> sg = ''-''"
    using s(3) ds char_classes_disjoint(3) [OF ds(2)]
    by (auto simp: sign_len_def is_negative_def is_sign_def)
  have "takeWhile is_digit ds = ds" using s(4) by (simp add: is_number_def list_all_iff)
  then have tk: "takeWhile is_digit (drop (length sg) (sg @ ds)) = ds"
    by (simp del: takeWhile_eq_all_conv)
  have r: "drop (length ws) s = sg @ ds" using s(1) by simp
  have "strtol s = (clamp_long i, length ws + length sg + length ds)"
    unfolding strtol_def Let_def ws r sg tk i using d(2) by simp
  then show ?thesis using s(1) d(2) by simp
qed

lemma strtol_complete:
  assumes "strtol s = (v, length s)" "s \<noteq> []"
  shows "\<exists>i. numeral_of s i \<and> v = clamp_long i"
proof -
  define ws where "ws = takeWhile is_space s"
  define r where "r = dropWhile is_space s"
  define sg where "sg = take (sign_len r) r"
  define ds where "ds = takeWhile is_digit (drop (sign_len r) r)"
  define tl' where "tl' = dropWhile is_digit (drop (sign_len r) r)"
  have r: "drop (length ws) s = r" by (simp add: ws_def r_def dropWhile_eq_drop)
  have s: "s = ws @ sg @ ds @ tl'" by (simp add: ws_def r_def sg_def ds_def tl'_def)
  have lsg: "length sg = sign_len r" by (cases r) (auto simp: sg_def sign_len_def)
  have "ds \<noteq> []" and len: "length ws + sign_len r + length ds = length s"
    and v: "v = clamp_long (if is_negative r then - int (parse_decimal 0 ds) else int (parse_decimal 0 ds))"
    using assms r by (auto simp: strtol_def Let_def ws_def [symmetric] ds_def [symmetric] split: if_splits)
  have "tl' = []" using len s lsg by (metis add.assoc append_Nil2 length_append add_left_cancel length_0_conv add_cancel_right_right)
  moreover have "list_all is_space ws" by (auto simp: ws_def list_all_iff dest: set_takeWhileD)
  moreover have "sg \<in> {[], ''+'', ''-''}" "is_negative r \<longleftrightarrow> sg = ''-''"
    by (cases r; auto simp: sg_def sign_len_def is_sign_def is_negative_def)+
  moreover have "is_number ds" using \<open>ds \<noteq> []\<close> by (auto simp: is_number_def ds_def list_all_iff dest: set_takeWhileD)
  ultimately have "numeral_of s (if is_negative r then - int (parse_decimal 0 ds) else int (parse_decimal 0 ds))"
    using s unfolding numeral_of_def by (intro exI [of _ ws] exI [of _ sg] exI [of _ ds]) simp
  then show ?thesis using v by blast
qed

lemma numeral_of_decimal: "0 \<le> i \<Longrightarrow> numeral_of (decimal i) i"
  unfolding numeral_of_def
  by (rule exI [of _ "[]"], rule exI [of _ "[]"], rule exI [of _ "decimal i"])
     (simp add: decimal_nonneg decimal_nat_is_number)

lemma clamp_long_in: "lo \<le> clamp_long i \<Longrightarrow> clamp_long i \<le> hi \<Longrightarrow> LONG_MIN < lo \<Longrightarrow> hi < LONG_MAX \<Longrightarrow> clamp_long i = i"
  by (auto simp: clamp_long_def max_def min_def split: if_splits)

lemma clamp_long_id: "lo \<le> i \<Longrightarrow> i \<le> hi \<Longrightarrow> LONG_MIN < lo \<Longrightarrow> hi < LONG_MAX \<Longrightarrow> clamp_long i = i"
  by (auto simp: clamp_long_def)

section \<open>The contract of a setting\<close>

locale bounded_setting =
  fixes setting :: "string option \<Rightarrow> int" and lo hi fallback :: int
  assumes setting_None: "setting None = fallback"
    and setting_Some: "setting (Some s) =
      (let (v, e) = strtol s in if s = [] \<or> e = 0 \<or> e \<noteq> length s \<or> v < lo \<or> hi < v then fallback else v)"
    and long_limits: "LONG_MIN < lo" "hi < LONG_MAX"
    and fallback_ok: "lo \<le> fallback" "fallback \<le> hi"
begin

lemma within: "lo \<le> setting raw \<and> setting raw \<le> hi"
  using fallback_ok by (cases raw) (auto simp: setting_None setting_Some split: prod.splits)

lemma taken:
  assumes "numeral_of s i" "lo \<le> i" "i \<le> hi"
  shows "setting (Some s) = i"
  using strtol_numeral [OF assms(1)] clamp_long_id [OF assms(2,3) long_limits] assms(2,3)
  by (simp add: setting_Some)

lemma ignored:
  assumes "\<not> (\<exists>i. numeral_of s i \<and> lo \<le> i \<and> i \<le> hi)"
  shows "setting (Some s) = fallback"
proof (rule ccontr)
  assume "setting (Some s) \<noteq> fallback"
  then obtain v where v: "strtol s = (v, length s)" "s \<noteq> []" "lo \<le> v" "v \<le> hi"
    by (cases "strtol s") (auto simp: setting_Some split: if_splits)
  obtain i where "numeral_of s i" "v = clamp_long i" using strtol_complete [OF v(1,2)] by blast
  with assms v(3,4) clamp_long_in [of lo i hi] long_limits show False by auto
qed

lemma printed: "lo \<le> i \<Longrightarrow> i \<le> hi \<Longrightarrow> 0 \<le> i \<Longrightarrow> setting (Some (decimal i)) = i"
  by (rule taken [OF numeral_of_decimal])

end

interpretation workers: bounded_setting "worker_pool_worker_count online" 1 MAX_WORKERS "online_cpu_count online" for online
  by unfold_locales
     (auto simp: worker_pool_worker_count_def online_cpu_count_def MAX_WORKERS_def LONG_MIN_def LONG_MAX_def
        split: prod.splits)

interpretation timeout: bounded_setting idle_timeout_from_env 1 3600 DEFAULT_IDLE_TIMEOUT_SECONDS
  by unfold_locales
     (auto simp: idle_timeout_from_env_def DEFAULT_IDLE_TIMEOUT_SECONDS_def LONG_MIN_def LONG_MAX_def
        split: prod.splits)

text \<open>
  C37. The number of workers. Whatever the system and the environment say, the result is
  between 1 and 64. The variable decides exactly when it is a decimal numeral (white space
  and a sign before it allowed) of such a number; every other content, an overflowing number
  or a trailing character included, falls back to the count of processors.
\<close>

theorem worker_count_decided:
  "1 \<le> worker_pool_worker_count online raw \<and> worker_pool_worker_count online raw \<le> 64 \<and>
   (\<forall>s i. numeral_of s i \<and> 1 \<le> i \<and> i \<le> 64 \<longrightarrow> worker_pool_worker_count online (Some s) = i) \<and>
   (\<forall>s. (\<nexists>i. numeral_of s i \<and> 1 \<le> i \<and> i \<le> 64) \<longrightarrow>
      worker_pool_worker_count online (Some s) = worker_pool_worker_count online None)"
  using workers.within [of online raw] workers.taken [of _ _ online] workers.ignored [of _ online]
  by (simp add: MAX_WORKERS_def workers.setting_None)

theorem worker_count_decided_witness:
  "worker_pool_worker_count 8 (Some ''12'') = 12 \<and> worker_pool_worker_count 8 (Some ''12x'') \<le> 64"
proof -
  have "decimal 12 = ''12''" by code_simp
  then have "numeral_of ''12'' 12" using numeral_of_decimal [of 12] by simp
  then show ?thesis
    using worker_count_decided [of 8 "Some ''12x''"] by auto
qed

text \<open>
  The idle timeout. It is always between 1 second and an hour; a decimal numeral of such
  a number is taken and everything else means 30 seconds.
\<close>

lemma idle_timeout_decided:
  "1 \<le> idle_timeout_from_env raw \<and> idle_timeout_from_env raw \<le> 3600 \<and>
   (\<forall>s i. numeral_of s i \<and> 1 \<le> i \<and> i \<le> 3600 \<longrightarrow> idle_timeout_from_env (Some s) = i) \<and>
   (\<forall>s. (\<nexists>i. numeral_of s i \<and> 1 \<le> i \<and> i \<le> 3600) \<longrightarrow> idle_timeout_from_env (Some s) = 30) \<and>
   idle_timeout_from_env None = 30"
  using timeout.within [of raw] timeout.taken timeout.ignored
  by (simp add: DEFAULT_IDLE_TIMEOUT_SECONDS_def timeout.setting_None)

end
