(* ===== verification/Worker_Pool.thy ===== *)
theory Worker_Pool
  imports Loop_Safety Settings
begin

text \<open>
  The pool of worker threads, \<^verbatim>\<open>worker_pool.c\<close>: the listening socket of a worker, the
  body of a thread, and \<^verbatim>\<open>worker_pool_run\<close>. The pool is a step relation, in which the
  creating and joining thread and every worker move in any order; \<open>worker_pool_run\<close> is the
  reference in which a thread runs when it is joined.

  A thread has its own view of the kernel. Descriptors that other threads hold are one of the
  reasons for which the kernel does not hand out a descriptor in this view; no thread uses a
  descriptor of another one, except the shutdown descriptor, which is never closed by them.
\<close>

section \<open>Listening sockets\<close>

text \<open>
  A TCP socket as far as the calls of a worker set it: its two options, the port it is bound
  to (16 bits) and the backlog it listens with. \<open>n_socks\<close> are the sockets of the process by
  descriptor, those of the other workers among them; \<open>n_time_wait\<close> are the ports of
  connections that were closed a moment ago.
\<close>

record sock =
  sk_reuseaddr :: bool
  sk_reuseport :: bool
  sk_port :: "int option"
  sk_backlog :: "int option"

record net =
  n_socks :: "(int \<times> sock) list"
  n_time_wait :: "int list"

datatype socket_option = SO_REUSEADDR | SO_REUSEPORT

definition upd_sock :: "int \<Rightarrow> (sock \<Rightarrow> sock) \<Rightarrow> net \<Rightarrow> net" where
  "upd_sock fd f n = n\<lparr>n_socks := map (\<lambda>(d, s). if d = fd then (d, f s) else (d, s)) (n_socks n)\<rparr>"

text \<open>
  The calls. Each may fail for reasons outside this state (such as sockets of other processes),
  which the argument \<open>ok\<close> says; a new socket has no option set and no address.
\<close>

definition sock_socket :: "int option \<Rightarrow> net \<Rightarrow> kernel \<Rightarrow> int option \<times> net \<times> kernel" where
  "sock_socket a n k =
     (case open_fresh a k of
        (None, k1) \<Rightarrow> (None, n, k1)
      | (Some fd, k1) \<Rightarrow>
          (Some fd,
           n\<lparr>n_socks := (fd, \<lparr>sk_reuseaddr = False, sk_reuseport = False, sk_port = None, sk_backlog = None\<rparr>) # n_socks n\<rparr>,
           k1))"

definition sock_setsockopt :: "bool \<Rightarrow> int \<Rightarrow> socket_option \<Rightarrow> bool \<Rightarrow> net \<Rightarrow> bool \<times> net" where
  "sock_setsockopt ok fd name val n =
     (if \<not> ok then (False, n)
      else (True, upd_sock fd (\<lambda>s. case name of SO_REUSEADDR \<Rightarrow> s\<lparr>sk_reuseaddr := val\<rparr>
                                   | SO_REUSEPORT \<Rightarrow> s\<lparr>sk_reuseport := val\<rparr>) n))"

text \<open>
  \<^verbatim>\<open>bind\<close> to a port on all addresses, as socket(7) has it: a port of closed
  connections needs \<^verbatim>\<open>SO_REUSEADDR\<close>; a port that another socket is bound to needs
  \<^verbatim>\<open>SO_REUSEPORT\<close> on both, set before \<^verbatim>\<open>bind\<close>, or \<^verbatim>\<open>SO_REUSEADDR\<close> on
  both while the other does not listen. Otherwise it fails with \<^verbatim>\<open>EADDRINUSE\<close>.
\<close>

definition may_share :: "sock \<Rightarrow> sock \<Rightarrow> bool" where
  "may_share s t \<longleftrightarrow>
     sk_reuseport s \<and> sk_reuseport t \<or> sk_reuseaddr s \<and> sk_reuseaddr t \<and> sk_backlog t = None"

definition addr_in_use :: "int \<Rightarrow> sock \<Rightarrow> int \<Rightarrow> net \<Rightarrow> bool" where
  "addr_in_use fd s port n \<longleftrightarrow>
     port \<in> set (n_time_wait n) \<and> \<not> sk_reuseaddr s \<or>
     list_ex (\<lambda>(d, t). d \<noteq> fd \<and> sk_port t = Some port \<and> \<not> may_share s t) (n_socks n)"

definition sock_bind :: "bool \<Rightarrow> int \<Rightarrow> int \<Rightarrow> net \<Rightarrow> bool \<times> net" where
  "sock_bind ok fd port n =
     (case map_of (n_socks n) fd of
        None \<Rightarrow> (False, n)
      | Some s \<Rightarrow>
          if \<not> ok \<or> addr_in_use fd s port n then (False, n)
          else (True, upd_sock fd (\<lambda>s. s\<lparr>sk_port := Some port\<rparr>) n))"

definition sock_listen :: "bool \<Rightarrow> int \<Rightarrow> int \<Rightarrow> net \<Rightarrow> bool \<times> net" where
  "sock_listen ok fd backlog n =
     (if \<not> ok then (False, n) else (True, upd_sock fd (\<lambda>s. s\<lparr>sk_backlog := Some backlog\<rparr>) n))"

definition sock_close :: "int \<Rightarrow> net \<Rightarrow> kernel \<Rightarrow> net \<times> kernel" where
  "sock_close fd n k = (n\<lparr>n_socks := filter (\<lambda>(d, s). d \<noteq> fd) (n_socks n)\<rparr>, sys_close fd k)"

record listen_answers =
  la_socket :: "int option"
  la_reuseaddr :: bool
  la_reuseport :: bool
  la_bind :: bool
  la_listen :: bool

definition create_listen_socket :: "int \<Rightarrow> int \<Rightarrow> listen_answers \<Rightarrow> net \<Rightarrow> kernel \<Rightarrow> int \<times> net \<times> kernel" where
  "create_listen_socket port backlog la n k =
     (case sock_socket (la_socket la) n k of
        (None, n1, k1) \<Rightarrow> (-1, n1, k1)
      | (Some fd, n1, k1) \<Rightarrow>
          (case sock_setsockopt (la_reuseaddr la) fd SO_REUSEADDR True n1 of
             (False, n2) \<Rightarrow> (-1, sock_close fd n2 k1)
           | (True, n2) \<Rightarrow>
               (case sock_setsockopt (la_reuseport la) fd SO_REUSEPORT True n2 of
                  (False, n3) \<Rightarrow> (-1, sock_close fd n3 k1)
                | (True, n3) \<Rightarrow>
                    (case sock_bind (la_bind la) fd (port mod 2 ^ 16) n3 of
                       (False, n4) \<Rightarrow> (-1, sock_close fd n4 k1)
                     | (True, n4) \<Rightarrow>
                         (case sock_listen (la_listen la) fd backlog n4 of
                            (False, n5) \<Rightarrow> (-1, sock_close fd n5 k1)
                          | (True, n5) \<Rightarrow> (fd, n5, k1))))))"

section \<open>The body of a thread\<close>

record worker_pool_config =
  wp_port :: int
  wp_backlog :: int
  wp_worker_count :: int
  wp_idle_timeout_seconds :: int
  wp_shutdown_fd :: int

text \<open>The slot of a worker; the configuration of a fresh slot is the null pointer.\<close>

record worker =
  w_id :: int
  w_config :: "worker_pool_config option"
  w_started :: bool
  w_served :: bool

text \<open>
  What the system answers one thread: the results of \<^verbatim>\<open>pthread_create\<close> and
  \<^verbatim>\<open>pthread_join\<close>, and the answers to the calls of its body; \<open>te_net\<close> are the
  sockets of the process when the thread creates its own.
\<close>

record thread_env =
  te_create :: int
  te_join :: int
  te_listen :: listen_answers
  te_setup :: setup_answers
  te_waits :: "wait_answer list"
  te_net :: net
  te_kernel :: kernel

text \<open>A thread is in its loop, or it has ended and says whether it served.\<close>

datatype thread_outcome = Thread_running server | Thread_done bool kernel

definition worker_main :: "thread_env \<Rightarrow> static_root \<Rightarrow> worker \<Rightarrow> thread_outcome option" where
  "worker_main te root w =
     do {
       config \<leftarrow> w_config w;
       (case create_listen_socket (wp_port config) (wp_backlog config) (te_listen te) (te_net te) (te_kernel te) of
          (listen_fd, n1, k1) \<Rightarrow>
            if listen_fd < 0 then Some (Thread_done False k1)
            else do {
              out \<leftarrow> event_loop_run
                \<lparr>cfg_listen_fd = listen_fd, cfg_idle_timeout_seconds = wp_idle_timeout_seconds config,
                 cfg_shutdown_fd = wp_shutdown_fd config, cfg_worker_id = w_id w\<rparr>
                (te_setup te) (te_waits te) root k1;
              (case out of
                 Running s \<Rightarrow> Some (Thread_running s)
               | Not_started k2 \<Rightarrow> Some (Thread_done False (sys_close listen_fd k2))
               | Returned status s \<Rightarrow> Some (Thread_done (\<not> status < 0) (sys_close listen_fd (s_kernel s))))
            })
     }"

section \<open>The pool, interleaved\<close>

datatype thread_state = Idle | Active | Finished kernel

text \<open>
  Where the thread that runs \<^verbatim>\<open>worker_pool_run\<close> is: about to create worker \<open>i\<close>, about to
  mark it as started, about to join it, or back at its caller. \<open>Undefined\<close> is a state after
  undefined behaviour of some thread.
\<close>

datatype pool_pc = Creating nat | Marking nat | Joining nat | Pool_returned int | Undefined

record pool =
  po_pc :: pool_pc
  po_workers :: "nat \<Rightarrow> worker"
  po_allocated :: bool
  po_threads :: "nat \<Rightarrow> thread_state"
  po_started :: nat
  po_serving :: nat

definition empty_slot :: worker where
  "empty_slot = \<lparr>w_id = 0, w_config = None, w_started = False, w_served = False\<rparr>"

text \<open>The guards before the first thread; \<open>alloc\<close> says whether \<^verbatim>\<open>calloc\<close> succeeds.\<close>

definition pool_start :: "worker_pool_config \<Rightarrow> bool \<Rightarrow> pool" where
  "pool_start config alloc =
     (let p = \<lparr>po_pc = Pool_returned (-1), po_workers = (\<lambda>i. empty_slot), po_allocated = False,
               po_threads = (\<lambda>i. Idle), po_started = 0, po_serving = 0\<rparr>
      in if wp_worker_count config < 1 then p
         else if \<not> alloc then p
         else p\<lparr>po_pc := Creating 0, po_allocated := True\<rparr>)"

definition name_worker :: "worker_pool_config \<Rightarrow> nat \<Rightarrow> pool \<Rightarrow> pool" where
  "name_worker config i p =
     p\<lparr>po_workers := (po_workers p)(i := (po_workers p i)\<lparr>w_id := int i, w_config := Some config\<rparr>)\<rparr>"

inductive pool_step :: "worker_pool_config \<Rightarrow> (nat \<Rightarrow> thread_env) \<Rightarrow> static_root \<Rightarrow> pool \<Rightarrow> pool \<Rightarrow> bool"
  for config envs root where
  create_ok: "pool_step config envs root p
      ((name_worker config i p)\<lparr>po_pc := Marking i, po_threads := (po_threads p)(i := Active)\<rparr>)"
    if "po_pc p = Creating i" "int i < wp_worker_count config" "te_create (envs i) = 0"
| create_fail: "pool_step config envs root p ((name_worker config i p)\<lparr>po_pc := Creating (Suc i)\<rparr>)"
    if "po_pc p = Creating i" "int i < wp_worker_count config" "te_create (envs i) \<noteq> 0"
| mark_started: "pool_step config envs root p
      (p\<lparr>po_pc := Creating (Suc i), po_started := Suc (po_started p),
         po_workers := (po_workers p)(i := (po_workers p i)\<lparr>w_started := True\<rparr>)\<rparr>)"
    if "po_pc p = Marking i"
| none_started: "pool_step config envs root p (p\<lparr>po_pc := Pool_returned (-1), po_allocated := False\<rparr>)"
    if "po_pc p = Creating i" "wp_worker_count config \<le> int i" "po_started p = 0"
| all_created: "pool_step config envs root p (p\<lparr>po_pc := Joining 0\<rparr>)"
    if "po_pc p = Creating i" "wp_worker_count config \<le> int i" "po_started p \<noteq> 0"
| join_skip: "pool_step config envs root p (p\<lparr>po_pc := Joining (Suc i)\<rparr>)"
    if "po_pc p = Joining i" "int i < wp_worker_count config" "\<not> w_started (po_workers p i)"
| join_error: "pool_step config envs root p (p\<lparr>po_pc := Joining (Suc i)\<rparr>)"
    if "po_pc p = Joining i" "int i < wp_worker_count config" "w_started (po_workers p i)" "te_join (envs i) \<noteq> 0"
| join_ok: "pool_step config envs root p
      (p\<lparr>po_pc := Joining (Suc i),
         po_serving := (if w_served (po_workers p i) then Suc (po_serving p) else po_serving p)\<rparr>)"
    if "po_pc p = Joining i" "int i < wp_worker_count config" "w_started (po_workers p i)" "te_join (envs i) = 0"
       "po_threads p i = Finished k"
| all_joined: "pool_step config envs root p
      (p\<lparr>po_pc := Pool_returned (if po_serving p = 0 then -1 else 0), po_allocated := False\<rparr>)"
    if "po_pc p = Joining i" "wp_worker_count config \<le> int i"
| thread_done: "pool_step config envs root p
      (p\<lparr>po_threads := (po_threads p)(i := Finished k),
         po_workers := (po_workers p)(i := (po_workers p i)\<lparr>w_served := w_served (po_workers p i) \<or> served\<rparr>)\<rparr>)"
    if "po_threads p i = Active" "po_allocated p"
       "worker_main (envs i) root (po_workers p i) = Some (Thread_done served k)"
| thread_wrong: "pool_step config envs root p (p\<lparr>po_pc := Undefined\<rparr>)"
    if "po_threads p i = Active" "\<not> po_allocated p \<or> worker_main (envs i) root (po_workers p i) = None"
       "po_pc p \<noteq> Undefined"

section \<open>The pool, in sequence\<close>

datatype pool_result = Pool_result int | Pool_blocked

definition new_worker :: "worker_pool_config \<Rightarrow> (nat \<Rightarrow> thread_env) \<Rightarrow> nat \<Rightarrow> worker" where
  "new_worker config envs i =
     \<lparr>w_id = int i, w_config = Some config, w_started = te_create (envs i) = 0, w_served = False\<rparr>"

fun join_workers ::
  "(nat \<Rightarrow> thread_env) \<Rightarrow> static_root \<Rightarrow> (nat \<Rightarrow> worker) \<Rightarrow> nat list \<Rightarrow> nat \<Rightarrow> pool_result option" where
  "join_workers envs root ws [] serving = Some (Pool_result (if serving = 0 then -1 else 0))"
| "join_workers envs root ws (i # is) serving =
     (if \<not> w_started (ws i) then join_workers envs root ws is serving
      else if te_join (envs i) \<noteq> 0 then join_workers envs root ws is serving
      else case worker_main (envs i) root (ws i) of
        None \<Rightarrow> None
      | Some (Thread_running s) \<Rightarrow> Some Pool_blocked
      | Some (Thread_done served k) \<Rightarrow>
          join_workers envs root ws is (if served then Suc serving else serving))"

definition worker_pool_run ::
  "worker_pool_config \<Rightarrow> bool \<Rightarrow> (nat \<Rightarrow> thread_env) \<Rightarrow> static_root \<Rightarrow> pool_result option" where
  "worker_pool_run config alloc envs root =
     (let ids = [0..<nat (wp_worker_count config)]; ws = new_worker config envs
      in if wp_worker_count config < 1 then Some (Pool_result (-1))
         else if \<not> alloc then Some (Pool_result (-1))
         else if filter (\<lambda>i. w_started (ws i)) ids = [] then Some (Pool_result (-1))
         else join_workers envs root ws ids 0)"

end
