(* ===== verification/Pool_Spec.thy ===== *)
theory Pool_Spec
  imports Worker_Pool
begin

text \<open>
  Correctness of the worker pool. The locale \<open>ranked_system\<close> is the interface of a step
  relation with an invariant and a rank that every step lowers; the pool is an instance.
  Every interleaving of the threads gives the result of the sequential reference, the array
  of slots is freed only when no thread uses it, and the pool returns when its threads do.
  The workers share their port, and a request to shut down ends a thread.
\<close>

section \<open>Step relations with an invariant and a rank\<close>

locale ranked_system =
  fixes step :: "'s \<Rightarrow> 's \<Rightarrow> bool" and inv :: "'s \<Rightarrow> bool" and rank :: "'s \<Rightarrow> nat"
  assumes keeps: "inv s \<Longrightarrow> step s t \<Longrightarrow> inv t"
    and drops: "inv s \<Longrightarrow> step s t \<Longrightarrow> rank t < rank s"
begin

lemma reaches: "step\<^sup>*\<^sup>* s t \<Longrightarrow> inv s \<Longrightarrow> inv t"
  by (induction rule: rtranclp_induct) (auto intro: keeps)

lemma bounded: "(step ^^ n) s t \<Longrightarrow> inv s \<Longrightarrow> inv t \<and> n + rank t \<le> rank s"
proof (induction n arbitrary: t)
  case (Suc n)
  then obtain u where "(step ^^ n) s u" "step u t" by auto
  with Suc.IH [of u] Suc.prems(2) keeps [of u t] drops [of u t] show ?case by fastforce
qed simp

lemma no_infinite_run:
  assumes "inv (f 0)"
  shows "\<exists>t. \<not> step (f t) (f (Suc t))"
proof (rule ccontr)
  assume "\<nexists>t. \<not> step (f t) (f (Suc t))"
  then have "(step ^^ n) (f 0) (f n)" for n by (induction n) auto
  from bounded [OF this assms] have "Suc (rank (f 0)) \<le> rank (f 0)" by (metis add_leE)
  then show False by simp
qed

lemma comes_to_rest: "inv s \<Longrightarrow> \<exists>t. step\<^sup>*\<^sup>* s t \<and> inv t \<and> (\<forall>u. \<not> step t u)"
proof (induction "rank s" arbitrary: s rule: less_induct)
  case less
  show ?case
  proof (cases "\<exists>u. step s u")
    case True
    then obtain u where "step s u" by blast
    with less keeps drops show ?thesis by (meson converse_rtranclp_into_rtranclp)
  qed (use less.prems in blast)
qed

end

section \<open>The invariant of the pool\<close>

text \<open>What the body of worker \<open>i\<close> comes to, and whether main counts the worker.\<close>

definition thread_result ::
  "worker_pool_config \<Rightarrow> (nat \<Rightarrow> thread_env) \<Rightarrow> static_root \<Rightarrow> nat \<Rightarrow> thread_outcome option" where
  "thread_result config envs root i = worker_main (envs i) root (new_worker config envs i)"

definition created :: "(nat \<Rightarrow> thread_env) \<Rightarrow> nat \<Rightarrow> nat set" where
  "created envs n = {j. j < n \<and> te_create (envs j) = 0}"

definition counted :: "worker_pool_config \<Rightarrow> (nat \<Rightarrow> thread_env) \<Rightarrow> static_root \<Rightarrow> nat \<Rightarrow> nat set" where
  "counted config envs root n =
     {j \<in> created envs n. te_join (envs j) = 0 \<and> (\<exists>k. thread_result config envs root j = Some (Thread_done True k))}"

text \<open>The slot of a worker and its thread.\<close>

definition slot_inv ::
  "worker_pool_config \<Rightarrow> (nat \<Rightarrow> thread_env) \<Rightarrow> static_root \<Rightarrow> nat \<Rightarrow> worker \<Rightarrow> thread_state \<Rightarrow> bool" where
  "slot_inv config envs root i w t =
     (case t of
        Idle \<Rightarrow> \<not> w_served w
      | Active \<Rightarrow> w_id w = int i \<and> w_config w = Some config \<and> \<not> w_served w
      | Finished k \<Rightarrow> w_id w = int i \<and> w_config w = Some config \<and>
          thread_result config envs root i = Some (Thread_done (w_served w) k))"

definition slots_inv :: "worker_pool_config \<Rightarrow> (nat \<Rightarrow> thread_env) \<Rightarrow> static_root \<Rightarrow> pool \<Rightarrow> bool" where
  "slots_inv config envs root p \<longleftrightarrow> (\<forall>i. slot_inv config envs root i (po_workers p i) (po_threads p i))"

definition live_threads :: "pool \<Rightarrow> nat set" where
  "live_threads p = {j. po_threads p j \<noteq> Idle}"

definition marked :: "pool \<Rightarrow> nat set" where
  "marked p = {j. w_started (po_workers p j)}"

text \<open>The threads that main has waited for.\<close>

definition joined :: "(nat \<Rightarrow> thread_env) \<Rightarrow> nat \<Rightarrow> pool \<Rightarrow> bool" where
  "joined envs n p \<longleftrightarrow> (\<forall>j \<in> created envs n. te_join (envs j) = 0 \<longrightarrow> (\<exists>k. po_threads p j = Finished k))"

definition pc_inv :: "worker_pool_config \<Rightarrow> (nat \<Rightarrow> thread_env) \<Rightarrow> static_root \<Rightarrow> pool \<Rightarrow> bool" where
  "pc_inv config envs root p =
     (let n = nat (wp_worker_count config) in
      case po_pc p of
        Creating i \<Rightarrow> i \<le> n \<and> po_allocated p \<and> live_threads p = created envs i \<and> marked p = created envs i \<and>
          po_started p = card (created envs i) \<and> po_serving p = 0
      | Marking i \<Rightarrow> i < n \<and> po_allocated p \<and> te_create (envs i) = 0 \<and> live_threads p = created envs (Suc i) \<and>
          marked p = created envs i \<and> po_started p = card (created envs i) \<and> po_serving p = 0
      | Joining i \<Rightarrow> i \<le> n \<and> po_allocated p \<and> live_threads p = created envs n \<and> marked p = created envs n \<and>
          created envs n \<noteq> {} \<and> joined envs i p \<and> po_serving p = card (counted config envs root i)
      | Pool_returned r \<Rightarrow> live_threads p = created envs n \<and> joined envs n p \<and>
          r = (if counted config envs root n = {} then -1 else 0)
      | Undefined \<Rightarrow> live_threads p \<subseteq> created envs n)"

definition pool_inv :: "worker_pool_config \<Rightarrow> (nat \<Rightarrow> thread_env) \<Rightarrow> static_root \<Rightarrow> pool \<Rightarrow> bool" where
  "pool_inv config envs root p \<longleftrightarrow> slots_inv config envs root p \<and> pc_inv config envs root p"

definition pc_rank :: "nat \<Rightarrow> pool_pc \<Rightarrow> nat" where
  "pc_rank n pc =
     (case pc of
        Creating i \<Rightarrow> 4 * (n - i) + n + 3
      | Marking i \<Rightarrow> 4 * (n - i) + n + 1
      | Joining i \<Rightarrow> (n - i) + 2
      | Pool_returned r \<Rightarrow> 1
      | Undefined \<Rightarrow> 0)"

definition pool_rank :: "worker_pool_config \<Rightarrow> pool \<Rightarrow> nat" where
  "pool_rank config p =
     (let n = nat (wp_worker_count config)
      in pc_rank n (po_pc p) + card {i. i < n \<and> po_threads p i = Active})"

lemma worker_main_slot:
  assumes "w_id w = int i" "w_config w = Some config"
  shows "worker_main (envs i) root w = thread_result config envs root i"
  using assms by (simp add: thread_result_def worker_main_def new_worker_def split: prod.split)

lemma created_Suc: "created envs (Suc i) = (if te_create (envs i) = 0 then insert i (created envs i) else created envs i)"
  by (auto simp: created_def less_Suc_eq)

lemma counted_Suc:
  "counted config envs root (Suc i) =
     (if te_create (envs i) = 0 \<and> te_join (envs i) = 0 \<and> (\<exists>k. thread_result config envs root i = Some (Thread_done True k))
      then insert i (counted config envs root i) else counted config envs root i)"
  by (auto simp: counted_def created_def less_Suc_eq)

lemma created_finite [simp]: "finite (created envs n)" "i \<notin> created envs i" "created envs 0 = {}"
  by (auto simp: created_def)

lemma counted_finite [simp]: "finite (counted config envs root n)" "i \<notin> counted config envs root i"
  by (auto simp: counted_def)

lemma counted_empty: "created envs n = {} \<Longrightarrow> counted config envs root n = {}"
  by (auto simp: counted_def)

lemma joined_Suc:
  "joined envs (Suc i) p \<longleftrightarrow> joined envs i p \<and>
     (te_create (envs i) = 0 \<and> te_join (envs i) = 0 \<longrightarrow> (\<exists>k. po_threads p i = Finished k))"
  by (auto simp: joined_def created_Suc)

lemma joined_0: "joined envs 0 p"
  by (simp add: joined_def)

lemma creating_idle:
  assumes "pc_inv config envs root p" "po_pc p = Creating i"
  shows "po_threads p i = Idle"
proof -
  have "live_threads p = created envs i" using assms by (simp add: pc_inv_def Let_def)
  then have "i \<notin> live_threads p" by simp
  then show ?thesis by (simp add: live_threads_def)
qed

lemma created_mono: "m \<le> n \<Longrightarrow> created envs m \<subseteq> created envs n"
  by (auto simp: created_def)

lemma pc_inv_live: "pc_inv config envs root p \<Longrightarrow> live_threads p \<subseteq> created envs (nat (wp_worker_count config))"
  using created_mono by (auto simp: pc_inv_def Let_def split: pool_pc.splits dest: Suc_leI)

lemma slots_inv_step:
  assumes "slots_inv config envs root p" "pc_inv config envs root p" "pool_step config envs root p q"
  shows "slots_inv config envs root q"
  using assms(3)
proof cases
  case (create_ok i)
  with creating_idle [OF assms(2)] show ?thesis using assms(1)
    by (auto simp: slots_inv_def slot_inv_def name_worker_def split: thread_state.splits)
next
  case (create_fail i)
  with creating_idle [OF assms(2)] show ?thesis using assms(1)
    by (auto simp: slots_inv_def slot_inv_def name_worker_def split: thread_state.splits)
next
  case (thread_done i served k)
  then have "w_id (po_workers p i) = int i" "w_config (po_workers p i) = Some config" "\<not> w_served (po_workers p i)"
    using assms(1) by (auto simp: slots_inv_def slot_inv_def dest!: spec [of _ i])
  with thread_done worker_main_slot [of "po_workers p i" i config envs root] show ?thesis
    using assms(1) by (auto simp: slots_inv_def slot_inv_def split: thread_state.splits)
qed (use assms(1) in \<open>auto simp: slots_inv_def slot_inv_def split: thread_state.splits\<close>)

text \<open>What a step leaves of the sets the invariant is about.\<close>

lemma live_threads_create: "live_threads (p\<lparr>po_pc := pc, po_threads := (po_threads p)(i := Active)\<rparr>) = insert i (live_threads p)"
  by (auto simp: live_threads_def)

lemma joined_finish: "joined envs n p \<Longrightarrow> joined envs n (p\<lparr>po_threads := (po_threads p)(i := Finished k), po_workers := ws\<rparr>)"
  by (auto simp: joined_def)

lemma pc_inv_thread_done:
  assumes "pc_inv config envs root p" "po_threads p i = Active"
  shows "pc_inv config envs root
    (p\<lparr>po_threads := (po_threads p)(i := Finished k),
       po_workers := (po_workers p)(i := (po_workers p i)\<lparr>w_served := b\<rparr>)\<rparr>)" (is "pc_inv _ _ _ ?q")
proof -
  have "live_threads ?q = live_threads p" "marked ?q = marked p"
    using assms(2) by (auto simp: live_threads_def marked_def)
  moreover have "joined envs n p \<Longrightarrow> joined envs n ?q" for n by (rule joined_finish)
  ultimately show ?thesis using assms(1) by (auto simp: pc_inv_def Let_def split: pool_pc.splits)
qed

lemma joining_ok:
  assumes "slots_inv config envs root p" "pc_inv config envs root p" "po_pc p = Joining i"
    "w_started (po_workers p i)" "te_join (envs i) = 0" "po_threads p i = Finished k"
  shows "(if w_served (po_workers p i) then Suc (po_serving p) else po_serving p) =
    card (counted config envs root (Suc i))"
proof -
  have "thread_result config envs root i = Some (Thread_done (w_served (po_workers p i)) k)"
    using assms(1,6) by (auto simp: slots_inv_def slot_inv_def dest!: spec [of _ i])
  moreover have "i \<in> marked p" using assms(4) by (simp add: marked_def)
  then have "te_create (envs i) = 0" using assms(2,3) by (simp add: pc_inv_def Let_def created_def)
  moreover have "po_serving p = card (counted config envs root i)"
    using assms(2,3) by (simp add: pc_inv_def Let_def)
  ultimately show ?thesis using assms(5) by (simp add: counted_Suc)
qed

lemma pc_update [simp]:
  "live_threads (p\<lparr>po_pc := c\<rparr>) = live_threads p" "marked (p\<lparr>po_pc := c\<rparr>) = marked p"
  "joined envs n (p\<lparr>po_pc := c\<rparr>) = joined envs n p"
  by (simp_all add: live_threads_def marked_def joined_def)

lemma pc_inv_step:
  assumes "slots_inv config envs root p" "pc_inv config envs root p" "pool_step config envs root p q"
  shows "pc_inv config envs root q"
  using assms(3)
proof cases
  case (create_ok i)
  have "live_threads q = insert i (live_threads p)" "marked q = marked p"
    using create_ok(1) by (auto simp: live_threads_def marked_def name_worker_def)
  with create_ok assms(2) show ?thesis by (auto simp: pc_inv_def Let_def created_Suc name_worker_def)
next
  case (create_fail i)
  have "live_threads q = live_threads p" "marked q = marked p"
    using create_fail(1) by (auto simp: live_threads_def marked_def name_worker_def)
  with create_fail assms(2) show ?thesis by (auto simp: pc_inv_def Let_def created_Suc name_worker_def)
next
  case (mark_started i)
  have "live_threads q = live_threads p" "marked q = insert i (marked p)"
    using mark_started(1) by (auto simp: live_threads_def marked_def)
  with mark_started assms(2) show ?thesis by (auto simp: pc_inv_def Let_def created_Suc)
next
  case (none_started i)
  then have "i = nat (wp_worker_count config)" "created envs i = {}"
    using assms(2) by (auto simp: pc_inv_def Let_def)
  with none_started assms(2) show ?thesis
    by (auto simp: pc_inv_def Let_def live_threads_def joined_def counted_empty)
next
  case (all_created i)
  then have "i = nat (wp_worker_count config)" "created envs i \<noteq> {}"
    using assms(2) by (auto simp: pc_inv_def Let_def)
  with all_created assms(2) show ?thesis
    by (auto simp: pc_inv_def Let_def joined_0 counted_def)
next
  case (join_skip i)
  then have "marked p = created envs (nat (wp_worker_count config))" using assms(2) by (simp add: pc_inv_def Let_def)
  moreover have "i \<notin> marked p" "i < nat (wp_worker_count config)" using join_skip by (auto simp: marked_def)
  ultimately have "te_create (envs i) \<noteq> 0" by (simp add: created_def)
  with join_skip assms(2) show ?thesis
    by (auto simp: pc_inv_def Let_def joined_Suc counted_Suc)
next
  case (join_error i)
  with assms(2) show ?thesis
    by (auto simp: pc_inv_def Let_def joined_Suc counted_Suc)
next
  case (join_ok i k)
  have "live_threads q = live_threads p" "marked q = marked p" "joined envs (Suc i) q \<longleftrightarrow> joined envs (Suc i) p"
    using join_ok(1) by (auto simp: live_threads_def marked_def joined_def)
  with join_ok joining_ok [OF assms(1,2) join_ok(2,4,5,6)] assms(2) show ?thesis
    by (auto simp: pc_inv_def Let_def joined_Suc)
next
  case (all_joined i)
  then have "i = nat (wp_worker_count config)" using assms(2) by (auto simp: pc_inv_def Let_def)
  with all_joined assms(2) show ?thesis by (auto simp: pc_inv_def Let_def live_threads_def joined_def)
next
  case (thread_done i served k)
  with pc_inv_thread_done [OF assms(2)] show ?thesis by simp
next
  case (thread_wrong i)
  then show ?thesis using pc_inv_live [OF assms(2)] by (simp add: pc_inv_def)
qed

lemma pool_inv_start:
  assumes "1 \<le> wp_worker_count config"
  shows "pool_inv config envs root (pool_start config True)"
  using assms
  by (simp add: pool_inv_def slots_inv_def slot_inv_def pc_inv_def pool_start_def live_threads_def marked_def
      empty_slot_def)

lemma active_finish:
  assumes "i < (n::nat)" "th i = Active"
  shows "card {j. j < n \<and> (th(i := Finished k)) j = Active} < card {j. j < n \<and> th j = Active}"
proof (rule psubset_card_mono)
  show "{j. j < n \<and> (th(i := Finished k)) j = Active} \<subset> {j. j < n \<and> th j = Active}"
    using assms by (auto simp: psubset_eq)
qed simp

lemma active_create: "card {j. j < (n::nat) \<and> (th(i := Active)) j = Active} \<le> Suc (card {j. j < n \<and> th j = Active})"
proof -
  have "{j. j < n \<and> (th(i := Active)) j = Active} \<subseteq> insert i {j. j < n \<and> th j = Active}" by auto
  then have "card {j. j < n \<and> (th(i := Active)) j = Active} \<le> card (insert i {j. j < n \<and> th j = Active})"
    by (rule card_mono [rotated]) simp
  also have "\<dots> \<le> Suc (card {j. j < n \<and> th j = Active})" by (rule card_insert_le_m1) simp_all
  finally show ?thesis .
qed

lemma pool_rank_step:
  assumes "pc_inv config envs root p" "pool_step config envs root p q"
  shows "pool_rank config q < pool_rank config p"
  using assms(2)
proof cases
  case (create_ok i)
  then show ?thesis
    using active_create [of "nat (wp_worker_count config)" "po_threads p" i]
    by (simp add: pool_rank_def Let_def pc_rank_def name_worker_def)
next
  case (create_fail i)
  then show ?thesis by (auto simp: pool_rank_def Let_def pc_rank_def name_worker_def)
next
  case (mark_started i)
  moreover from this have "i < nat (wp_worker_count config)" using assms(1) by (simp add: pc_inv_def Let_def)
  ultimately show ?thesis by (auto simp: pool_rank_def Let_def pc_rank_def)
next
  case (thread_done i served k)
  then have "i \<in> live_threads p" by (simp add: live_threads_def)
  then have "i < nat (wp_worker_count config)" using pc_inv_live [OF assms(1)] by (auto simp: created_def)
  with thread_done active_finish [of i _ "po_threads p" k] show ?thesis
    by (simp add: pool_rank_def Let_def)
next
  case (thread_wrong i)
  then show ?thesis by (auto simp: pool_rank_def Let_def pc_rank_def split: pool_pc.splits)
qed (auto simp: pool_rank_def Let_def pc_rank_def)

interpretation pool: ranked_system "pool_step config envs root" "pool_inv config envs root" "pool_rank config"
  for config envs root
  by unfold_locales (auto simp: pool_inv_def intro: slots_inv_step pc_inv_step pool_rank_step)

section \<open>Sockets and threads\<close>

lemma create_listen_socket_fds:
  "case create_listen_socket port backlog la n k of
     (fd, n', k') \<Rightarrow> (if fd < 0 then fd = -1 \<and> k_fds k' = k_fds k else fd \<notin> k_fds k \<and> k_fds k' = insert fd (k_fds k))"
  by (auto simp: create_listen_socket_def sock_socket_def sock_close_def open_fresh_def sys_close_def
      split: option.splits prod.splits bool.splits)

text \<open>A socket that listens on a port and shares it.\<close>

definition listener :: "int \<Rightarrow> int \<Rightarrow> sock" where
  "listener port backlog =
     \<lparr>sk_reuseaddr = True, sk_reuseport = True, sk_port = Some (port mod 2 ^ 16), sk_backlog = Some backlog\<rparr>"

definition granted :: "listen_answers \<Rightarrow> bool" where
  "granted la \<longleftrightarrow> la_reuseaddr la \<and> la_reuseport la \<and> la_bind la \<and> la_listen la"

definition port_shared :: "int \<Rightarrow> net \<Rightarrow> bool" where
  "port_shared port n \<longleftrightarrow> (\<forall>(d, t) \<in> set (n_socks n). sk_port t = Some (port mod 2 ^ 16) \<longrightarrow> sk_reuseport t)"

text \<open>Several workers create their sockets one after the other.\<close>

fun create_listen_sockets :: "int \<Rightarrow> int \<Rightarrow> listen_answers list \<Rightarrow> net \<Rightarrow> kernel \<Rightarrow> int list \<times> net \<times> kernel" where
  "create_listen_sockets port backlog [] n k = ([], n, k)"
| "create_listen_sockets port backlog (la # las) n k =
     (case create_listen_socket port backlog la n k of
        (fd, n1, k1) \<Rightarrow>
          (case create_listen_sockets port backlog las n1 k1 of (fds, n2, k2) \<Rightarrow> (fd # fds, n2, k2)))"

lemma upd_sock_new:
  assumes "fd \<notin> fst ` set xs"
  shows "upd_sock fd f (n\<lparr>n_socks := (fd, s) # xs\<rparr>) = n\<lparr>n_socks := (fd, f s) # xs\<rparr>"
proof -
  have "map (\<lambda>(d, s). if d = fd then (d, f s) else (d, s)) xs = xs" using assms by (induction xs) auto
  then show ?thesis by (simp add: upd_sock_def)
qed

lemma close_new:
  assumes "fd \<notin> fst ` set (n_socks n)"
  shows "sock_close fd (n\<lparr>n_socks := (fd, s) # n_socks n\<rparr>) k = (n, sys_close fd k)"
proof -
  have "filter (\<lambda>(d, s). d \<noteq> fd) (n_socks n) = n_socks n" by (rule filter_True) (use assms in force)
  then show ?thesis by (simp add: sock_close_def)
qed

lemma map_of_const: "\<forall>y\<in>set xs. snd y = v \<Longrightarrow> map_of xs x = (if x \<in> fst ` set xs then Some v else None)"
  by (induction xs) auto

text \<open>The calls on a new socket: the options, then the port, then the backlog.\<close>

lemmas socket_calls = sock_setsockopt_def sock_bind_def sock_listen_def

lemma new_socket_shares:
  assumes "port_shared port n"
  shows "\<not> addr_in_use fd \<lparr>sk_reuseaddr = True, sk_reuseport = True, sk_port = None, sk_backlog = None\<rparr> (port mod 2 ^ 16)
    (n\<lparr>n_socks := (fd, s) # n_socks n\<rparr>)"
  using assms by (auto simp: addr_in_use_def port_shared_def may_share_def list_ex_iff)

lemma create_listen_socket_ok:
  assumes "granted la" "la_socket la = Some fd" "0 \<le> fd" "fd \<notin> k_fds k" "fd \<notin> fst ` set (n_socks n)" "port_shared port n"
  shows "create_listen_socket port backlog la n k =
    (fd, n\<lparr>n_socks := (fd, listener port backlog) # n_socks n\<rparr>, k\<lparr>k_fds := insert fd (k_fds k)\<rparr>)"
  using assms new_socket_shares [OF assms(6)]
  by (simp add: create_listen_socket_def sock_socket_def open_fresh_def socket_calls upd_sock_new granted_def listener_def)

lemma create_listen_socket_fails:
  assumes "fst ` set (n_socks n) \<subseteq> k_fds k" "create_listen_socket port backlog la n k = (fd, n', k')" "fd < 0"
  shows "fd = -1 \<and> n' = n \<and> k_fds k' = k_fds k"
proof (cases rule: open_fresh_cases [of "la_socket la" k])
  case fail
  then show ?thesis using assms(2) by (simp add: create_listen_socket_def sock_socket_def)
next
  case (opened d)
  then have new: "d \<notin> fst ` set (n_socks n)" using assms(1) by blast
  note calls = upd_sock_new [OF new] close_new [OF new]
  from assms(2,3) opened new show ?thesis
    by (auto simp: create_listen_socket_def sock_socket_def socket_calls calls sys_close_def
        split: if_splits prod.splits)
qed

lemma workers_listen:
  assumes "\<forall>la\<in>set las. granted la" "map la_socket las = map Some fds" "distinct fds"
    "\<forall>fd\<in>set fds. 0 \<le> fd \<and> fd \<notin> k_fds k" "fst ` set (n_socks n) \<subseteq> k_fds k" "port_shared port n"
    "create_listen_sockets port backlog las n k = (fds', n', k')"
  shows "fds' = fds \<and> k_fds k' = k_fds k \<union> set fds \<and>
    n_socks n' = rev (map (\<lambda>fd. (fd, listener port backlog)) fds) @ n_socks n"
  using assms
proof (induction las arbitrary: fds n k fds')
  case (Cons la las)
  then obtain fd rest where fds: "fds = fd # rest" "la_socket la = Some fd" "map la_socket las = map Some rest" by auto
  let ?n = "n\<lparr>n_socks := (fd, listener port backlog) # n_socks n\<rparr>" and ?k = "k\<lparr>k_fds := insert fd (k_fds k)\<rparr>"
  have one: "create_listen_socket port backlog la n k = (fd, ?n, ?k)"
    using Cons.prems fds by (intro create_listen_socket_ok) auto
  obtain fds1 where more: "create_listen_sockets port backlog las ?n ?k = (fds1, n', k')" "fds' = fd # fds1"
    using Cons.prems(7) one by (auto split: prod.splits)
  have "port_shared port ?n" using Cons.prems(6) by (simp add: port_shared_def listener_def)
  with Cons.IH [OF _ fds(3) _ _ _ _ more(1)] Cons.prems(1,3-5) fds more(2) show ?case by auto
qed simp

text \<open>
  C39. The workers share the port. Let every socket of the process that is bound to the port
  have \<^verbatim>\<open>SO_REUSEPORT\<close> (in particular, let there be none), and let the calls of any
  number of workers not fail for outside reasons. Then every worker gets its own descriptor,
  and all of them listen on the same port with the backlog, although each but the first binds
  a port in use, and also if the port has connections in \<^verbatim>\<open>TIME_WAIT\<close>. A worker
  whose call fails returns -1 and leaves no socket and no descriptor behind.
\<close>

theorem workers_share_port:
  assumes "\<forall>la\<in>set las. granted la" "map la_socket las = map Some fds" "distinct fds"
    "\<forall>fd\<in>set fds. 0 \<le> fd \<and> fd \<notin> k_fds k" "fst ` set (n_socks n) \<subseteq> k_fds k" "port_shared port n"
    "create_listen_sockets port backlog las n k = (fds', n', k')"
  shows "fds' = fds \<and> k_fds k' = k_fds k \<union> set fds \<and>
    (\<forall>fd. map_of (n_socks n') fd = (if fd \<in> set fds then Some (listener port backlog) else map_of (n_socks n) fd)) \<and>
    (\<forall>la fd n1 k1. create_listen_socket port backlog la n k = (fd, n1, k1) \<and> fd < 0 \<longrightarrow>
       fd = -1 \<and> n1 = n \<and> k_fds k1 = k_fds k)"
proof -
  note all = workers_listen [OF assms]
  have "map_of (rev (map (\<lambda>fd. (fd, listener port backlog)) fds)) fd = (if fd \<in> set fds then Some (listener port backlog) else None)"
    for fd using map_of_const [of "rev (map (\<lambda>fd. (fd, listener port backlog)) fds)"] by (auto simp: image_image)
  with all create_listen_socket_fails [OF assms(5)] show ?thesis by (auto simp: map_add_def)
qed

definition loop_config :: "worker_pool_config \<Rightarrow> int \<Rightarrow> nat \<Rightarrow> event_loop_config" where
  "loop_config config fd i =
     \<lparr>cfg_listen_fd = fd, cfg_idle_timeout_seconds = wp_idle_timeout_seconds config,
      cfg_shutdown_fd = wp_shutdown_fd config, cfg_worker_id = int i\<rparr>"

text \<open>
  What is assumed of the batches of events of a thread: those that epoll documents
  (\<open>epoll_waits\<close>), and that no timer event comes before an event of a connection that is idle by
  then (\<open>sweeps_spare\<close>), for the loop the thread really starts.
\<close>

definition safe_thread :: "worker_pool_config \<Rightarrow> thread_env \<Rightarrow> static_root \<Rightarrow> nat \<Rightarrow> bool" where
  "safe_thread config te root i \<longleftrightarrow>
     (\<forall>fd n k s.
        create_listen_socket (wp_port config) (wp_backlog config) (te_listen te) (te_net te) (te_kernel te) = (fd, n, k) \<and>
        event_loop_setup (loop_config config fd i) (te_setup te) root k = Inr s \<longrightarrow>
        epoll_waits (te_waits te) s \<and> sweeps_spare (te_waits te) s)"

lemma any_inv_fds: "any_inv cfg base ps s \<Longrightarrow> base \<subseteq> k_fds (s_kernel s)"
  by (auto simp: any_inv_def loop_inv_def fd_inv_def)

lemma thread_result_ok:
  assumes "wf_root root" "i < 2 ^ 31" "safe_thread config (envs i) root i"
  shows "\<exists>out. thread_result config envs root i = Some out \<and>
    (case out of Thread_done b k \<Rightarrow> k_fds k = k_fds (te_kernel (envs i))
     | Thread_running s \<Rightarrow> k_fds (te_kernel (envs i)) \<subseteq> k_fds (s_kernel s))"
proof -
  let ?te = "envs i"
  obtain fd n k where c:
    "create_listen_socket (wp_port config) (wp_backlog config) (te_listen ?te) (te_net ?te) (te_kernel ?te) = (fd, n, k)"
    using prod_cases3 by blast
  note fds = create_listen_socket_fds [where port = "wp_port config" and backlog = "wp_backlog config" and la = "te_listen ?te"
      and n = "te_net ?te" and k = "te_kernel ?te", unfolded c]
  show ?thesis
  proof (cases "fd < 0")
    case True
    then show ?thesis using c fds by (simp add: thread_result_def worker_main_def new_worker_def)
  next
    case False
    have "\<bar>cfg_worker_id (loop_config config fd i)\<bar> < 2 ^ 31" using assms(2) by (simp add: loop_config_def)
    moreover have "event_loop_setup (loop_config config fd i) (te_setup ?te) root k = Inr s \<Longrightarrow>
        epoll_waits (te_waits ?te) s \<and> sweeps_spare (te_waits ?te) s" for s
      using assms(3) c unfolding safe_thread_def by blast
    ultimately obtain out where "event_loop_run (loop_config config fd i) (te_setup ?te) (te_waits ?te) root k = Some out"
      and "case out of Not_started k' \<Rightarrow> k_fds k' = k_fds k
        | Returned status s \<Rightarrow> k_fds (s_kernel s) = k_fds k \<and> s_heap s = Map.empty
        | Running s \<Rightarrow> (\<exists>base ps. any_inv (config_of s) base ps s \<and> k_fds k \<subseteq> base)"
      using event_loop_run_ok [OF assms(1), of "loop_config config fd i" "te_setup ?te" k "te_waits ?te"] by blast
    with False c fds show ?thesis
      by (cases out)
         (auto simp: thread_result_def worker_main_def new_worker_def loop_config_def sys_close_def dest!: any_inv_fds)
  qed
qed

section \<open>The results of the pool\<close>

lemma new_worker_started [simp]: "w_started (new_worker config envs i) \<longleftrightarrow> te_create (envs i) = 0"
  by (simp add: new_worker_def)

lemma join_workers_done:
  assumes "\<forall>j\<in>set is. te_create (envs j) = 0 \<and> te_join (envs j) = 0 \<longrightarrow>
      (\<exists>b k. thread_result config envs root j = Some (Thread_done b k))"
  shows "join_workers envs root (new_worker config envs) is serving =
    Some (Pool_result (if serving = 0 \<and>
      (\<forall>j\<in>set is. te_create (envs j) = 0 \<and> te_join (envs j) = 0 \<longrightarrow>
         (\<nexists>k. thread_result config envs root j = Some (Thread_done True k))) then -1 else 0))"
  using assms
proof (induction "is" arbitrary: serving)
  case (Cons i "is")
  then show ?case
    by (cases "te_create (envs i) = 0 \<and> te_join (envs i) = 0")
       (auto simp: thread_result_def [symmetric])
qed simp

text \<open>In the failed starts nothing ever moves.\<close>

lemma pool_start_failed:
  assumes "wp_worker_count config < 1 \<or> \<not> alloc" "(pool_step config envs root)\<^sup>*\<^sup>* (pool_start config alloc) p"
  shows "po_pc p = Pool_returned (-1) \<and> po_threads p = (\<lambda>i. Idle)"
  using assms(2)
proof (induction rule: rtranclp_induct)
  case (step q r)
  from step.hyps(2) step.IH show ?case by cases auto
qed (use assms(1) in \<open>auto simp: pool_start_def Let_def\<close>)

lemma pool_reach_inv:
  assumes "\<not> (wp_worker_count config < 1 \<or> \<not> alloc)" "(pool_step config envs root)\<^sup>*\<^sup>* (pool_start config alloc) p"
  shows "pool_inv config envs root p"
  using assms pool.reaches [OF _ pool_inv_start] by auto

lemma finished_result:
  "slots_inv config envs root p \<Longrightarrow> po_threads p i = Finished k \<Longrightarrow>
   \<exists>b. thread_result config envs root i = Some (Thread_done b k)"
  by (auto simp: slots_inv_def slot_inv_def dest!: spec [of _ i])

lemma returned_result:
  assumes "pool_inv config envs root p" "po_pc p = Pool_returned r" "1 \<le> wp_worker_count config"
  shows "worker_pool_run config True envs root = Some (Pool_result r)"
proof -
  let ?n = "nat (wp_worker_count config)"
  have slots: "slots_inv config envs root p" and j: "joined envs ?n p"
    and r: "r = (if counted config envs root ?n = {} then -1 else 0)"
    using assms(1,2) by (simp_all add: pool_inv_def pc_inv_def Let_def)
  have "\<forall>j\<in>set [0..<?n]. te_create (envs j) = 0 \<and> te_join (envs j) = 0 \<longrightarrow>
      (\<exists>b k. thread_result config envs root j = Some (Thread_done b k))"
    using j finished_result [OF slots] unfolding joined_def created_def by fastforce
  from join_workers_done [OF this]
  have "join_workers envs root (new_worker config envs) [0..<?n] 0 = Some (Pool_result r)"
    unfolding r by (auto simp: counted_def created_def)
  moreover have "created envs ?n = {} \<Longrightarrow> r = -1" using r counted_empty by simp
  ultimately show ?thesis using assms(3)
    by (auto simp: worker_pool_run_def Let_def created_def filter_empty_conv)
qed


lemma active_slot:
  assumes "pool_inv config envs root p" "po_threads p i = Active"
  shows "int i < wp_worker_count config" "i \<in> created envs (nat (wp_worker_count config))"
    "worker_main (envs i) root (po_workers p i) = thread_result config envs root i"
proof -
  have "i \<in> live_threads p" using assms(2) by (simp add: live_threads_def)
  then show c: "i \<in> created envs (nat (wp_worker_count config))"
    using assms(1) pc_inv_live [of config envs root p] by (auto simp: pool_inv_def)
  then show "int i < wp_worker_count config" by (auto simp: created_def)
  show "worker_main (envs i) root (po_workers p i) = thread_result config envs root i"
    using assms by (intro worker_main_slot) (auto simp: pool_inv_def slots_inv_def slot_inv_def dest!: spec [of _ i])
qed

lemma active_before_return:
  assumes "pool_inv config envs root p" "po_threads p i = Active" "te_join (envs i) = 0" "po_pc p \<noteq> Undefined"
  shows "po_allocated p" "po_pc p \<noteq> Pool_returned r"
proof -
  show ret: "po_pc p \<noteq> Pool_returned r" for r
  proof
    assume "po_pc p = Pool_returned r"
    then have "joined envs (nat (wp_worker_count config)) p"
      using assms(1) by (simp add: pool_inv_def pc_inv_def Let_def)
    then show False using active_slot(2) [OF assms(1,2)] assms(2,3) by (auto simp: joined_def)
  qed
  then show "po_allocated p"
    using assms(1,4) by (auto simp: pool_inv_def pc_inv_def Let_def split: pool_pc.splits)
qed

lemma pool_never_undefined:
  assumes "\<forall>i\<in>created envs (nat (wp_worker_count config)). te_join (envs i) = 0 \<and> thread_result config envs root i \<noteq> None"
    "pool_inv config envs root p" "(pool_step config envs root)\<^sup>*\<^sup>* p q" "po_pc p \<noteq> Undefined"
  shows "po_pc q \<noteq> Undefined"
  using assms(3)
proof (induction rule: rtranclp_induct)
  case (step q r)
  have inv: "pool_inv config envs root q" using step.hyps(1) assms(2) by (rule pool.reaches)
  from step.hyps(2) show ?case
  proof cases
    case (thread_wrong i)
    note slot = active_slot [OF inv thread_wrong(2)]
    have "te_join (envs i) = 0" "thread_result config envs root i \<noteq> None" using assms(1) slot(2) by blast+
    with thread_wrong slot(3) active_before_return(1) [OF inv thread_wrong(2)] show ?thesis by simp
  qed (use step.IH in auto)
qed (rule assms(4))

text \<open>
  C31. No thread outlives its slot. If no \<^verbatim>\<open>pthread_join\<close> fails, and every thread's
  batches of events are as epoll documents them and spare the connections that are still to be
  handled (\<open>safe_thread\<close>), no interleaving reaches undefined behaviour: no thread touches the
  array of slots after it was freed. (If a join fails, one may: \<open>failed_join_use_after_free\<close>.)
  When the pool has returned, no thread is left, and every thread that ended has closed all
  the descriptors it had opened.
\<close>

theorem pool_threads_safe:
  assumes "wf_root root" "wp_worker_count config < 2 ^ 31"
    "\<forall>i. int i < wp_worker_count config \<longrightarrow> te_join (envs i) = 0 \<and> safe_thread config (envs i) root i"
    "(pool_step config envs root)\<^sup>*\<^sup>* (pool_start config alloc) p"
  shows "po_pc p \<noteq> Undefined \<and>
    (\<forall>i k. po_threads p i = Finished k \<longrightarrow> k_fds k = k_fds (te_kernel (envs i))) \<and>
    (\<forall>r i. po_pc p = Pool_returned r \<longrightarrow> po_threads p i \<noteq> Active)"
proof (cases "wp_worker_count config < 1 \<or> \<not> alloc")
  case True
  from pool_start_failed [OF True assms(4)] show ?thesis by simp
next
  case False
  note inv = pool_reach_inv [OF False assms(4)]
  have ok: "\<exists>out. thread_result config envs root i = Some out \<and>
      (case out of Thread_done b k \<Rightarrow> k_fds k = k_fds (te_kernel (envs i)) | Thread_running s \<Rightarrow> True)"
    if i: "int i < wp_worker_count config" for i
  proof -
    have "i < 2 ^ 31" "safe_thread config (envs i) root i" using assms(2,3) i by simp_all
    from thread_result_ok [where envs = envs, OF assms(1) this] obtain out where "thread_result config envs root i = Some out"
      "case out of Thread_done b k \<Rightarrow> k_fds k = k_fds (te_kernel (envs i))
        | Thread_running s \<Rightarrow> k_fds (te_kernel (envs i)) \<subseteq> k_fds (s_kernel s)" by blast
    then show ?thesis by (cases out) simp_all
  qed
  have "\<forall>i\<in>created envs (nat (wp_worker_count config)). te_join (envs i) = 0 \<and> thread_result config envs root i \<noteq> None"
  proof
    fix i assume "i \<in> created envs (nat (wp_worker_count config))"
    then have "int i < wp_worker_count config" by (auto simp: created_def)
    with ok [of i] assms(3) show "te_join (envs i) = 0 \<and> thread_result config envs root i \<noteq> None" by auto
  qed
  with False assms(4) have def: "po_pc p \<noteq> Undefined"
    using pool_never_undefined [where config = config and p = "pool_start config alloc" and q = p]
      pool_inv_start [of config envs root]
    by (simp add: pool_start_def Let_def)
  moreover have "k_fds k = k_fds (te_kernel (envs i))" if "po_threads p i = Finished k" for i k
  proof -
    have "i \<in> live_threads p" using that by (simp add: live_threads_def)
    then have "int i < wp_worker_count config"
      using inv pc_inv_live [of config envs root p] by (auto simp: pool_inv_def created_def)
    with ok [of i] finished_result [of config envs root p i k] that inv show ?thesis by (auto simp: pool_inv_def)
  qed
  moreover have "po_threads p i \<noteq> Active" if "po_pc p = Pool_returned r" for r i
    using active_before_return(2) [OF inv _ _ def] active_slot(1) [OF inv] assms(3) that by blast
  ultimately show ?thesis by blast
qed

lemma pool_progress:
  assumes "pool_inv config envs root p" "po_pc p \<noteq> Undefined" "\<nexists>q. pool_step config envs root p q"
    "\<forall>i\<in>created envs (nat (wp_worker_count config)).
       te_join (envs i) = 0 \<and> (\<exists>b k. thread_result config envs root i = Some (Thread_done b k))"
  shows "(\<exists>r. po_pc p = Pool_returned r) \<and> (\<forall>i. po_threads p i \<noteq> Active)"
proof -
  let ?n = "nat (wp_worker_count config)"
  have quiet: "po_threads p i \<noteq> Active" for i
  proof
    assume a: "po_threads p i = Active"
    note slot = active_slot [OF assms(1) a]
    obtain b k where "worker_main (envs i) root (po_workers p i) = Some (Thread_done b k)"
      using assms(4) slot by auto
    moreover have "po_allocated p" using active_before_return(1) [OF assms(1) a _ assms(2)] assms(4) slot(2) by auto
    ultimately show False using assms(3) thread_done [OF a] by blast
  qed
  have pc: "pc_inv config envs root p" using assms(1) by (simp add: pool_inv_def)
  show ?thesis
  proof (cases "po_pc p")
    case (Creating i)
    then show ?thesis using assms(3) create_ok create_fail none_started all_created by (metis linorder_not_le)
  next
    case (Marking i)
    then show ?thesis using assms(3) mark_started by blast
  next
    case (Joining i)
    have "int i < wp_worker_count config" using Joining assms(3) all_joined by (metis linorder_not_le)
    moreover from this have started: "w_started (po_workers p i)" using Joining assms(3) join_skip by blast
    then have "i \<in> marked p" by (simp add: marked_def)
    then have i: "i \<in> created envs ?n" "i \<in> live_threads p" using Joining pc by (simp_all add: pc_inv_def Let_def)
    then obtain k where "po_threads p i = Finished k" using quiet [of i] by (cases "po_threads p i") (auto simp: live_threads_def)
    ultimately have False using Joining started i(1) assms(3,4) join_ok by blast
    then show ?thesis ..
  qed (use assms(2) quiet in auto)
qed

text \<open>
  C32. The pool returns. If every worker that is created ends and can be joined, then no run of
  the pool goes on for ever, and a run that cannot go on has returned from
  \<^verbatim>\<open>worker_pool_run\<close> with no thread left: there is no deadlock.
\<close>

theorem pool_always_returns:
  assumes "\<forall>i. int i < wp_worker_count config \<and> te_create (envs i) = 0 \<longrightarrow>
      te_join (envs i) = 0 \<and> (\<exists>b k. worker_main (envs i) root (new_worker config envs i) = Some (Thread_done b k))"
  shows "(\<nexists>f. f 0 = pool_start config alloc \<and> (\<forall>t. pool_step config envs root (f t) (f (Suc t)))) \<and>
    (\<forall>p. (pool_step config envs root)\<^sup>*\<^sup>* (pool_start config alloc) p \<and> (\<nexists>q. pool_step config envs root p q) \<longrightarrow>
       (\<exists>r. po_pc p = Pool_returned r) \<and> (\<forall>i. po_threads p i \<noteq> Active))"
proof (cases "wp_worker_count config < 1 \<or> \<not> alloc")
  case True
  note stay = pool_start_failed [OF True]
  have "\<nexists>q. pool_step config envs root (pool_start config alloc) q"
    using stay [OF rtranclp.rtrancl_refl] by (auto elim: pool_step.cases)
  then show ?thesis using stay by (metis thread_state.distinct(1))
next
  case False
  then have start: "pool_inv config envs root (pool_start config alloc)" using pool_inv_start by auto
  have "\<not> (f 0 = pool_start config alloc \<and> (\<forall>t. pool_step config envs root (f t) (f (Suc t))))" for f
    using pool.no_infinite_run [of config envs root f] start by auto
  moreover have "(\<exists>r. po_pc p = Pool_returned r) \<and> (\<forall>i. po_threads p i \<noteq> Active)"
    if "(pool_step config envs root)\<^sup>*\<^sup>* (pool_start config alloc) p" "\<nexists>q. pool_step config envs root p q" for p
  proof (rule pool_progress [OF pool.reaches [OF that(1) start] _ that(2)])
    show ends: "\<forall>i\<in>created envs (nat (wp_worker_count config)).
        te_join (envs i) = 0 \<and> (\<exists>b k. thread_result config envs root i = Some (Thread_done b k))"
      using assms by (auto simp: created_def thread_result_def)
    have "po_pc (pool_start config alloc) \<noteq> Undefined" by (simp add: pool_start_def Let_def)
    then show "po_pc p \<noteq> Undefined" using pool_never_undefined [OF _ start that(1)] ends by fastforce
  qed
  ultimately show ?thesis by blast
qed

text \<open>
  What happens if a join fails. \<^verbatim>\<open>worker_pool_run\<close> reports it, goes on and frees the
  slots; with one worker, a thread that is still in its loop then has a pointer to freed memory.
\<close>

lemma failed_join_use_after_free:
  assumes "wp_worker_count config = 1" "te_create (envs 0) = 0" "te_join (envs 0) \<noteq> 0"
  shows "\<exists>p. (pool_step config envs root)\<^sup>*\<^sup>* (pool_start config True) p \<and> po_pc p = Undefined"
proof -
  let ?s = "pool_step config envs root" and ?p = "pool_start config True"
  let ?p1 = "(name_worker config 0 ?p)\<lparr>po_pc := Marking 0, po_threads := (po_threads ?p)(0 := Active)\<rparr>"
  let ?p2 = "?p1\<lparr>po_pc := Creating (Suc 0), po_started := Suc (po_started ?p1),
     po_workers := (po_workers ?p1)(0 := (po_workers ?p1 0)\<lparr>w_started := True\<rparr>)\<rparr>"
  let ?p3 = "?p2\<lparr>po_pc := Joining 0\<rparr>" let ?p4 = "?p3\<lparr>po_pc := Joining (Suc 0)\<rparr>"
  let ?p5 = "?p4\<lparr>po_pc := Pool_returned (if po_serving ?p4 = 0 then -1 else 0), po_allocated := False\<rparr>"
  have "?s ?p ?p1" by (rule create_ok) (use assms in \<open>simp_all add: pool_start_def\<close>)
  moreover have "?s ?p1 ?p2" by (rule mark_started) simp
  moreover have "?s ?p2 ?p3" by (rule all_created [where i = 1]) (use assms in simp_all)
  moreover have "?s ?p3 ?p4" by (rule join_error [where i = 0, simplified]) (use assms in \<open>simp_all add: name_worker_def\<close>)
  moreover have "?s ?p4 ?p5" by (rule all_joined [where i = 1]) (use assms in simp_all)
  moreover have "?s ?p5 (?p5\<lparr>po_pc := Undefined\<rparr>)" by (rule thread_wrong [of _ 0]) simp_all
  ultimately have "?s\<^sup>*\<^sup>* ?p (?p5\<lparr>po_pc := Undefined\<rparr>)" by (meson converse_rtranclp_into_rtranclp rtranclp.rtrancl_refl)
  then show ?thesis by (intro exI [of _ "?p5\<lparr>po_pc := Undefined\<rparr>"] conjI) simp_all
qed

section \<open>A request to shut down\<close>

definition quiet_infrastructure :: "wait_answer list \<Rightarrow> bool" where
  "quiet_infrastructure ws \<longleftrightarrow>
     (\<forall>evs ev. Ready evs \<in> set ws \<and> ev \<in> set evs \<and> is_infrastructure_fd (ev_source ev) \<longrightarrow> \<not> ev_error ev)"

definition shutdown_reported :: "wait_answer list \<Rightarrow> bool" where
  "shutdown_reported ws \<longleftrightarrow> (\<exists>evs ev. Ready evs \<in> set ws \<and> ev \<in> set evs \<and> ev_source ev = Shutdown_fd)"

lemma handle_event_control:
  assumes "handle_event ev s = Some (ctl, s')" "is_infrastructure_fd (ev_source ev) \<longrightarrow> \<not> ev_error ev"
  shows "ctl = (if ev_source ev = Shutdown_fd then Exit 0 else Continue)"
  using assms
  by (cases "ev_source ev")
     (auto simp: handle_event_def continue_def is_infrastructure_fd_def bind_eq_Some_conv split: if_splits)

lemma handle_events_control:
  "handle_events evs s = Some (ctl, s') \<Longrightarrow>
   \<forall>ev\<in>set evs. is_infrastructure_fd (ev_source ev) \<longrightarrow> \<not> ev_error ev \<Longrightarrow>
   ctl = (if \<exists>ev\<in>set evs. ev_source ev = Shutdown_fd then Exit 0 else Continue)"
proof (induction evs s rule: handle_events.induct)
  case (2 ev evs s)
  obtain c s1 where 1: "handle_event ev s = Some (c, s1)"
    and rest: "(case c of Continue \<Rightarrow> handle_events evs s1 | Exit status \<Rightarrow> Some (Exit status, s1)) = Some (ctl, s')"
    using 2(2) by (auto simp: bind_eq_Some_conv)
  have "c = (if ev_source ev = Shutdown_fd then Exit 0 else Continue)"
    using handle_event_control [OF 1] 2(3) by simp
  with 2(1) [OF 1] rest 2(3) show ?case by (auto split: if_splits)
qed simp

lemma wait_loop_shutdown:
  "wait_loop ws s = Some (ctl, s') \<Longrightarrow> quiet_infrastructure ws \<Longrightarrow> shutdown_reported ws \<Longrightarrow> ctl = Exit 0"
proof (induction ws s rule: wait_loop.induct)
  case (1 s)
  then show ?case by (simp add: shutdown_reported_def)
next
  case (2 e ws s)
  then show ?case by (auto simp: quiet_infrastructure_def shutdown_reported_def split: if_splits)
next
  case (3 evs ws s)
  obtain c s1 where c: "handle_events evs s = Some (c, s1)"
    and r: "(case c of Continue \<Rightarrow> wait_loop ws s1 | Exit status \<Rightarrow> Some (Exit status, s1)) = Some (ctl, s')"
    using 3(2) by (auto simp: bind_eq_Some_conv)
  have c': "c = (if \<exists>ev\<in>set evs. ev_source ev = Shutdown_fd then Exit 0 else Continue)"
    using 3(3) by (intro handle_events_control [OF c]) (auto simp: quiet_infrastructure_def)
  show ?case
  proof (cases "\<exists>ev\<in>set evs. ev_source ev = Shutdown_fd")
    case True
    then show ?thesis using c' r by simp
  next
    case False
    then have "quiet_infrastructure ws" "shutdown_reported ws" "c = Continue"
      using 3(3,4) c' by (auto simp: quiet_infrastructure_def shutdown_reported_def)
    with 3(1) [OF c] r show ?thesis by simp
  qed
qed

text \<open>A worker that starts, meets no broken infrastructure and is told to shut down.\<close>

definition runs_until_shutdown :: "worker_pool_config \<Rightarrow> thread_env \<Rightarrow> static_root \<Rightarrow> nat \<Rightarrow> bool" where
  "runs_until_shutdown config te root i \<longleftrightarrow>
     te_create te = 0 \<and> te_join te = 0 \<and> safe_thread config te root i \<and>
     quiet_infrastructure (te_waits te) \<and> shutdown_reported (te_waits te) \<and>
     (\<exists>fd n k s.
        create_listen_socket (wp_port config) (wp_backlog config) (te_listen te) (te_net te) (te_kernel te) = (fd, n, k) \<and> 0 \<le> fd \<and>
        event_loop_setup (loop_config config fd i) (te_setup te) root k = Inr s)"

lemma shutdown_thread_serves:
  assumes "wf_root root" "i < 2 ^ 31" "runs_until_shutdown config (envs i) root i"
  shows "\<exists>k. thread_result config envs root i = Some (Thread_done True k)"
proof -
  let ?te = "envs i"
  obtain fd n k s where c:
    "create_listen_socket (wp_port config) (wp_backlog config) (te_listen ?te) (te_net ?te) (te_kernel ?te) = (fd, n, k)" "0 \<le> fd"
    and s: "event_loop_setup (loop_config config fd i) (te_setup ?te) root k = Inr s"
    using assms(3) by (auto simp: runs_until_shutdown_def)
  have "epoll_waits (te_waits ?te) s \<and> sweeps_spare (te_waits ?te) s" using assms(3) c s unfolding runs_until_shutdown_def safe_thread_def by blast
  then obtain out where out: "event_loop_run (loop_config config fd i) (te_setup ?te) (te_waits ?te) root k = Some out"
    using event_loop_run_ok [OF assms(1), of "loop_config config fd i" "te_setup ?te" k "te_waits ?te"] assms(2) s
    by (auto simp: loop_config_def)
  then obtain ctl s1 where w: "wait_loop (te_waits ?te) s = Some (ctl, s1)"
    using s by (auto simp: event_loop_run_def bind_eq_Some_conv)
  have "ctl = Exit 0" using wait_loop_shutdown [OF w] assms(3) by (simp add: runs_until_shutdown_def)
  with w s out obtain s2 where "out = Returned 0 s2" by (auto simp: event_loop_run_def bind_eq_Some_conv)
  with out c show ?thesis by (simp add: thread_result_def worker_main_def new_worker_def loop_config_def)
qed

section \<open>A pool of two workers\<close>

text \<open>
  Each worker accepts a client, handles an event of it and is then told to shut down. Another
  worker listens on the port, which also has connections in \<^verbatim>\<open>TIME_WAIT\<close>.
\<close>

definition busy_waits :: "wait_answer list" where
  "busy_waits = [Ready [\<lparr>ev_source = Listen_fd, ev_error = False\<rparr>], Ready [\<lparr>ev_source = Conn 2, ev_error = False\<rparr>],
     Ready [\<lparr>ev_source = Shutdown_fd, ev_error = False\<rparr>]]"

definition demo_listen :: listen_answers where
  "demo_listen = \<lparr>la_socket = Some 12, la_reuseaddr = True, la_reuseport = True, la_bind = True, la_listen = True\<rparr>"

definition demo_net :: net where
  "demo_net = \<lparr>n_socks = [(7, listener 8080 128)], n_time_wait = [8080]\<rparr>"

definition demo_thread :: thread_env where
  "demo_thread = \<lparr>te_create = 0, te_join = 0, te_listen = demo_listen, te_setup = demo_setup, te_waits = busy_waits,
     te_net = demo_net,
     te_kernel = demo_kernel\<lparr>k_accepts := [Accepted 8], k_mallocs := [Some 2],
       k_reads := [Data (''GET /'' @ '' HTTP/1.1'' @ CRLF @ CRLF)]\<rparr>\<rparr>"

definition demo_pool :: worker_pool_config where
  "demo_pool = \<lparr>wp_port = 8080, wp_backlog = 128, wp_worker_count = 2, wp_idle_timeout_seconds = 30, wp_shutdown_fd = 9\<rparr>"

lemma create_listen_socket_frame:
  "create_listen_socket port backlog la n k = (fd, n', k') \<Longrightarrow>
   k' = k\<lparr>k_fds := k_fds k'\<rparr> \<and> k_fds k' \<subseteq> k_fds k \<union> set_option (la_socket la)"
  by (auto simp: create_listen_socket_def sock_socket_def sock_close_def open_fresh_def sys_close_def
      split: option.splits prod.splits bool.splits if_splits)

text \<open>The thread above, with whatever descriptors the process has open.\<close>

lemma busy_thread_safe: 
  assumes "8 \<notin> fds"
  shows "safe_thread config (demo_thread\<lparr>te_kernel := (te_kernel demo_thread)\<lparr>k_fds := fds\<rparr>\<rparr>) root i"
  unfolding safe_thread_def
proof (intro allI impI, elim conjE)
  let ?te = "demo_thread\<lparr>te_kernel := (te_kernel demo_thread)\<lparr>k_fds := fds\<rparr>\<rparr>"
  fix fd n k s
  assume c: "create_listen_socket (wp_port config) (wp_backlog config) (te_listen ?te) (te_net ?te) (te_kernel ?te) = (fd, n, k)"
    and s: "event_loop_setup (loop_config config fd i) (te_setup ?te) root k = Inr s"
  have te: "te_setup ?te = demo_setup" "te_waits ?te = busy_waits" "la_socket (te_listen ?te) = Some 12"
    by (simp_all add: demo_thread_def demo_listen_def)
  obtain F where k: "k = (te_kernel ?te)\<lparr>k_fds := F\<rparr>" "F \<subseteq> insert 12 fds"
    using create_listen_socket_frame [OF c] te(3) by (intro that [of "k_fds k"]) auto
  have srv: "s_connections s = None" "s_heap s = Map.empty" "s_kernel s = k\<lparr>k_fds := insert 21 (insert 20 F)\<rparr>"
    using s k(1) unfolding te(1)
    by (auto simp: event_loop_setup_def demo_setup_def open_fresh_def split: if_splits)
  have "handle_event \<lparr>ev_source = Listen_fd, ev_error = False\<rparr> s = Some (Continue, met 2 8 s)"
    using assms k srv by (intro accept_one) (auto simp: demo_thread_def demo_kernel_def)
  then show "epoll_waits (te_waits ?te) s \<and> sweeps_spare (te_waits ?te) s"
    unfolding te(2) busy_waits_def
    by (simp add: epoll_batch_def split: option.splits loop_control.splits) (simp add: met_def)
qed

lemma demo_socket:
  assumes "12 \<notin> fds"
  shows "create_listen_socket 8080 backlog demo_listen demo_net (k\<lparr>k_fds := fds\<rparr>) =
    (12, demo_net\<lparr>n_socks := (12, listener 8080 backlog) # n_socks demo_net\<rparr>, k\<lparr>k_fds := insert 12 fds\<rparr>)"
  using create_listen_socket_ok [of demo_listen 12 "k\<lparr>k_fds := fds\<rparr>" demo_net 8080 backlog] assms
  by (simp add: granted_def demo_listen_def demo_net_def port_shared_def listener_def)

lemma busy_runs_until_shutdown:
  assumes "8 \<notin> fds" "12 \<notin> fds" "20 \<notin> fds" "21 \<notin> fds" "wp_port config = 8080"
  shows "runs_until_shutdown config (demo_thread\<lparr>te_kernel := (te_kernel demo_thread)\<lparr>k_fds := fds\<rparr>\<rparr>) root i"
proof -
  let ?te = "demo_thread\<lparr>te_kernel := (te_kernel demo_thread)\<lparr>k_fds := fds\<rparr>\<rparr>"
  have te: "te_setup ?te = demo_setup" "te_waits ?te = busy_waits" "te_listen ?te = demo_listen" "te_net ?te = demo_net"
    "te_create ?te = 0" "te_join ?te = 0" "te_kernel ?te = (te_kernel demo_thread)\<lparr>k_fds := fds\<rparr>"
    by (simp_all add: demo_thread_def)
  have "\<exists>s. event_loop_setup (loop_config config 12 i) demo_setup root ((te_kernel demo_thread)\<lparr>k_fds := insert 12 fds\<rparr>) = Inr s"
    using assms by (simp add: event_loop_setup_def demo_setup_def open_fresh_def)
  with busy_thread_safe [OF assms(1), of config root i] demo_socket [OF assms(2)] assms(5) show ?thesis
    unfolding runs_until_shutdown_def te
    by (auto simp: busy_waits_def quiet_infrastructure_def shutdown_reported_def is_infrastructure_fd_def)
qed

lemma demo_thread_eq: "demo_thread\<lparr>te_kernel := (te_kernel demo_thread)\<lparr>k_fds := {3, 5, 7}\<rparr>\<rparr> = demo_thread"
  by (simp add: demo_thread_def demo_kernel_def)

lemma demo_thread_runs: "runs_until_shutdown demo_pool demo_thread root i"
  using busy_runs_until_shutdown [of "{3, 5, 7}" demo_pool root i] unfolding demo_thread_eq by (simp add: demo_pool_def)

lemma demo_thread_result:
  "i < 2 ^ 31 \<Longrightarrow> \<exists>k. worker_main demo_thread demo_root (new_worker demo_pool (\<lambda>i. demo_thread) i) = Some (Thread_done True k)"
  using shutdown_thread_serves [OF demo_root_wf, of i demo_pool "\<lambda>i. demo_thread"] demo_thread_runs
  by (simp add: thread_result_def)

lemma demo_created:
  "i \<in> created (\<lambda>i. demo_thread) (nat (wp_worker_count demo_pool)) \<Longrightarrow>
   te_join demo_thread = 0 \<and> (\<exists>b k. thread_result demo_pool (\<lambda>i. demo_thread) demo_root i = Some (Thread_done b k))"
  using demo_thread_result [of i] by (auto simp: thread_result_def created_def demo_pool_def demo_thread_def)

lemma demo_pool_returns:
  "\<exists>p r. (pool_step demo_pool (\<lambda>i. demo_thread) demo_root)\<^sup>*\<^sup>* (pool_start demo_pool True) p \<and> po_pc p = Pool_returned r"
proof -
  have start: "pool_inv demo_pool (\<lambda>i. demo_thread) demo_root (pool_start demo_pool True)"
    by (rule pool_inv_start) (simp add: demo_pool_def)
  from pool.comes_to_rest [OF this] obtain p where
    p: "(pool_step demo_pool (\<lambda>i. demo_thread) demo_root)\<^sup>*\<^sup>* (pool_start demo_pool True) p"
      "pool_inv demo_pool (\<lambda>i. demo_thread) demo_root p" "\<nexists>q. pool_step demo_pool (\<lambda>i. demo_thread) demo_root p q" by blast
  have "po_pc (pool_start demo_pool True) \<noteq> Undefined" by (simp add: pool_start_def Let_def)
  then have "po_pc p \<noteq> Undefined" using pool_never_undefined [OF _ start p(1)] demo_created by fastforce
  from pool_progress [OF p(2) this p(3)] demo_created p(1) show ?thesis by blast
qed

lemma demo_thread_safe: "safe_thread demo_pool demo_thread demo_root i"
  using demo_thread_runs by (simp add: runs_until_shutdown_def)


theorem pool_threads_safe_witness:
  "\<exists>p r. (pool_step demo_pool (\<lambda>i. demo_thread) demo_root)\<^sup>*\<^sup>* (pool_start demo_pool True) p \<and>
     po_pc p = Pool_returned r \<and> po_threads p 0 \<noteq> Active \<and> po_threads p 1 \<noteq> Active"
proof -
  obtain p r where p: "(pool_step demo_pool (\<lambda>i. demo_thread) demo_root)\<^sup>*\<^sup>* (pool_start demo_pool True) p"
    "po_pc p = Pool_returned r" using demo_pool_returns by blast
  moreover have "\<forall>i. int i < wp_worker_count demo_pool \<longrightarrow> te_join demo_thread = 0 \<and> safe_thread demo_pool demo_thread demo_root i"
    using demo_thread_safe by (simp add: demo_thread_def)
  ultimately show ?thesis using pool_threads_safe [OF demo_root_wf _ _ p(1)] by (auto simp: demo_pool_def)
qed

theorem pool_always_returns_witness:
  "\<exists>p. (pool_step demo_pool (\<lambda>i. demo_thread) demo_root)\<^sup>*\<^sup>* (pool_start demo_pool True) p \<and>
     (\<exists>r. po_pc p = Pool_returned r) \<and> (\<forall>i. po_threads p i \<noteq> Active)"
proof -
  obtain p where p: "(pool_step demo_pool (\<lambda>i. demo_thread) demo_root)\<^sup>*\<^sup>* (pool_start demo_pool True) p"
    "\<nexists>q. pool_step demo_pool (\<lambda>i. demo_thread) demo_root p q"
    using pool.comes_to_rest [OF pool_inv_start [of demo_pool "\<lambda>i. demo_thread" demo_root]] by (auto simp: demo_pool_def)
  have "\<forall>i. int i < wp_worker_count demo_pool \<and> te_create demo_thread = 0 \<longrightarrow>
      te_join demo_thread = 0 \<and> (\<exists>b k. worker_main demo_thread demo_root (new_worker demo_pool (\<lambda>i. demo_thread) i) = Some (Thread_done b k))"
    using demo_created by (auto simp: created_def thread_result_def zless_nat_eq_int_zless)
  from pool_always_returns [where envs = "\<lambda>i. demo_thread", OF this, of True] p show ?thesis by blast
qed

text \<open>Three workers on a port that has connections in \<^verbatim>\<open>TIME_WAIT\<close>.\<close>

theorem workers_share_port_witness:
  "\<exists>n' k'. create_listen_sockets 8080 128
       (map (\<lambda>fd. demo_listen\<lparr>la_socket := Some fd\<rparr>) [12, 13, 14]) \<lparr>n_socks = [], n_time_wait = [8080]\<rparr> demo_kernel =
       ([12, 13, 14], n', k') \<and>
     map_of (n_socks n') 14 = Some (listener 8080 128) \<and> map_of (n_socks n') 12 = Some (listener 8080 128)"
proof -
  let ?las = "map (\<lambda>fd. demo_listen\<lparr>la_socket := Some fd\<rparr>) [12, 13, 14]" and ?n = "\<lparr>n_socks = [], n_time_wait = [8080]\<rparr>"
  obtain fds n' k' where run: "create_listen_sockets 8080 128 ?las ?n demo_kernel = (fds, n', k')" using prod_cases3 by blast
  then show ?thesis
    using workers_share_port [OF _ _ _ _ _ _ run, of "[12, 13, 14]"]
    by (auto simp: granted_def demo_listen_def demo_kernel_def port_shared_def)
qed

end
