(* ===== verification/Server.thy ===== *)
theory Server
  imports Pool_Spec
begin

text \<open>
  The program, \<^verbatim>\<open>main.c\<close>: signals, the shutdown descriptor, the settings and
  the pool. The descriptors that the threads leave open or close are brought back into the
  process when the pool has returned. The last theorems are about the whole process: what it
  has established when it serves, what its exit status means, and that a shutdown request ends
  it with every descriptor given back.
\<close>

section \<open>Signals and the shutdown descriptor\<close>

datatype signal = SIGPIPE | SIGINT | SIGTERM

datatype disposition = SIG_DFL | SIG_IGN | Shutdown_handler

text \<open>
  The state of the process that \<^verbatim>\<open>main.c\<close> touches: the signal dispositions, the
  global \<^verbatim>\<open>g_shutdown_fd\<close>, the 64-bit counter behind it, \<^verbatim>\<open>errno\<close>, the
  document root of \<^verbatim>\<open>static_files.c\<close> and the kernel.
\<close>

record process =
  pr_signals :: "signal \<Rightarrow> disposition"
  pr_shutdown_fd :: int
  pr_counter :: nat
  pr_errno :: int
  pr_root :: static_root
  pr_kernel :: kernel

definition EFD_MAX :: nat where "EFD_MAX = 2 ^ 64 - 2"
definition errno_EBADF :: int where "errno_EBADF = 9"
definition errno_EAGAIN :: int where "errno_EAGAIN = 11"

text \<open>\<^verbatim>\<open>write\<close> of a number to the non-blocking event descriptor.\<close>

definition eventfd_write :: "nat \<Rightarrow> process \<Rightarrow> process" where
  "eventfd_write n p =
     (if pr_shutdown_fd p \<notin> k_fds (pr_kernel p) then p\<lparr>pr_errno := errno_EBADF\<rparr>
      else if pr_counter p + n > EFD_MAX then p\<lparr>pr_errno := errno_EAGAIN\<rparr>
      else p\<lparr>pr_counter := pr_counter p + n\<rparr>)"

definition handle_shutdown_signal :: "process \<Rightarrow> process" where
  "handle_shutdown_signal p = (let saved = pr_errno p in (eventfd_write 1 p)\<lparr>pr_errno := saved\<rparr>)"

text \<open>
  The arrival of a signal. The default action of the three signals ends the process, which is
  \<open>None\<close>.
\<close>

definition deliver :: "signal \<Rightarrow> process \<Rightarrow> process option" where
  "deliver sig p =
     (case pr_signals p sig of
        SIG_DFL \<Rightarrow> None
      | SIG_IGN \<Rightarrow> Some p
      | Shutdown_handler \<Rightarrow> Some (handle_shutdown_signal p))"

fun deliver_all :: "signal list \<Rightarrow> process \<Rightarrow> process option" where
  "deliver_all [] p = Some p"
| "deliver_all (sig # sigs) p = do { p1 \<leftarrow> deliver sig p; deliver_all sigs p1 }"

section \<open>main\<close>

text \<open>What the system answers \<^verbatim>\<open>main\<close>.\<close>

record main_env =
  me_signal_ok :: bool
  me_getenv :: "string \<Rightarrow> string option"
  me_fs :: fs_view
  me_eventfd :: "int option"
  me_sigaction :: "signal \<Rightarrow> bool"
  me_online :: int
  me_alloc :: bool
  me_threads :: "nat \<Rightarrow> thread_env"

datatype main_outcome = Exited int process | Serving worker_pool_config process

definition PORT :: int where "PORT = 8080"
definition BACKLOG :: int where "BACKLOG = 128"
definition DEFAULT_PUBLIC_ROOT :: string where "DEFAULT_PUBLIC_ROOT = ''public''"
definition EXIT_SUCCESS :: int where "EXIT_SUCCESS = 0"
definition EXIT_FAILURE :: int where "EXIT_FAILURE = 1"

definition install_shutdown_handler :: "bool \<Rightarrow> signal \<Rightarrow> process \<Rightarrow> int \<times> process" where
  "install_shutdown_handler ok signum p =
     (if \<not> ok then (-1, p) else (0, p\<lparr>pr_signals := (pr_signals p)(signum := Shutdown_handler)\<rparr>))"

text \<open>A thread starts with the descriptors of the process in its view.\<close>

definition in_process :: "kernel \<Rightarrow> (nat \<Rightarrow> thread_env) \<Rightarrow> nat \<Rightarrow> thread_env" where
  "in_process k envs i = (envs i)\<lparr>te_kernel := (te_kernel (envs i))\<lparr>k_fds := k_fds k\<rparr>\<rparr>"

definition public_root :: "main_env \<Rightarrow> string" where
  "public_root me =
     (case me_getenv me ''HTTP_SERVER_PUBLIC_ROOT'' of
        None \<Rightarrow> DEFAULT_PUBLIC_ROOT
      | Some s \<Rightarrow> if s = [] then DEFAULT_PUBLIC_ROOT else s)"

definition close_shutdown_fd :: "process \<Rightarrow> process" where
  "close_shutdown_fd p = p\<lparr>pr_kernel := sys_close (pr_shutdown_fd p) (pr_kernel p)\<rparr>"

text \<open>
  The threads share the descriptors of the process. Each has its own view of the kernel, so the
  views of the threads that were created are brought together afterwards: a descriptor that
  any of them closed is closed, and one that any of them opened and did not close is open.
\<close>

definition thread_kernels :: "worker_pool_config \<Rightarrow> (nat \<Rightarrow> thread_env) \<Rightarrow> static_root \<Rightarrow> kernel list" where
  "thread_kernels config envs root =
     concat (map (\<lambda>i.
       if te_create (envs i) \<noteq> 0 then []
       else case worker_main (envs i) root (new_worker config envs i) of
         None \<Rightarrow> []
       | Some (Thread_done served k) \<Rightarrow> [k]
       | Some (Thread_running s) \<Rightarrow> [s_kernel s]) [0..<nat (wp_worker_count config)])"

definition after_threads :: "kernel \<Rightarrow> kernel list \<Rightarrow> kernel" where
  "after_threads k ks =
     k\<lparr>k_fds := {fd \<in> k_fds k. \<forall>t\<in>set ks. fd \<in> k_fds t} \<union> (\<Union>t\<in>set ks. k_fds t - k_fds k)\<rparr>"

text \<open>From the configuration of the pool to the end of \<^verbatim>\<open>main\<close>.\<close>

definition pool_config :: "main_env \<Rightarrow> int \<Rightarrow> worker_pool_config" where
  "pool_config me shutdown_fd =
     \<lparr>wp_port = PORT, wp_backlog = BACKLOG,
      wp_worker_count = worker_pool_worker_count (me_online me) (me_getenv me ''HTTP_SERVER_WORKERS''),
      wp_idle_timeout_seconds = idle_timeout_from_env (me_getenv me ''HTTP_SERVER_IDLE_TIMEOUT_SECONDS''),
      wp_shutdown_fd = shutdown_fd\<rparr>"

definition run_pool :: "main_env \<Rightarrow> process \<Rightarrow> main_outcome option" where
  "run_pool me p =
     (let pool = pool_config me (pr_shutdown_fd p);
          envs = in_process (pr_kernel p) (me_threads me);
          ks = (if me_alloc me then thread_kernels pool envs (pr_root p) else []);
          p1 = p\<lparr>pr_kernel := after_threads (pr_kernel p) ks\<rparr>
      in do {
        out \<leftarrow> worker_pool_run pool (me_alloc me) envs (pr_root p);
        (case out of
           Pool_blocked \<Rightarrow> Some (Serving pool p1)
         | Pool_result status \<Rightarrow>
             Some (Exited (if status = 0 then EXIT_SUCCESS else EXIT_FAILURE) (close_shutdown_fd p1)))
      })"

definition main :: "main_env \<Rightarrow> process \<Rightarrow> main_outcome option" where
  "main me p =
     (if \<not> me_signal_ok me then Some (Exited EXIT_FAILURE p)
      else
        let p1 = p\<lparr>pr_signals := (pr_signals p)(SIGPIPE := SIG_IGN)\<rparr> in
        do {
          (r, root) \<leftarrow> static_files_init (me_fs me) (public_root me) (pr_root p1);
          (let p2 = p1\<lparr>pr_root := root\<rparr> in
           if r < 0 then Some (Exited EXIT_FAILURE p2)
           else case open_fresh (me_eventfd me) (pr_kernel p2) of
             (None, k) \<Rightarrow> Some (Exited EXIT_FAILURE (p2\<lparr>pr_shutdown_fd := -1, pr_kernel := k\<rparr>))
           | (Some fd, k) \<Rightarrow>
               (case install_shutdown_handler (me_sigaction me SIGINT) SIGINT
                       (p2\<lparr>pr_shutdown_fd := fd, pr_counter := 0, pr_kernel := k\<rparr>) of
                  (r1, p3) \<Rightarrow>
                    if r1 < 0 then Some (Exited EXIT_FAILURE (close_shutdown_fd p3))
                    else case install_shutdown_handler (me_sigaction me SIGTERM) SIGTERM p3 of
                      (r2, p4) \<Rightarrow>
                        if r2 < 0 then Some (Exited EXIT_FAILURE (close_shutdown_fd p4))
                        else run_pool me p4))
        })"

section \<open>Signals while the server runs\<close>

definition signals_installed :: "process \<Rightarrow> bool" where
  "signals_installed p \<longleftrightarrow>
     pr_signals p SIGPIPE = SIG_IGN \<and> pr_signals p SIGINT = Shutdown_handler \<and> pr_signals p SIGTERM = Shutdown_handler \<and>
     pr_shutdown_fd p \<in> k_fds (pr_kernel p)"

definition shutdown_requests :: "signal list \<Rightarrow> nat" where
  "shutdown_requests sigs = length (filter (\<lambda>sig. sig = SIGINT \<or> sig = SIGTERM) sigs)"

lemma deliver_installed:
  assumes "signals_installed p" "pr_counter p \<le> EFD_MAX"
  shows "deliver sig p = Some (p\<lparr>pr_counter := min EFD_MAX (pr_counter p + shutdown_requests [sig])\<rparr>)"
  using assms
  by (cases sig) (auto simp: deliver_def signals_installed_def shutdown_requests_def handle_shutdown_signal_def
      eventfd_write_def Let_def min_def)

lemma deliver_all_installed:
  "signals_installed p \<Longrightarrow> pr_counter p \<le> EFD_MAX \<Longrightarrow>
   deliver_all sigs p = Some (p\<lparr>pr_counter := min EFD_MAX (pr_counter p + shutdown_requests sigs)\<rparr>)"
proof (induction sigs arbitrary: p)
  case (Cons sig sigs)
  let ?q = "p\<lparr>pr_counter := min EFD_MAX (pr_counter p + shutdown_requests [sig])\<rparr>"
  have "signals_installed ?q" using Cons.prems(1) by (simp add: signals_installed_def)
  with Cons.IH [of ?q] have "deliver_all (sig # sigs) p =
      Some (?q\<lparr>pr_counter := min EFD_MAX (pr_counter ?q + shutdown_requests sigs)\<rparr>)"
    using deliver_installed [OF Cons.prems] by simp
  moreover have "min EFD_MAX (pr_counter ?q + shutdown_requests sigs) =
      min EFD_MAX (pr_counter p + shutdown_requests (sig # sigs))"
    by (simp add: shutdown_requests_def min_def)
  ultimately show ?case by simp
qed (simp add: shutdown_requests_def)

text \<open>
  C38. Signals are safe and are not lost. Once the dispositions are installed, no sequence of
  \<^verbatim>\<open>SIGPIPE\<close>, \<^verbatim>\<open>SIGINT\<close> and \<^verbatim>\<open>SIGTERM\<close> ends or
  disturbs the process: \<^verbatim>\<open>errno\<close> keeps its value and the counter never wraps
  around. The shutdown descriptor is readable afterwards exactly if one of the two shutdown
  signals arrived (or it was readable before).
\<close>

theorem signals_request_shutdown:
  assumes "signals_installed p" "pr_counter p \<le> EFD_MAX"
  shows "\<exists>q. deliver_all sigs p = Some q \<and> signals_installed q \<and> pr_errno q = pr_errno p \<and>
    pr_counter p \<le> pr_counter q \<and> pr_counter q \<le> EFD_MAX \<and>
    (0 < pr_counter q \<longleftrightarrow> 0 < pr_counter p \<or> SIGINT \<in> set sigs \<or> SIGTERM \<in> set sigs)"
proof -
  have "0 < shutdown_requests sigs \<longleftrightarrow> SIGINT \<in> set sigs \<or> SIGTERM \<in> set sigs"
    by (auto simp: shutdown_requests_def filter_empty_conv)
  moreover have "0 < EFD_MAX" by (simp add: EFD_MAX_def)
  ultimately show ?thesis
    using deliver_all_installed [OF assms, of sigs] assms by (auto simp: signals_installed_def)
qed

section \<open>The whole process\<close>

lemma pool_config_limits:
  "1 \<le> wp_worker_count (pool_config me fd)" "wp_worker_count (pool_config me fd) \<le> 64"
  "1 \<le> wp_idle_timeout_seconds (pool_config me fd)" "wp_idle_timeout_seconds (pool_config me fd) \<le> 3600"
  using workers.within timeout.within by (simp_all add: pool_config_def MAX_WORKERS_def)

text \<open>Worker \<open>i\<close> of the program served and ended.\<close>

definition worker_served :: "main_env \<Rightarrow> kernel \<Rightarrow> static_root \<Rightarrow> int \<Rightarrow> nat \<Rightarrow> bool" where
  "worker_served me k root fd i \<longleftrightarrow>
     int i < wp_worker_count (pool_config me fd) \<and> te_create (me_threads me i) = 0 \<and>
     (\<exists>k'. worker_main (in_process k (me_threads me) i) root
        (new_worker (pool_config me fd) (in_process k (me_threads me)) i) = Some (Thread_done True k'))"

lemma in_process_create [simp]: "te_create (in_process k envs i) = te_create (envs i)"
  by (simp add: in_process_def)

lemma in_process_join [simp]: "te_join (in_process k envs i) = te_join (envs i)"
  by (simp add: in_process_def)

lemma join_workers_blocked:
  assumes "\<forall>j\<in>set is. te_create (envs j) = 0 \<longrightarrow> te_join (envs j) = 0 \<and> thread_result config envs root j \<noteq> None"
    "\<exists>j\<in>set is. te_create (envs j) = 0 \<and> (\<exists>s. thread_result config envs root j = Some (Thread_running s))"
  shows "join_workers envs root (new_worker config envs) is serving = Some Pool_blocked"
  using assms
proof (induction "is" arbitrary: serving)
  case (Cons i "is")
  show ?case
  proof (cases "te_create (envs i) = 0")
    case True
    then obtain out where "thread_result config envs root i = Some out" "te_join (envs i) = 0" using Cons.prems by auto
    with True Cons show ?thesis by (cases out) (auto simp: thread_result_def [symmetric])
  qed (use Cons in auto)
qed simp

text \<open>If no thread goes wrong and the joins succeed, the pool has a result exactly if every thread has ended.\<close>

lemma worker_pool_run_total:
  assumes "\<And>i. int i < wp_worker_count config \<Longrightarrow> te_create (envs i) = 0 \<Longrightarrow>
      te_join (envs i) = 0 \<and> thread_result config envs root i \<noteq> None"
  shows "\<exists>out. worker_pool_run config True envs root = Some out \<and>
    (case out of
       Pool_result r \<Rightarrow>
         (\<forall>i. int i < wp_worker_count config \<and> te_create (envs i) = 0 \<longrightarrow>
            (\<exists>b k. thread_result config envs root i = Some (Thread_done b k))) \<and>
         (r = 0 \<longleftrightarrow> (\<exists>i k. int i < wp_worker_count config \<and> te_create (envs i) = 0 \<and>
            thread_result config envs root i = Some (Thread_done True k)))
     | Pool_blocked \<Rightarrow>
         (\<exists>i s. int i < wp_worker_count config \<and> te_create (envs i) = 0 \<and>
            thread_result config envs root i = Some (Thread_running s)))"
proof -
  let ?n = "nat (wp_worker_count config)"
  let ?served = "\<lambda>i k. int i < wp_worker_count config \<and> te_create (envs i) = 0 \<and>
      thread_result config envs root i = Some (Thread_done True k)"
  have ids: "i < ?n \<longleftrightarrow> int i < wp_worker_count config" for i by linarith
  have ok: "\<forall>j\<in>set [0..<?n]. te_create (envs j) = 0 \<longrightarrow> te_join (envs j) = 0 \<and> thread_result config envs root j \<noteq> None"
    using assms by (simp add: ids)
  show ?thesis
  proof (cases "\<exists>j\<in>set [0..<?n]. te_create (envs j) = 0 \<and> (\<exists>s. thread_result config envs root j = Some (Thread_running s))")
    case True
    then have "worker_pool_run config True envs root = Some Pool_blocked"
      using join_workers_blocked [OF ok True, of 0] by (auto simp: worker_pool_run_def Let_def filter_empty_conv)
    with True show ?thesis by (auto simp: ids)
  next
    case False
    have ended: "\<exists>b k. thread_result config envs root j = Some (Thread_done b k)"
      if j: "int j < wp_worker_count config" "te_create (envs j) = 0" for j
    proof -
      obtain out where "thread_result config envs root j = Some out" using assms [OF j] by blast
      with False j show ?thesis by (cases out) (auto simp: ids)
    qed
    then have "\<forall>j\<in>set [0..<?n]. te_create (envs j) = 0 \<and> te_join (envs j) = 0 \<longrightarrow>
        (\<exists>b k. thread_result config envs root j = Some (Thread_done b k))" by (simp add: ids)
    from join_workers_done [OF this, of 0] obtain r where join:
      "join_workers envs root (new_worker config envs) [0..<?n] 0 = Some (Pool_result r)"
      and "r = (if \<forall>j\<in>set [0..<?n]. te_create (envs j) = 0 \<and> te_join (envs j) = 0 \<longrightarrow>
         (\<nexists>k. thread_result config envs root j = Some (Thread_done True k)) then -1 else 0)" by simp
    then have r: "r = (if \<exists>i k. ?served i k then 0 else -1)" using assms by (auto simp: ids)
    have "\<exists>i k. ?served i k \<Longrightarrow> filter (\<lambda>i. w_started (new_worker config envs i)) [0..<?n] \<noteq> []"
      by (auto simp: filter_empty_conv ids)
    with join r have "worker_pool_run config True envs root = Some (Pool_result r)"
      by (auto simp: worker_pool_run_def Let_def)
    with ended r show ?thesis by auto
  qed
qed

lemma thread_kernels_mem:
  assumes "t \<in> set (thread_kernels config envs root)"
  obtains i out where "int i < wp_worker_count config" "te_create (envs i) = 0" "thread_result config envs root i = Some out"
    "t = (case out of Thread_done b k \<Rightarrow> k | Thread_running s \<Rightarrow> s_kernel s)"
proof -
  from assms obtain i where i: "i < nat (wp_worker_count config)" "te_create (envs i) = 0"
    "t \<in> set (case thread_result config envs root i of None \<Rightarrow> [] | Some (Thread_done served k) \<Rightarrow> [k]
       | Some (Thread_running s) \<Rightarrow> [s_kernel s])"
    unfolding thread_kernels_def thread_result_def by (auto simp only: set_concat set_map UN_iff set_upt split: if_splits) auto
  then obtain out where out: "thread_result config envs root i = Some out" by (cases "thread_result config envs root i") auto
  with i have "t = (case out of Thread_done b k \<Rightarrow> k | Thread_running s \<Rightarrow> s_kernel s)" by (cases out) auto
  with i out that show thesis by (metis zless_nat_eq_int_zless)
qed

lemma after_threads_same: "\<forall>t\<in>set ks. k_fds t = k_fds k \<Longrightarrow> after_threads k ks = k"
  by (simp add: after_threads_def Collect_conj_eq [symmetric] conj_absorb cong: conj_cong)

lemma after_threads_keeps: "\<forall>t\<in>set ks. k_fds k \<subseteq> k_fds t \<Longrightarrow> k_fds k \<subseteq> k_fds (after_threads k ks)"
  by (auto simp: after_threads_def)

lemma in_process_fds: "k_fds (te_kernel (in_process k envs i)) = k_fds k"
  by (simp add: in_process_def)

text \<open>The threads of the process as they start: joined in the end, and with batches that do not go wrong.\<close>

definition threads_ok :: "main_env \<Rightarrow> static_root \<Rightarrow> int \<Rightarrow> kernel \<Rightarrow> bool" where
  "threads_ok me g fd k \<longleftrightarrow>
     (\<forall>i. int i < wp_worker_count (pool_config me fd) \<longrightarrow>
        te_join (me_threads me i) = 0 \<and> safe_thread (pool_config me fd) (in_process k (me_threads me) i) g i)"

lemma threads_ok_result:
  assumes "wf_root g" "threads_ok me g fd k" "int i < wp_worker_count (pool_config me fd)"
  shows "\<exists>out. thread_result (pool_config me fd) (in_process k (me_threads me)) g i = Some out \<and>
    (case out of Thread_done b k' \<Rightarrow> k_fds k' = k_fds k | Thread_running s \<Rightarrow> k_fds k \<subseteq> k_fds (s_kernel s))"
proof -
  have "i < 2 ^ 31" using assms(3) pool_config_limits(2) [of me fd] by simp
  with assms(2,3) show ?thesis
    by (intro thread_result_ok [OF assms(1), where envs = "in_process k (me_threads me)", unfolded in_process_fds])
       (simp_all add: threads_ok_def)
qed

lemma threads_ok_kernels:
  assumes "wf_root g" "threads_ok me g fd k" "t \<in> set (thread_kernels (pool_config me fd) (in_process k (me_threads me)) g)"
  shows "k_fds k \<subseteq> k_fds t"
    "\<forall>i. int i < wp_worker_count (pool_config me fd) \<and> te_create (me_threads me i) = 0 \<longrightarrow>
       (\<exists>b k'. thread_result (pool_config me fd) (in_process k (me_threads me)) g i = Some (Thread_done b k')) \<Longrightarrow>
     k_fds t = k_fds k"
proof -
  from thread_kernels_mem [OF assms(3)] obtain i out where i: "int i < wp_worker_count (pool_config me fd)"
    "te_create (me_threads me i) = 0" "thread_result (pool_config me fd) (in_process k (me_threads me)) g i = Some out"
    and t: "t = (case out of Thread_done b k \<Rightarrow> k | Thread_running s \<Rightarrow> s_kernel s)" by auto
  from threads_ok_result [OF assms(1,2) i(1)] i(3)
  have out: "case out of Thread_done b k' \<Rightarrow> k_fds k' = k_fds k | Thread_running s \<Rightarrow> k_fds k \<subseteq> k_fds (s_kernel s)" by simp
  show "k_fds k \<subseteq> k_fds t" using out t by (cases out) simp_all
  show "k_fds t = k_fds k" if "\<forall>i. int i < wp_worker_count (pool_config me fd) \<and> te_create (me_threads me i) = 0 \<longrightarrow>
       (\<exists>b k'. thread_result (pool_config me fd) (in_process k (me_threads me)) g i = Some (Thread_done b k'))"
    using that i out t by (cases out) auto
qed

lemma run_pool_ok:
  assumes "wf_root (pr_root q)" "threads_ok me (pr_root q) (pr_shutdown_fd q) (pr_kernel q)"
  shows "\<exists>out. run_pool me q = Some out \<and>
    (case out of
       Exited status q' \<Rightarrow> q' = close_shutdown_fd q \<and> (status = EXIT_SUCCESS \<or> status = EXIT_FAILURE) \<and>
         (status = EXIT_SUCCESS \<longrightarrow> (\<exists>i. worker_served me (pr_kernel q) (pr_root q) (pr_shutdown_fd q) i))
     | Serving pool q' \<Rightarrow> (\<exists>ks. q' = q\<lparr>pr_kernel := after_threads (pr_kernel q) ks\<rparr> \<and> (\<forall>t\<in>set ks. k_fds (pr_kernel q) \<subseteq> k_fds t)) \<and>
         pool = pool_config me (pr_shutdown_fd q))"
proof (cases "me_alloc me")
  case False
  then show ?thesis
    by (simp add: run_pool_def worker_pool_run_def Let_def after_threads_def EXIT_SUCCESS_def EXIT_FAILURE_def)
next
  case True
  let ?c = "pool_config me (pr_shutdown_fd q)" and ?envs = "in_process (pr_kernel q) (me_threads me)"
  let ?ks = "thread_kernels ?c ?envs (pr_root q)"
  note res = threads_ok_result [OF assms]
  have "te_join (?envs i) = 0 \<and> thread_result ?c ?envs (pr_root q) i \<noteq> None" if "int i < wp_worker_count ?c" for i
    using res [OF that] assms(2) that by (auto simp: threads_ok_def)
  then obtain out where out: "worker_pool_run ?c True ?envs (pr_root q) = Some out"
    and o: "case out of
       Pool_result r \<Rightarrow>
         (\<forall>i. int i < wp_worker_count ?c \<and> te_create (?envs i) = 0 \<longrightarrow>
            (\<exists>b k. thread_result ?c ?envs (pr_root q) i = Some (Thread_done b k))) \<and>
         (r = 0 \<longleftrightarrow> (\<exists>i k. int i < wp_worker_count ?c \<and> te_create (?envs i) = 0 \<and>
            thread_result ?c ?envs (pr_root q) i = Some (Thread_done True k)))
     | Pool_blocked \<Rightarrow> True"
    using worker_pool_run_total [of ?c ?envs "pr_root q"] by (fastforce split: pool_result.splits)
  have keeps: "\<forall>t\<in>set ?ks. k_fds (pr_kernel q) \<subseteq> k_fds t"
    using threads_ok_kernels(1) [OF assms] by blast
  show ?thesis
  proof (cases out)
    case (Pool_result r)
    have "\<forall>t\<in>set ?ks. k_fds t = k_fds (pr_kernel q)"
      using threads_ok_kernels(2) [OF assms] o Pool_result by simp
    note same = after_threads_same [OF this]
    have "\<exists>i. worker_served me (pr_kernel q) (pr_root q) (pr_shutdown_fd q) i" if "r = 0"
      using o Pool_result that by (auto simp: worker_served_def thread_result_def)
    with same Pool_result out True show ?thesis
      by (auto simp: run_pool_def Let_def EXIT_SUCCESS_def EXIT_FAILURE_def)
  next
    case Pool_blocked
    with out True keeps show ?thesis by (auto simp: run_pool_def Let_def)
  qed
qed

text \<open>The set-up of \<^verbatim>\<open>main\<close> succeeds, and the process that then runs the pool.\<close>

definition starts :: "main_env \<Rightarrow> process \<Rightarrow> static_root \<Rightarrow> int \<Rightarrow> kernel \<Rightarrow> bool" where
  "starts me p g fd k \<longleftrightarrow>
     me_signal_ok me \<and> static_files_init (me_fs me) (public_root me) (pr_root p) = Some (0, g) \<and>
     open_fresh (me_eventfd me) (pr_kernel p) = (Some fd, k) \<and> me_sigaction me SIGINT \<and> me_sigaction me SIGTERM"

definition ready_process :: "static_root \<Rightarrow> int \<Rightarrow> kernel \<Rightarrow> process \<Rightarrow> process" where
  "ready_process g fd k p =
     p\<lparr>pr_root := g, pr_shutdown_fd := fd, pr_counter := 0, pr_kernel := k,
       pr_signals := (pr_signals p)(SIGPIPE := SIG_IGN, SIGINT := Shutdown_handler, SIGTERM := Shutdown_handler)\<rparr>"

lemma ready_root: "pr_root (ready_process g fd k p) = g"
  by (simp add: ready_process_def)

lemma main_starts: "starts me p g fd k \<Longrightarrow> main me p = run_pool me (ready_process g fd k p)"
  by (simp add: starts_def main_def install_shutdown_handler_def ready_process_def)

lemma main_fails:
  assumes "static_files_init (me_fs me) (public_root me) (pr_root p) = Some (r, g)" "r = 0 \<or> r = -1"
    "\<nexists>fd k. starts me p g fd k"
  shows "\<exists>q. main me p = Some (Exited EXIT_FAILURE q) \<and> k_fds (pr_kernel q) = k_fds (pr_kernel p)"
proof (cases "open_fresh (me_eventfd me) (pr_kernel p)")
  case (Pair a k)
  then have "a = None \<Longrightarrow> k_fds k = k_fds (pr_kernel p)"
    "\<And>fd. a = Some fd \<Longrightarrow> fd \<notin> k_fds (pr_kernel p) \<and> k_fds k = insert fd (k_fds (pr_kernel p))"
    by (auto simp: open_fresh_def split: option.splits if_splits)
  with Pair assms show ?thesis
    by (cases a) (auto simp: starts_def main_def Let_def install_shutdown_handler_def close_shutdown_fd_def sys_close_def)
qed

lemma ready_process_ok:
  assumes "starts me p g fd k"
  shows "pr_kernel (ready_process g fd k p) = k" "pr_shutdown_fd (ready_process g fd k p) = fd"
    "pr_counter (ready_process g fd k p) = 0" "signals_installed (ready_process g fd k p)"
    "k_fds k = insert fd (k_fds (pr_kernel p))" "fd \<notin> k_fds (pr_kernel p)"
  using assms
  by (auto simp: ready_process_def signals_installed_def starts_def open_fresh_def split: option.splits if_splits)

text \<open>
  C29. The program. Suppose that in the threads as \<^verbatim>\<open>main\<close> starts them every
  \<^verbatim>\<open>epoll_wait\<close> reports what epoll may report, no sweep frees a connection that is
  still to come in its batch, and every \<^verbatim>\<open>pthread_join\<close> succeeds. Then
  \<^verbatim>\<open>main\<close> does not go wrong. If it exits, every descriptor that it and its threads
  opened is closed again, and status 0 means that a worker served. If it is serving, the document
  root is a well-formed directory name, \<^verbatim>\<open>SIGPIPE\<close> is ignored,
  \<^verbatim>\<open>SIGINT\<close> and \<^verbatim>\<open>SIGTERM\<close> post to the open shutdown
  descriptor that every worker watches, no thread has closed a descriptor of the process, and
  there are between 1 and 64 workers with a timeout between a second and an hour.
\<close>

theorem main_outcomes:
  assumes "realpath_names (me_fs me)"
    "\<forall>g fd k. starts me p g fd k \<longrightarrow>
       (\<forall>i. int i < wp_worker_count (pool_config me fd) \<longrightarrow>
          te_join (me_threads me i) = 0 \<and> safe_thread (pool_config me fd) (in_process k (me_threads me) i) g i)"
  shows "\<exists>out. main me p = Some out \<and>
    (case out of
       Exited status q \<Rightarrow>
         k_fds (pr_kernel q) = k_fds (pr_kernel p) \<and> (status = EXIT_SUCCESS \<or> status = EXIT_FAILURE) \<and>
         (status = EXIT_SUCCESS \<longrightarrow>
            (\<exists>k i. k_fds k = insert (pr_shutdown_fd q) (k_fds (pr_kernel p)) \<and>
               worker_served me k (pr_root q) (pr_shutdown_fd q) i))
     | Serving pool q \<Rightarrow>
         signals_installed q \<and> wf_root (pr_root q) \<and> pr_counter q = 0 \<and> wp_shutdown_fd pool = pr_shutdown_fd q \<and>
         insert (pr_shutdown_fd q) (k_fds (pr_kernel p)) \<subseteq> k_fds (pr_kernel q) \<and>
         1 \<le> wp_worker_count pool \<and> wp_worker_count pool \<le> 64 \<and>
         1 \<le> wp_idle_timeout_seconds pool \<and> wp_idle_timeout_seconds pool \<le> 3600)"
proof -
  obtain r g where init: "static_files_init (me_fs me) (public_root me) (pr_root p) = Some (r, g)"
    and r: "r = 0 \<and> wf_root g \<or> r = -1 \<and> g = pr_root p"
    using static_files_init_ok [OF assms(1), of "public_root me" "pr_root p"] by blast
  show ?thesis
  proof (cases "\<exists>fd k. starts me p g fd k")
    case False
    then obtain q where "main me p = Some (Exited EXIT_FAILURE q)" "k_fds (pr_kernel q) = k_fds (pr_kernel p)"
      using main_fails [OF init] r by auto
    then show ?thesis by (simp add: EXIT_SUCCESS_def EXIT_FAILURE_def)
  next
    case True
    then obtain fd k where st: "starts me p g fd k" by blast
    let ?q = "ready_process g fd k p"
    note q = ready_process_ok [OF st]
    have g: "wf_root g" using st init r by (auto simp: starts_def)
    have "threads_ok me g fd k" using assms(2) st by (simp add: threads_ok_def)
    then obtain out where out: "run_pool me ?q = Some out"
      and o: "case out of
         Exited status q' \<Rightarrow> q' = close_shutdown_fd ?q \<and> (status = EXIT_SUCCESS \<or> status = EXIT_FAILURE) \<and>
           (status = EXIT_SUCCESS \<longrightarrow> (\<exists>i. worker_served me k g fd i))
       | Serving pool q' \<Rightarrow> (\<exists>ks. q' = ?q\<lparr>pr_kernel := after_threads k ks\<rparr> \<and> (\<forall>t\<in>set ks. k_fds k \<subseteq> k_fds t)) \<and>
           pool = pool_config me fd"
      using run_pool_ok [of ?q me, unfolded q(1,2) ready_root] g by blast
    show ?thesis
    proof (cases out)
      case (Exited status q')
      then show ?thesis using main_starts [OF st] out o q ready_root [of g fd k p]
        by (auto simp: close_shutdown_fd_def sys_close_def EXIT_SUCCESS_def EXIT_FAILURE_def)
    next
      case (Serving pool q')
      with o obtain ks where ks: "q' = ?q\<lparr>pr_kernel := after_threads k ks\<rparr>" "\<forall>t\<in>set ks. k_fds k \<subseteq> k_fds t"
        and pool: "pool = pool_config me fd" by auto
      have "insert fd (k_fds (pr_kernel p)) \<subseteq> k_fds (pr_kernel q')"
        using after_threads_keeps [OF ks(2)] q(5) by (simp add: ks(1))
      then show ?thesis using main_starts [OF st] out Serving q g ready_root [of g fd k p] pool_config_limits [of me fd]
        by (simp add: ks(1) pool pool_config_def signals_installed_def)
    qed
  qed
qed

lemma pool_all_served:
  assumes "0 < wp_worker_count config"
    "\<And>i. int i < wp_worker_count config \<Longrightarrow> te_create (envs i) = 0 \<and> te_join (envs i) = 0"
    "\<And>i. int i < wp_worker_count config \<Longrightarrow> \<exists>k. thread_result config envs root i = Some (Thread_done True k)"
  shows "worker_pool_run config True envs root = Some (Pool_result 0)"
proof -
  let ?ids = "[0..<nat (wp_worker_count config)]"
  have ids: "i \<in> set ?ids \<Longrightarrow> int i < wp_worker_count config" for i by auto
  have 0: "0 \<in> set ?ids" using assms(1) by simp
  have "\<forall>j\<in>set ?ids. te_create (envs j) = 0 \<and> te_join (envs j) = 0 \<longrightarrow>
      (\<exists>b k. thread_result config envs root j = Some (Thread_done b k))"
    using assms(3) ids by blast
  from join_workers_done [OF this, of 0]
  have "join_workers envs root (new_worker config envs) ?ids 0 = Some (Pool_result 0)"
    using 0 assms(2,3) [OF ids [OF 0]] by (auto split: if_splits)
  moreover have "filter (\<lambda>i. w_started (new_worker config envs i)) ?ids \<noteq> []"
    using 0 assms(2) [OF ids [OF 0]] by (auto simp: filter_empty_conv)
  ultimately show ?thesis using assms(1) by (simp add: worker_pool_run_def Let_def)
qed

lemma shutdown_exits:
  assumes "realpath_names (me_fs me)" "starts me p g fd k" "me_alloc me"
    "\<forall>i. int i < wp_worker_count (pool_config me fd) \<longrightarrow>
       runs_until_shutdown (pool_config me fd) (in_process k (me_threads me) i) g i"
  shows "main me p = Some (Exited EXIT_SUCCESS (close_shutdown_fd (ready_process g fd k p)))"
proof -
  let ?q = "ready_process g fd k p" and ?c = "pool_config me fd" and ?envs = "in_process k (me_threads me)"
  note q = ready_process_ok [OF assms(2)]
  have root: "wf_root g" using static_files_init_ok [OF assms(1), of "public_root me" "pr_root p"] assms(2)
    by (auto simp: starts_def)
  have small: "int i < wp_worker_count ?c \<Longrightarrow> i < 2 ^ 31" for i using pool_config_limits(2) [of me fd] by simp
  have served: "\<exists>k'. thread_result ?c ?envs g i = Some (Thread_done True k')" if "int i < wp_worker_count ?c" for i
    using shutdown_thread_serves [where envs = ?envs, OF root small [OF that]] assms(4) that by blast
  have created: "te_create (?envs i) = 0 \<and> te_join (?envs i) = 0 \<and> safe_thread ?c (?envs i) g i"
    if "int i < wp_worker_count ?c" for i
    using assms(4) that unfolding runs_until_shutdown_def by blast
  have one: "0 < wp_worker_count ?c" using pool_config_limits(1) [of me fd] by simp
  have run: "worker_pool_run ?c True ?envs g = Some (Pool_result 0)"
    using pool_all_served [where config = ?c and envs = ?envs] one served created by blast
  have "threads_ok me g fd k" using created by (simp add: threads_ok_def)
  then have "\<forall>t\<in>set (thread_kernels ?c ?envs g). k_fds t = k_fds k"
    using threads_ok_kernels(2) [OF root] served by blast
  then have "main me p = Some (Exited EXIT_SUCCESS (close_shutdown_fd (?q\<lparr>pr_kernel := k\<rparr>)))"
    using after_threads_same run main_starts [OF assms(2)] q(1,2) ready_root [of g fd k p] assms(3)
    by (simp add: run_pool_def)
  then show ?thesis using q(1) by (simp add: close_shutdown_fd_def)
qed

text \<open>
  C28. Graceful shutdown. Suppose that the set-up of \<^verbatim>\<open>main\<close> succeeds and that
  every worker is created, gets its listening socket and its loop, and is joined. Suppose
  further that its \<^verbatim>\<open>epoll_wait\<close> reports what epoll may report (no error on an
  infrastructure descriptor, and no connection behind a timer event that frees it), and at some
  point that the shutdown descriptor is readable. Then \<^verbatim>\<open>main\<close> returns with
  status 0, and every descriptor that the process or one of its threads opened is closed again;
  what the clients send and read does not matter.
\<close>

theorem shutdown_ends_program:
  assumes "realpath_names (me_fs me)" "starts me p g fd k" "me_alloc me"
    "\<forall>i. int i < wp_worker_count (pool_config me fd) \<longrightarrow>
       runs_until_shutdown (pool_config me fd) (in_process k (me_threads me) i) g i"
  shows "\<exists>q. main me p = Some (Exited EXIT_SUCCESS q) \<and> k_fds (pr_kernel q) = k_fds (pr_kernel p)"
  using shutdown_exits [OF assms] ready_process_ok [OF assms(2)]
  by (auto simp: close_shutdown_fd_def sys_close_def)

section \<open>A process with two workers\<close>

definition demo_env :: main_env where
  "demo_env = \<lparr>me_signal_ok = True, me_getenv = (\<lambda>v. if v = ''HTTP_SERVER_WORKERS'' then Some ''2'' else None),
     me_fs = demo_fs, me_eventfd = Some 9, me_sigaction = (\<lambda>sig. True), me_online = 8, me_alloc = True,
     me_threads = (\<lambda>i. demo_thread)\<rparr>"

definition demo_process :: process where
  "demo_process = \<lparr>pr_signals = (\<lambda>sig. SIG_DFL), pr_shutdown_fd = -1, pr_counter = 0, pr_errno = 0,
     pr_root = demo_root, pr_kernel = demo_kernel\<rparr>"

definition demo_started_kernel :: kernel where
  "demo_started_kernel = demo_kernel\<lparr>k_fds := {3, 5, 7, 9}\<rparr>"

lemma demo_realpath: "realpath_names demo_fs"
  by (simp add: realpath_names_def demo_fs_def)

lemma demo_starts: "\<exists>g. wf_root g \<and> starts demo_env demo_process g 9 demo_started_kernel"
proof -
  obtain g where "static_files_init demo_fs (public_root demo_env) demo_root = Some (0, g)"
    using static_files_init_ok [OF demo_realpath, of "public_root demo_env" demo_root]
    by (auto simp: static_files_init_def demo_fs_def array_write_def split: if_splits)
  moreover from this have "wf_root g" using static_files_init_ok [OF demo_realpath, of "public_root demo_env" demo_root] by auto
  moreover have "insert 9 {3, 5, 7} = {3, 5, 7, 9::int}" by auto
  ultimately show ?thesis
    by (auto simp: starts_def demo_env_def demo_process_def open_fresh_def demo_kernel_def demo_started_kernel_def)
qed

lemma demo_in_process:
  "in_process demo_started_kernel (me_threads demo_env) i = demo_thread\<lparr>te_kernel := (te_kernel demo_thread)\<lparr>k_fds := {3, 5, 7, 9}\<rparr>\<rparr>"
  by (simp add: in_process_def demo_env_def demo_started_kernel_def)

lemma demo_runs:
  "runs_until_shutdown (pool_config demo_env 9) (in_process demo_started_kernel (me_threads demo_env) i) g i"
  unfolding demo_in_process by (rule busy_runs_until_shutdown) (simp_all add: pool_config_def PORT_def)

lemma demo_exits:
  assumes "starts demo_env demo_process g 9 demo_started_kernel"
  shows "main demo_env demo_process = Some (Exited EXIT_SUCCESS (close_shutdown_fd (ready_process g 9 demo_started_kernel demo_process)))"
  using shutdown_exits [OF _ assms] demo_runs demo_realpath by (simp add: demo_env_def)

lemma starts_unique:
  "starts me p g fd k \<Longrightarrow> starts me p g' fd' k' \<Longrightarrow> g' = g \<and> fd' = fd \<and> k' = k"
  by (auto simp: starts_def)

theorem signals_request_shutdown_witness:
  "\<exists>g q. deliver_all [SIGPIPE, SIGTERM] (ready_process g 9 demo_started_kernel demo_process) = Some q \<and> 0 < pr_counter q"
proof -
  obtain g where st: "starts demo_env demo_process g 9 demo_started_kernel" using demo_starts by blast
  show ?thesis
    using signals_request_shutdown [OF ready_process_ok(4) [OF st], of "[SIGPIPE, SIGTERM]"] ready_process_ok(3) [OF st]
    by (auto simp: EFD_MAX_def)
qed

theorem main_outcomes_witness:
  "\<exists>q k i. main demo_env demo_process = Some (Exited EXIT_SUCCESS q) \<and> k_fds (pr_kernel q) = {3, 5, 7} \<and>
     k_fds k = {3, 5, 7, pr_shutdown_fd q} \<and> worker_served demo_env k (pr_root q) (pr_shutdown_fd q) i"
proof -
  obtain g where st: "starts demo_env demo_process g 9 demo_started_kernel" using demo_starts by blast
  have fs: "realpath_names (me_fs demo_env)" using demo_realpath by (simp add: demo_env_def)
  have "te_join (me_threads demo_env i) = 0 \<and>
      safe_thread (pool_config demo_env 9) (in_process demo_started_kernel (me_threads demo_env) i) g i" for i
    using demo_runs [of i g] by (simp add: runs_until_shutdown_def)
  then have "\<forall>g fd k. starts demo_env demo_process g fd k \<longrightarrow>
       (\<forall>i. int i < wp_worker_count (pool_config demo_env fd) \<longrightarrow> te_join (me_threads demo_env i) = 0 \<and>
          safe_thread (pool_config demo_env fd) (in_process k (me_threads demo_env) i) g i)"
    using starts_unique [OF st] by blast
  from main_outcomes [OF fs this] demo_exits [OF st] show ?thesis
    by (auto simp: demo_process_def demo_kernel_def insert_commute)
qed

theorem shutdown_ends_program_witness:
  "\<exists>q. main demo_env demo_process = Some (Exited EXIT_SUCCESS q) \<and> k_fds (pr_kernel q) = k_fds (pr_kernel demo_process)"
proof -
  obtain g where "starts demo_env demo_process g 9 demo_started_kernel" using demo_starts by blast
  moreover have "realpath_names (me_fs demo_env)" "me_alloc demo_env" using demo_realpath by (simp_all add: demo_env_def)
  ultimately show ?thesis using shutdown_ends_program demo_runs by blast
qed

end
