(* ===== verification/Request_Grammar.thy ===== *)
theory Request_Grammar
  imports Parser_Spec
begin

text \<open>
  The request language as a grammar: requests as data (\<open>http_request\<close>), their octets
  (\<open>render_request\<close>) and the limits of the server (\<open>valid_request\<close>). The parser accepts
  exactly the renderings of valid requests, reports exactly their fields, and stops
  exactly behind them; so the framing of a byte stream is unambiguous.
\<close>

section \<open>Requests and their octets\<close>

record header_field =
  h_name :: string
  h_ows :: string
  h_value :: string

record http_request =
  q_method :: string
  q_path :: string
  q_version :: string
  q_headers :: "header_field list"

definition render_header :: "header_field \<Rightarrow> string" where
  "render_header h = h_name h @ [CHR '':''] @ h_ows h @ h_value h @ CRLF"

definition render_line :: "http_request \<Rightarrow> string" where
  "render_line q = q_method q @ [SP] @ q_path q @ [SP] @ q_version q"

definition render_request :: "http_request \<Rightarrow> string" where
  "render_request q = render_line q @ CRLF @ concat (map render_header (q_headers q)) @ CRLF"

definition valid_header :: "header_field \<Rightarrow> bool" where
  "valid_header h \<longleftrightarrow>
     h_name h \<noteq> [] \<and> list_all is_header_name_char (h_name h) \<and> list_all is_ows (h_ows h) \<and>
     list_all is_header_value_char (h_value h) \<and> (h_value h = [] \<or> \<not> is_ows (hd (h_value h))) \<and>
     length (h_name h) + length (h_value h) < HTTP_HEADER_LINE_MAX"

definition valid_line :: "http_request \<Rightarrow> bool" where
  "valid_line q \<longleftrightarrow>
     q_method q \<noteq> [] \<and> list_all is_method_char (q_method q) \<and> length (q_method q) < HTTP_METHOD_MAX \<and>
     q_path q \<noteq> [] \<and> list_all is_path_char (q_path q) \<and> length (q_path q) < HTTP_PATH_MAX \<and>
     valid_version (q_version q)"

definition valid_request :: "http_request \<Rightarrow> bool" where
  "valid_request q \<longleftrightarrow>
     valid_line q \<and> list_all valid_header (q_headers q) \<and> int (length (q_headers q)) \<le> HTTP_MAX_HEADERS"

text \<open>What the headers say about the connection: \<open>Connection\<close> fields in order.\<close>

definition header_directive ::
  "header_field \<Rightarrow> http_connection_directive \<Rightarrow> http_connection_directive" where
  "header_directive h d =
     (if caseless_eq (h_name h) ''Connection'' then connection_value (h_value h) d else d)"

definition request_directive :: "header_field list \<Rightarrow> http_connection_directive" where
  "request_directive hs = fold header_directive hs HTTP_CONN_UNSPECIFIED"

text \<open>The fields a finished parser reports for a request.\<close>

definition line_parsed :: "http_request \<Rightarrow> request_state \<Rightarrow> bool" where
  "line_parsed q r \<longleftrightarrow>
     r_method r = q_method q \<and> r_method_id r = spec_classify (q_method q) \<and> r_path r = q_path q \<and>
     r_version r = q_version q \<and> r_major r = digit_val (q_version q ! 5) \<and>
     r_minor r = digit_val (q_version q ! 7)"

definition parsed_as :: "http_request \<Rightarrow> request_state \<Rightarrow> bool" where
  "parsed_as q r \<longleftrightarrow>
     line_parsed q r \<and> r_count r = int (length (q_headers q)) \<and>
     r_conn r = request_directive (q_headers q)"

lemma request_directive_Nil [simp]: "request_directive [] = HTTP_CONN_UNSPECIFIED"
  by (simp add: request_directive_def)

lemma request_directive_snoc [simp]:
  "request_directive (hs @ [h]) = header_directive h (request_directive hs)"
  by (simp add: request_directive_def)

lemma valid_version_chars: "valid_version v \<Longrightarrow> list_all is_version_char v"
  by (auto simp: valid_version_def is_version_char_def is_digit_def)

section \<open>Completeness: valid requests are accepted\<close>

text \<open>\<open>runs r xs r'\<close>: the machine consumes all of \<open>xs\<close> and goes from \<open>r\<close> to \<open>r'\<close>.\<close>

definition runs :: "request_state \<Rightarrow> string \<Rightarrow> request_state \<Rightarrow> bool" where
  "runs r xs r' \<longleftrightarrow> spec_run r xs = (r', length xs)"

lemma runs_Nil [simp]: "runs r [] r' \<longleftrightarrow> r' = r"
  by (auto simp: runs_def)

lemma runs_Cons:
  "\<not> terminal (r_state r) \<Longrightarrow> runs r (c # cs) r' \<longleftrightarrow> runs (spec_byte r c) cs r'"
  by (auto simp: runs_def split: prod.splits)

lemma runs_append: "runs r xs s \<Longrightarrow> runs s ys t \<Longrightarrow> runs r (xs @ ys) t"
  by (simp add: runs_def spec_run_append)

text \<open>
  Five states of the machine collect octets of one class into one field, up to a limit:
  the method, the path, the version, a header name and a header value. What such a state
  does with a whole run of octets is proved once.
\<close>

locale field_collector =
  fixes st :: http_parser_state
    and get :: "request_state \<Rightarrow> string"
    and upd :: "request_state \<Rightarrow> string \<Rightarrow> request_state"
    and P :: "char \<Rightarrow> bool"
    and cap :: nat
  assumes get_upd: "get (upd r x) = x"
    and upd_upd: "upd (upd r x) y = upd r y"
    and upd_get: "upd r (get r) = r"
    and state_upd: "r_state (upd r x) = r_state r"
    and live: "\<not> terminal st"
    and collect_step: "r_state r = st \<Longrightarrow> P c \<Longrightarrow> length (get r) + 1 < cap \<Longrightarrow>
      spec_byte r c = upd r (get r @ [c])"
begin

lemma collects:
  "r_state r = st \<Longrightarrow> list_all P m \<Longrightarrow> length (get r) + length m < cap \<Longrightarrow>
   runs r m (upd r (get r @ m))"
proof (induction m arbitrary: r)
  case Nil
  then show ?case by (simp add: upd_get)
next
  case (Cons c m)
  let ?s = "upd r (get r @ [c])"
  have "runs ?s m (upd ?s (get ?s @ m))"
    using Cons.IH [of ?s] Cons.prems by (simp add: state_upd get_upd)
  then show ?case
    using Cons.prems live collect_step [of r c] by (simp add: runs_Cons get_upd upd_upd)
qed

end

interpretation method_run: field_collector HTTP_STATE_METHOD r_method
  "\<lambda>r x. r\<lparr>r_method := x\<rparr>" is_method_char HTTP_METHOD_MAX
  by unfold_locales (auto simp: spec_byte_def)

interpretation path_run: field_collector HTTP_STATE_PATH r_path
  "\<lambda>r x. r\<lparr>r_path := x\<rparr>" is_path_char HTTP_PATH_MAX
  by unfold_locales (auto simp: spec_byte_def)

interpretation version_run: field_collector HTTP_STATE_VERSION r_version
  "\<lambda>r x. r\<lparr>r_version := x\<rparr>" is_version_char HTTP_VERSION_MAX
  by unfold_locales (auto simp: spec_byte_def)

interpretation name_run: field_collector HTTP_STATE_HEADER_NAME r_line
  "\<lambda>r x. r\<lparr>r_line := x\<rparr>" is_header_name_char HTTP_HEADER_LINE_MAX
  by unfold_locales (auto simp: spec_byte_def)

interpretation value_run: field_collector HTTP_STATE_HEADER_VALUE r_line
  "\<lambda>r x. r\<lparr>r_line := x\<rparr>" is_header_value_char HTTP_HEADER_LINE_MAX
  by unfold_locales (auto simp: spec_byte_def spec_value_def)

lemma runs_ows:
  "r_state r = HTTP_STATE_HEADER_VALUE_SP \<Longrightarrow> list_all is_ows m \<Longrightarrow> runs r m r"
  by (induction m arbitrary: r) (auto simp: runs_Cons spec_byte_def)

lemma spec_init_sel [simp]:
  "r_state spec_init = HTTP_STATE_METHOD" "r_method spec_init = []" "r_path spec_init = []"
  "r_version spec_init = []" "r_count spec_init = 0" "r_conn spec_init = HTTP_CONN_UNSPECIFIED"
  by (simp_all add: spec_init_def)

lemma runs_line:
  assumes "valid_line q"
  shows "\<exists>r. runs spec_init (render_line q @ CRLF) r \<and> r_state r = HTTP_STATE_HEADER_LINE_START \<and>
    parsed_as (q\<lparr>q_headers := []\<rparr>) r"
proof -
  let ?v = "q_version q"
  let ?r1 = "spec_init\<lparr>r_method := q_method q\<rparr>"
  let ?r2 = "?r1\<lparr>r_method_id := spec_classify (q_method q), r_state := HTTP_STATE_PATH\<rparr>"
  let ?r3 = "?r2\<lparr>r_path := q_path q\<rparr>"
  let ?r4 = "?r3\<lparr>r_state := HTTP_STATE_VERSION\<rparr>"
  let ?r5 = "?r4\<lparr>r_version := ?v\<rparr>"
  let ?r6 = "?r5\<lparr>r_major := digit_val (?v ! 5), r_minor := digit_val (?v ! 7),
    r_state := HTTP_STATE_REQUEST_LINE_LF\<rparr>"
  let ?r7 = "?r6\<lparr>r_state := HTTP_STATE_HEADER_LINE_START\<rparr>"
  note v = assms [unfolded valid_line_def]
  have "runs spec_init (q_method q) ?r1" using method_run.collects [of spec_init "q_method q"] v by simp
  moreover have "runs ?r1 [SP] ?r2" using v by (simp add: runs_Cons spec_byte_def)
  moreover have "runs ?r2 (q_path q) ?r3" using path_run.collects [of ?r2 "q_path q"] v by simp
  moreover have "runs ?r3 [SP] ?r4" using v by (simp add: runs_Cons spec_byte_def)
  moreover have "runs ?r4 ?v ?r5"
    using version_run.collects [of ?r4 ?v] v by (simp add: valid_version_chars valid_version_length)
  moreover have "runs ?r5 CRLF ?r7" using v by (simp add: runs_Cons spec_byte_def)
  ultimately have "runs spec_init (render_line q @ CRLF) ?r7"
    unfolding render_line_def append_assoc by (blast intro: runs_append)
  moreover have "parsed_as (q\<lparr>q_headers := []\<rparr>) ?r7"
    by (simp add: parsed_as_def line_parsed_def)
  ultimately show ?thesis by fastforce
qed

lemma runs_value_end:
  assumes r: "r_state r = HTTP_STATE_HEADER_VALUE_SP"
    and v: "list_all is_header_value_char v" "v = [] \<or> \<not> is_ows (hd v)"
      "length (r_line r) + length v < HTTP_HEADER_LINE_MAX"
  shows "runs r (v @ [CR]) (r\<lparr>r_line := r_line r @ v, r_state := HTTP_STATE_HEADER_LF\<rparr>)"
proof (cases v)
  case Nil
  with r show ?thesis by (simp add: runs_Cons spec_byte_def spec_value_def is_ows_def)
next
  case (Cons d ds)
  let ?s = "r\<lparr>r_line := r_line r @ [d], r_state := HTTP_STATE_HEADER_VALUE\<rparr>"
  have "runs r [d] ?s" using r v Cons by (auto simp: runs_Cons spec_byte_def spec_value_def)
  moreover have "runs ?s ds (?s\<lparr>r_line := r_line r @ v\<rparr>)"
    using value_run.collects [of ?s ds] v Cons by simp
  moreover have "runs (?s\<lparr>r_line := r_line r @ v\<rparr>) [CR]
      (r\<lparr>r_line := r_line r @ v, r_state := HTTP_STATE_HEADER_LF\<rparr>)"
    by (simp add: runs_Cons spec_byte_def spec_value_def)
  ultimately have "runs r ([d] @ ds @ [CR]) (r\<lparr>r_line := r_line r @ v, r_state := HTTP_STATE_HEADER_LF\<rparr>)"
    by (blast intro: runs_append)
  with Cons show ?thesis by simp
qed

lemma runs_header:
  assumes h: "valid_header h" and r: "r_state r = HTTP_STATE_HEADER_LINE_START"
    "parsed_as q r" "int (length (q_headers q)) < HTTP_MAX_HEADERS"
  shows "\<exists>r'. runs r (render_header h) r' \<and> r_state r' = HTTP_STATE_HEADER_LINE_START \<and>
    parsed_as (q\<lparr>q_headers := q_headers q @ [h]\<rparr>) r'"
proof -
  let ?n = "h_name h" and ?v = "h_value h"
  obtain c cs where n: "?n = c # cs" using h by (cases "h_name h") (auto simp: valid_header_def)
  let ?r1 = "r\<lparr>r_line := [c], r_state := HTTP_STATE_HEADER_NAME\<rparr>"
  let ?r2 = "?r1\<lparr>r_line := ?n\<rparr>"
  let ?r3 = "?r2\<lparr>r_name_len := length ?n, r_state := HTTP_STATE_HEADER_VALUE_SP\<rparr>"
  let ?r4 = "?r3\<lparr>r_line := ?n @ ?v, r_state := HTTP_STATE_HEADER_LF\<rparr>"
  note v = h [unfolded valid_header_def]
  have count: "r_count r < HTTP_MAX_HEADERS" using r by (simp add: parsed_as_def)
  have "runs r [c] ?r1" using r count v n by (auto simp: runs_Cons spec_byte_def)
  moreover have "runs ?r1 cs ?r2" using name_run.collects [of ?r1 cs] v n by simp
  ultimately have "runs r ?n ?r2" using runs_append [of r "[c]" ?r1 cs ?r2] n by simp
  moreover have "runs ?r2 [CHR '':''] ?r3" by (simp add: runs_Cons spec_byte_def)
  moreover have "runs ?r3 (h_ows h) ?r3" using runs_ows [of ?r3] v by simp
  moreover have "runs ?r3 (?v @ [CR]) ?r4" using runs_value_end [of ?r3 ?v] v by simp
  moreover have "runs ?r4 [LF] (spec_header_done ?r4)" by (simp add: runs_Cons spec_byte_def)
  ultimately have "runs r (?n @ [CHR '':''] @ h_ows h @ (?v @ [CR]) @ [LF]) (spec_header_done ?r4)"
    by (blast intro: runs_append)
  moreover have "parsed_as (q\<lparr>q_headers := q_headers q @ [h]\<rparr>) (spec_header_done ?r4)"
    using r by (simp add: parsed_as_def line_parsed_def spec_header_done_def header_directive_def)
  ultimately show ?thesis by (auto simp: render_header_def spec_header_done_def)
qed

lemma runs_headers:
  "list_all valid_header hs \<Longrightarrow> r_state r = HTTP_STATE_HEADER_LINE_START \<Longrightarrow> parsed_as q r \<Longrightarrow>
   int (length (q_headers q) + length hs) \<le> HTTP_MAX_HEADERS \<Longrightarrow>
   \<exists>r'. runs r (concat (map render_header hs)) r' \<and> r_state r' = HTTP_STATE_HEADER_LINE_START \<and>
     parsed_as (q\<lparr>q_headers := q_headers q @ hs\<rparr>) r'"
proof (induction hs arbitrary: r q)
  case Nil
  then show ?case by (auto simp: parsed_as_def line_parsed_def)
next
  case (Cons h hs)
  then obtain s where s: "runs r (render_header h) s" "r_state s = HTTP_STATE_HEADER_LINE_START"
    "parsed_as (q\<lparr>q_headers := q_headers q @ [h]\<rparr>) s"
    using runs_header [of h r q] by auto
  then show ?case
    using Cons.IH [OF _ s(2,3)] Cons.prems by (auto intro: runs_append)
qed

lemma runs_request:
  assumes "valid_request q"
  shows "\<exists>r. runs spec_init (render_request q) r \<and> r_state r = HTTP_STATE_DONE \<and> parsed_as q r"
proof -
  obtain r where r: "runs spec_init (render_line q @ CRLF) r"
    "r_state r = HTTP_STATE_HEADER_LINE_START" "parsed_as (q\<lparr>q_headers := []\<rparr>) r"
    using runs_line [of q] assms by (auto simp: valid_request_def)
  obtain s where s: "runs r (concat (map render_header (q_headers q))) s"
    "r_state s = HTTP_STATE_HEADER_LINE_START" "parsed_as q s"
    using runs_headers [OF _ r(2,3), of "q_headers q"] assms by (auto simp: valid_request_def)
  have "runs s CRLF (s\<lparr>r_state := HTTP_STATE_DONE\<rparr>)"
    using s by (simp add: runs_Cons spec_byte_def)
  then have "runs spec_init ((render_line q @ CRLF) @ concat (map render_header (q_headers q)) @ CRLF)
      (s\<lparr>r_state := HTTP_STATE_DONE\<rparr>)"
    using r s by (blast intro: runs_append)
  moreover have "parsed_as q (s\<lparr>r_state := HTTP_STATE_DONE\<rparr>)"
    using s(3) by (simp add: parsed_as_def line_parsed_def)
  ultimately show ?thesis by (fastforce simp: render_request_def)
qed

lemma spec_run_request:
  assumes "valid_request q"
  shows "\<exists>r. spec_run spec_init (render_request q @ rest) = (r, length (render_request q)) \<and>
    r_state r = HTTP_STATE_DONE \<and> parsed_as q r"
proof -
  obtain r where r: "runs spec_init (render_request q) r" "r_state r = HTTP_STATE_DONE" "parsed_as q r"
    using runs_request [OF assms] by blast
  then have "spec_run spec_init (render_request q @ rest) = (r, length (render_request q))"
    by (simp add: spec_run_append runs_def)
  with r show ?thesis by blast
qed


section \<open>Soundness: only valid requests are accepted\<close>

text \<open>
  \<open>history hist r\<close> says what the consumed octets \<open>hist\<close> must have been for the machine
  to be in state \<open>r\<close>. It is kept by every byte; in \<open>HTTP_STATE_DONE\<close> it says that the
  history is the rendering of a valid request with the reported fields.
\<close>

definition method_ok :: "request_state \<Rightarrow> bool" where
  "method_ok r \<longleftrightarrow> list_all is_method_char (r_method r) \<and> length (r_method r) < HTTP_METHOD_MAX"

definition path_ok :: "request_state \<Rightarrow> bool" where
  "path_ok r \<longleftrightarrow> method_ok r \<and> r_method r \<noteq> [] \<and> r_method_id r = spec_classify (r_method r) \<and>
     list_all is_path_char (r_path r) \<and> length (r_path r) < HTTP_PATH_MAX"

definition fresh_headers :: "request_state \<Rightarrow> bool" where
  "fresh_headers r \<longleftrightarrow> r_count r = 0 \<and> r_conn r = HTTP_CONN_UNSPECIFIED"

text \<open>\<open>read_as q hist r\<close>: the request line and the headers of \<open>q\<close> have been read.\<close>

definition read_as :: "http_request \<Rightarrow> string \<Rightarrow> request_state \<Rightarrow> bool" where
  "read_as q hist r \<longleftrightarrow> valid_request q \<and> parsed_as q r \<and>
     hist = render_line q @ CRLF @ concat (map render_header (q_headers q))"

text \<open>\<open>value_read q hist r v\<close>: also a header line up to and including the value \<open>v\<close>.\<close>

definition value_read :: "http_request \<Rightarrow> string \<Rightarrow> request_state \<Rightarrow> string \<Rightarrow> bool" where
  "value_read q hist r v \<longleftrightarrow>
     (\<exists>h h0. read_as q h0 r \<and> int (length (q_headers q)) < HTTP_MAX_HEADERS \<and> valid_header h \<and>
        h_value h = v \<and> r_line r = h_name h @ v \<and> r_name_len r = length (h_name h) \<and>
        hist = h0 @ h_name h @ [CHR '':''] @ h_ows h @ v)"

fun history :: "string \<Rightarrow> request_state \<Rightarrow> http_parser_state \<Rightarrow> bool" where
  "history hist r HTTP_STATE_METHOD \<longleftrightarrow>
     hist = r_method r \<and> method_ok r \<and> r_path r = [] \<and> r_version r = [] \<and> fresh_headers r"
| "history hist r HTTP_STATE_PATH \<longleftrightarrow>
     hist = r_method r @ [SP] @ r_path r \<and> path_ok r \<and> r_version r = [] \<and> fresh_headers r"
| "history hist r HTTP_STATE_VERSION \<longleftrightarrow>
     hist = r_method r @ [SP] @ r_path r @ [SP] @ r_version r \<and> path_ok r \<and> r_path r \<noteq> [] \<and>
     fresh_headers r"
| "history hist r HTTP_STATE_REQUEST_LINE_LF \<longleftrightarrow>
     (\<exists>q. hist = render_line q @ [CR] \<and> valid_line q \<and> q_headers q = [] \<and> parsed_as q r)"
| "history hist r HTTP_STATE_HEADER_LINE_START \<longleftrightarrow> (\<exists>q. read_as q hist r)"
| "history hist r HTTP_STATE_HEADER_NAME \<longleftrightarrow>
     (\<exists>q h0. read_as q h0 r \<and> int (length (q_headers q)) < HTTP_MAX_HEADERS \<and> hist = h0 @ r_line r \<and>
        r_line r \<noteq> [] \<and> list_all is_header_name_char (r_line r) \<and>
        length (r_line r) < HTTP_HEADER_LINE_MAX)"
| "history hist r HTTP_STATE_HEADER_VALUE_SP \<longleftrightarrow> (\<exists>q. value_read q hist r [])"
| "history hist r HTTP_STATE_HEADER_VALUE \<longleftrightarrow> (\<exists>q v. value_read q hist r v \<and> v \<noteq> [])"
| "history hist r HTTP_STATE_HEADER_LF \<longleftrightarrow> (\<exists>q h0 v. value_read q h0 r v \<and> hist = h0 @ [CR])"
| "history hist r HTTP_STATE_HEADERS_END_LF \<longleftrightarrow> (\<exists>q h0. read_as q h0 r \<and> hist = h0 @ [CR])"
| "history hist r HTTP_STATE_DONE \<longleftrightarrow>
     (\<exists>q. valid_request q \<and> hist = render_request q \<and> parsed_as q r)"
| "history hist r HTTP_STATE_ERROR \<longleftrightarrow> True"

lemmas parsed_defs = parsed_as_def line_parsed_def

lemma read_as_cong:
  assumes "read_as q h r"
    and "r_method r' = r_method r" "r_method_id r' = r_method_id r" "r_path r' = r_path r"
      "r_version r' = r_version r" "r_major r' = r_major r" "r_minor r' = r_minor r"
      "r_count r' = r_count r" "r_conn r' = r_conn r"
  shows "read_as q h r'"
  using assms by (simp add: read_as_def parsed_defs)

lemma history_init: "history [] spec_init HTTP_STATE_METHOD"
  by (simp add: method_ok_def fresh_headers_def)

lemma history_method:
  assumes "history hist r HTTP_STATE_METHOD" "r_state r = HTTP_STATE_METHOD"
  shows "history (hist @ [c]) (spec_byte r c) (r_state (spec_byte r c))"
proof (cases "c = SP \<and> r_method r \<noteq> []")
  case True
  with assms show ?thesis by (simp add: spec_byte_def method_ok_def path_ok_def fresh_headers_def)
next
  case False
  with assms show ?thesis
    by (simp add: spec_byte_def spec_fail_def method_ok_def fresh_headers_def) blast
qed

lemma history_path:
  assumes "history hist r HTTP_STATE_PATH" "r_state r = HTTP_STATE_PATH"
  shows "history (hist @ [c]) (spec_byte r c) (r_state (spec_byte r c))"
proof (cases "c = SP \<and> r_path r \<noteq> []")
  case True
  with assms show ?thesis by (simp add: spec_byte_def method_ok_def path_ok_def fresh_headers_def)
next
  case False
  with assms show ?thesis
    by (simp add: spec_byte_def spec_fail_def method_ok_def path_ok_def fresh_headers_def)
qed

lemma history_version:
  assumes "history hist r HTTP_STATE_VERSION" "r_state r = HTTP_STATE_VERSION"
  shows "history (hist @ [c]) (spec_byte r c) (r_state (spec_byte r c))"
proof (cases "c = CR \<and> valid_version (r_version r)")
  case True
  let ?q = "\<lparr>q_method = r_method r, q_path = r_path r, q_version = r_version r, q_headers = []\<rparr>"
  from True assms have "hist @ [c] = render_line ?q @ [CR] \<and> valid_line ?q \<and> parsed_as ?q (spec_byte r c)"
    by (auto simp: render_line_def valid_line_def parsed_defs spec_byte_def path_ok_def method_ok_def
        fresh_headers_def)
  then have "\<exists>q. hist @ [c] = render_line q @ [CR] \<and> valid_line q \<and> q_headers q = [] \<and>
      parsed_as q (spec_byte r c)"
    by (intro exI [of _ ?q]) auto
  with True assms(2) show ?thesis by (simp add: spec_byte_def)
next
  case False
  with assms show ?thesis
    by (auto simp: spec_byte_def spec_fail_def path_ok_def method_ok_def fresh_headers_def)
qed

lemma history_request_line_lf:
  assumes "history hist r HTTP_STATE_REQUEST_LINE_LF" "r_state r = HTTP_STATE_REQUEST_LINE_LF"
  shows "history (hist @ [c]) (spec_byte r c) (r_state (spec_byte r c))"
  using assms
  by (auto simp: spec_byte_def spec_fail_def read_as_def valid_request_def parsed_defs)

lemma history_header_line_start:
  assumes "history hist r HTTP_STATE_HEADER_LINE_START" "r_state r = HTTP_STATE_HEADER_LINE_START"
  shows "history (hist @ [c]) (spec_byte r c) (r_state (spec_byte r c))"
  using assms
  by (auto simp: spec_byte_def spec_fail_def read_as_def parsed_defs)

lemma history_header_name:
  assumes "history hist r HTTP_STATE_HEADER_NAME" "r_state r = HTTP_STATE_HEADER_NAME"
  shows "history (hist @ [c]) (spec_byte r c) (r_state (spec_byte r c))"
proof -
  obtain q h0 where q: "read_as q h0 r" "int (length (q_headers q)) < HTTP_MAX_HEADERS"
    "hist = h0 @ r_line r" "r_line r \<noteq> []" "list_all is_header_name_char (r_line r)"
    "length (r_line r) < HTTP_HEADER_LINE_MAX"
    using assms by auto
  show ?thesis
  proof (cases "c = CHR '':''")
    case True
    let ?h = "\<lparr>h_name = r_line r, h_ows = [], h_value = []\<rparr>"
    have "valid_header ?h" using q by (simp add: valid_header_def)
    moreover have "read_as q h0 (spec_byte r c)"
      by (rule read_as_cong [OF q(1)]) (simp_all add: spec_byte_def assms(2) True)
    ultimately have "value_read q (hist @ [c]) (spec_byte r c) []"
      unfolding value_read_def using q True assms(2)
      by (intro exI [of _ ?h] exI [of _ h0]) (simp add: spec_byte_def)
    then show ?thesis using True assms(2) by (auto simp: spec_byte_def)
  next
    case False
    then show ?thesis using q assms(2)
      by (auto simp: spec_byte_def spec_fail_def intro!: exI [of _ q] exI [of _ h0]
          intro: read_as_cong)
  qed
qed

lemma value_read_cong:
  assumes "value_read q hist r v"
    and "r_method r' = r_method r" "r_method_id r' = r_method_id r" "r_path r' = r_path r"
      "r_version r' = r_version r" "r_major r' = r_major r" "r_minor r' = r_minor r"
      "r_count r' = r_count r" "r_conn r' = r_conn r" "r_line r' = r_line r" "r_name_len r' = r_name_len r"
  shows "value_read q hist r' v"
  using assms by (fastforce simp: value_read_def intro: read_as_cong)

lemma history_value_ows:
  assumes "value_read q hist r []" "is_ows c"
  shows "value_read q (hist @ [c]) r []"
proof -
  obtain h h0 where h: "read_as q h0 r" "int (length (q_headers q)) < HTTP_MAX_HEADERS"
    "valid_header h" "h_value h = []" "r_line r = h_name h" "r_name_len r = length (h_name h)"
    "hist = h0 @ h_name h @ [CHR '':''] @ h_ows h"
    using assms(1) by (auto simp: value_read_def)
  then show ?thesis using assms(2) unfolding value_read_def
    by (intro exI [of _ "h\<lparr>h_ows := h_ows h @ [c]\<rparr>"] exI [of _ h0]) (simp add: valid_header_def)
qed

lemma history_value_char:
  assumes v: "value_read q hist r v" and c: "is_header_value_char c" "v = [] \<longrightarrow> \<not> is_ows c"
    "length (r_line r) < HTTP_HEADER_LINE_MAX - 1"
  shows "value_read q (hist @ [c]) (r\<lparr>r_state := st, r_line := r_line r @ [c]\<rparr>) (v @ [c])"
proof -
  obtain h h0 where h: "read_as q h0 r" "int (length (q_headers q)) < HTTP_MAX_HEADERS"
    "valid_header h" "h_value h = v" "r_line r = h_name h @ v" "r_name_len r = length (h_name h)"
    "hist = h0 @ h_name h @ [CHR '':''] @ h_ows h @ v"
    using v by (auto simp: value_read_def)
  moreover have "read_as q h0 (r\<lparr>r_state := st, r_line := r_line r @ [c]\<rparr>)"
    by (rule read_as_cong [OF h(1)]) simp_all
  moreover have "valid_header (h\<lparr>h_value := v @ [c]\<rparr>)"
    using h c by (cases v) (auto simp: valid_header_def)
  ultimately show ?thesis unfolding value_read_def
    by (intro exI [of _ "h\<lparr>h_value := v @ [c]\<rparr>"] exI [of _ h0]) simp
qed

lemma history_value:
  assumes "value_read q hist r v" "v = [] \<longrightarrow> \<not> is_ows c"
  shows "history (hist @ [c]) (spec_value r c) (r_state (spec_value r c))"
proof -
  consider (cr) "c = CR"
    | (char) "c \<noteq> CR" "is_header_value_char c" "length (r_line r) < HTTP_HEADER_LINE_MAX - 1"
    | (bad) "spec_value r c = spec_fail r"
    by (metis spec_value_def)
  then show ?thesis
  proof cases
    case cr
    have "value_read q hist (r\<lparr>r_state := HTTP_STATE_HEADER_LF\<rparr>) v"
      by (rule value_read_cong [OF assms(1)]) simp_all
    with cr show ?thesis by (auto simp: spec_value_def)
  next
    case char
    with history_value_char [OF assms(1) char(2) assms(2) char(3)] show ?thesis
      by (auto simp: spec_value_def intro!: exI [of _ q] exI [of _ "v @ [c]"])
  qed (simp add: spec_fail_def)
qed

lemma history_header_done:
  assumes "value_read q h0 r v"
  shows "\<exists>q'. read_as q' (h0 @ CRLF) (spec_header_done r)"
proof -
  obtain h h1 where h: "read_as q h1 r" "int (length (q_headers q)) < HTTP_MAX_HEADERS"
    "valid_header h" "h_value h = v" "r_line r = h_name h @ v" "r_name_len r = length (h_name h)"
    "h0 = h1 @ h_name h @ [CHR '':''] @ h_ows h @ v"
    using assms by (auto simp: value_read_def)
  then have "read_as (q\<lparr>q_headers := q_headers q @ [h]\<rparr>) (h0 @ CRLF) (spec_header_done r)"
    by (simp add: read_as_def valid_request_def valid_line_def parsed_defs spec_header_done_def
        header_directive_def render_header_def render_line_def)
  then show ?thesis by blast
qed

lemma history_headers_end:
  assumes "read_as q h0 r"
  shows "history (h0 @ CRLF) (r\<lparr>r_state := HTTP_STATE_DONE\<rparr>) HTTP_STATE_DONE"
  using assms by (auto simp: read_as_def render_request_def parsed_defs)

lemma history_step:
  assumes "history hist r (r_state r)" "\<not> terminal (r_state r)"
  shows "history (hist @ [c]) (spec_byte r c) (r_state (spec_byte r c))"
proof (cases "r_state r")
  case HTTP_STATE_HEADER_VALUE_SP
  then obtain q where q: "value_read q hist r []" using assms by auto
  show ?thesis
  proof (cases "is_ows c")
    case True
    with history_value_ows [OF q] HTTP_STATE_HEADER_VALUE_SP show ?thesis
      by (auto simp: spec_byte_def)
  next
    case False
    with history_value [OF q] HTTP_STATE_HEADER_VALUE_SP show ?thesis by (simp add: spec_byte_def)
  qed
next
  case HTTP_STATE_HEADER_VALUE
  with assms obtain q v where "value_read q hist r v" "v \<noteq> []" by auto
  with history_value [of q hist r v c] HTTP_STATE_HEADER_VALUE show ?thesis
    by (simp add: spec_byte_def)
next
  case HTTP_STATE_HEADER_LF
  with assms obtain q h0 v where v: "value_read q h0 r v" "hist = h0 @ [CR]" by auto
  with history_header_done [OF v(1)] HTTP_STATE_HEADER_LF show ?thesis
    by (auto simp: spec_byte_def spec_fail_def spec_header_done_def)
next
  case HTTP_STATE_HEADERS_END_LF
  with assms obtain q h0 where "read_as q h0 r" "hist = h0 @ [CR]" by auto
  with history_headers_end HTTP_STATE_HEADERS_END_LF show ?thesis
    by (fastforce simp: spec_byte_def spec_fail_def)
qed (use assms in \<open>simp_all only: history_method history_path history_version history_request_line_lf
  history_header_line_start history_header_name terminal.simps simp_thms\<close>)

lemma history_run:
  "history hist r (r_state r) \<Longrightarrow> spec_run r cs = (r', n) \<Longrightarrow>
   history (hist @ take n cs) r' (r_state r')"
proof (induction r cs arbitrary: hist n rule: spec_run.induct)
  case (1 r)
  then show ?case by simp
next
  case (2 r c cs)
  show ?case
  proof (cases "terminal (r_state r)")
    case True
    with 2 show ?thesis by simp
  next
    case False
    then obtain m where m: "spec_run (spec_byte r c) cs = (r', m)" "n = m + 1"
      using "2.prems"(2) by (auto split: prod.splits)
    with "2.IH" [OF False history_step [OF "2.prems"(1) False] m(1)] show ?thesis by simp
  qed
qed

lemma spec_run_done:
  assumes "spec_run spec_init data = (r, n)" "r_state r = HTTP_STATE_DONE"
  shows "\<exists>q. valid_request q \<and> take n data = render_request q \<and> parsed_as q r"
  using history_run [of "[]" spec_init data r n] assms history_init by simp


section \<open>Framing is unambiguous\<close>

lemma span_unique:
  assumes "list_all P xs" "list_all P ys" "\<not> P a" "\<not> P b" "xs @ a # u = ys @ b # v"
  shows "xs = ys \<and> a = b \<and> u = v"
  using assms
proof (induction xs arbitrary: ys)
  case Nil
  then show ?case by (cases ys) auto
next
  case (Cons x xs)
  then show ?case by (cases ys) auto
qed

lemma render_line_inject:
  assumes "valid_line q" "valid_line q'" "render_line q @ CR # x = render_line q' @ CR # y"
  shows "q_method q = q_method q' \<and> q_path q = q_path q' \<and> q_version q = q_version q' \<and> x = y"
proof -
  have m: "q_method q = q_method q' \<and> SP = SP \<and> q_path q @ SP # q_version q @ CR # x =
      q_path q' @ SP # q_version q' @ CR # y"
    by (rule span_unique [of is_method_char])
       (use assms in \<open>simp_all add: valid_line_def render_line_def\<close>)
  have p: "q_path q = q_path q' \<and> SP = SP \<and> q_version q @ CR # x = q_version q' @ CR # y"
    by (rule span_unique [of is_path_char]) (use assms m in \<open>simp_all add: valid_line_def\<close>)
  have "q_version q = q_version q' \<and> CR = CR \<and> x = y"
    by (rule span_unique [of is_version_char])
       (use assms p in \<open>simp_all add: valid_line_def valid_version_chars\<close>)
  with m p show ?thesis by simp
qed

text \<open>
  A header value ends at the carriage return; what precedes it is white space and value.
\<close>

lemma ows_value_split:
  "list_all is_ows os \<Longrightarrow> v = [] \<or> \<not> is_ows (hd v) \<Longrightarrow>
   takeWhile is_ows (os @ v) = os \<and> dropWhile is_ows (os @ v) = v"
  by (cases v) (simp_all add: takeWhile_all dropWhile_all list_all_iff)

lemma ows_value_inject:
  assumes "list_all is_ows o1" "list_all is_ows o2" "v1 = [] \<or> \<not> is_ows (hd v1)"
    "v2 = [] \<or> \<not> is_ows (hd v2)" "o1 @ v1 = o2 @ v2"
  shows "o1 = o2 \<and> v1 = v2"
  using ows_value_split [OF assms(1,3)] ows_value_split [OF assms(2,4)] assms(5) by metis

lemma ows_value_chars: "list_all is_ows os \<Longrightarrow> list_all is_header_value_char os"
  by (induction os) (auto simp: is_ows_def is_header_value_char_def)

lemma render_header_inject:
  assumes "valid_header h" "valid_header h'" "render_header h @ x = render_header h' @ y"
  shows "h = (h' :: header_field) \<and> x = y"
proof -
  have n: "h_name h = h_name h' \<and> CHR '':'' = CHR '':'' \<and>
      h_ows h @ h_value h @ CR # LF # x = h_ows h' @ h_value h' @ CR # LF # y"
    by (rule span_unique [of is_header_name_char])
       (use assms in \<open>simp_all add: valid_header_def render_header_def\<close>)
  have v: "h_ows h @ h_value h = h_ows h' @ h_value h' \<and> CR = CR \<and> LF # x = LF # y"
    by (rule span_unique [of is_header_value_char])
       (use assms n in \<open>simp_all add: valid_header_def ows_value_chars\<close>)
  have "h_ows h = h_ows h' \<and> h_value h = h_value h'"
    by (rule ows_value_inject) (use assms v in \<open>simp_all add: valid_header_def\<close>)
  with n v show ?thesis by simp
qed

lemma render_header_not_CR: "valid_header h \<Longrightarrow> render_header h @ x \<noteq> CR # y"
  by (cases "h_name h") (auto simp: valid_header_def render_header_def)

lemma render_headers_inject:
  "list_all valid_header hs \<Longrightarrow> list_all valid_header hs' \<Longrightarrow>
   concat (map render_header hs) @ CR # x = concat (map render_header hs') @ CR # y \<Longrightarrow>
   hs = hs' \<and> x = y"
proof (induction hs arbitrary: hs')
  case Nil
  then show ?case by (cases hs') (auto dest!: render_header_not_CR simp: eq_commute [of "CR # _"])
next
  case (Cons h hs)
  show ?case
  proof (cases hs')
    case Nil
    with Cons.prems render_header_not_CR [of h] show ?thesis by auto
  next
    case (Cons h' hs'')
    have h: "h = h' \<and> concat (map render_header hs) @ CR # x = concat (map render_header hs'') @ CR # y"
      by (rule render_header_inject) (use Cons.prems Cons in simp_all)
    have "hs = hs'' \<and> x = y"
      by (rule Cons.IH) (use Cons.prems Cons h in simp_all)
    with h Cons show ?thesis by simp
  qed
qed

lemma render_request_inject:
  assumes "valid_request q" "valid_request q'" "render_request q @ x = render_request q' @ y"
  shows "q = q' \<and> x = y"
proof -
  have l: "q_method q = q_method q' \<and> q_path q = q_path q' \<and> q_version q = q_version q' \<and>
    LF # concat (map render_header (q_headers q)) @ CR # LF # x =
    LF # concat (map render_header (q_headers q')) @ CR # LF # y"
    by (rule render_line_inject)
       (use assms in \<open>simp_all add: valid_request_def render_request_def\<close>)
  have "q_headers q = q_headers q' \<and> LF # x = LF # y"
    by (rule render_headers_inject) (use assms l in \<open>simp_all add: valid_request_def\<close>)
  with l show ?thesis by simp
qed


section \<open>Properties of the C parser\<close>

lemma live_init [simp]: "live_parser http_parser_init"
  by (simp add: live_parser_def http_parser_init_def)

lemma execute_init_iff:
  "http_parser_execute http_parser_init data = Some (p, HTTP_PARSE_COMPLETE, n) \<Longrightarrow>
   spec_run spec_init data = (abs_parser p, n) \<and> p_state p = HTTP_STATE_DONE"
  using http_parser_execute_wf [OF wf_parser_init, of data p HTTP_PARSE_COMPLETE n]
  by (simp flip: result_of_complete)

lemma execute_request:
  assumes "valid_request q"
  shows "\<exists>p. http_parser_execute http_parser_init (render_request q @ rest) =
      Some (p, HTTP_PARSE_COMPLETE, length (render_request q)) \<and> parsed_as q (abs_parser p)"
proof -
  obtain r where r: "spec_run spec_init (render_request q @ rest) = (r, length (render_request q))"
    "r_state r = HTTP_STATE_DONE" "parsed_as q r"
    using spec_run_request [OF assms] by blast
  obtain p res n where p: "http_parser_execute http_parser_init (render_request q @ rest) = Some (p, res, n)"
    "spec_run spec_init (render_request q @ rest) = (abs_parser p, n)" "res = result_of (p_state p)"
    by (rule http_parser_execute_Some [OF wf_parser_init]) auto
  with r have "abs_parser p = r" by simp
  moreover from this r have "p_state p = HTTP_STATE_DONE" by auto
  ultimately show ?thesis using p r by auto
qed

lemma execute_complete:
  assumes "http_parser_execute http_parser_init data = Some (p, HTTP_PARSE_COMPLETE, n)"
  shows "\<exists>q. valid_request q \<and> take n data = render_request q \<and> parsed_as q (abs_parser p)"
  using execute_init_iff [OF assms] spec_run_done [of data "abs_parser p" n] by auto

text \<open>
  C3. Memory safety and totality of the parser. Whatever octets a client sends, and however
  the network cuts them into chunks, feeding them to a freshly initialised parser never
  reads or writes outside one of its fixed arrays (the model returns a result), leaves the
  parser well-formed (every text field NUL-terminated inside its array, at most 64
  headers), and never consumes more than it was given.
\<close>

theorem parser_memory_safe:
  "\<exists>p r n. feed_chunks http_parser_execute HTTP_PARSE_INCOMPLETE http_parser_init chunks = Some (p, r, n) \<and>
     wf_parser p \<and> n \<le> length (concat chunks)"
  using hp.exec_total [OF wf_parser_init, of "concat chunks"]
  by (simp add: hp.chunking_irrelevant)

text \<open>
  C7. The result does not depend on how the input was split across reads, as the comment
  of \<^verbatim>\<open>http_parser_execute\<close> demands: two chunkings of the same octets give the
  same parser (all fields and arrays), the same verdict and the same number of consumed
  octets.
\<close>

theorem parser_chunking_irrelevant:
  assumes "concat xss = concat yss"
  shows "feed_chunks http_parser_execute HTTP_PARSE_INCOMPLETE http_parser_init xss =
    feed_chunks http_parser_execute HTTP_PARSE_INCOMPLETE http_parser_init yss"
  using assms by (intro hp.chunking_equal) simp_all

theorem parser_chunking_irrelevant_witness:
  "concat [''GET / HT'', ''TP/1.1''] = concat [''G'', ''ET'', '' / HTTP/1.1''] \<and>
   feed_chunks http_parser_execute HTTP_PARSE_INCOMPLETE http_parser_init [''GET / HT'', ''TP/1.1''] =
   feed_chunks http_parser_execute HTTP_PARSE_INCOMPLETE http_parser_init [''G'', ''ET'', '' / HTTP/1.1'']"
proof -
  have h: "concat [''GET / HT'', ''TP/1.1''] = concat [''G'', ''ET'', '' / HTTP/1.1'']" by simp
  show ?thesis using h parser_chunking_irrelevant [OF h] by blast
qed

text \<open>
  C8. Refinement: on a well-formed parser the C code (arrays, lengths, NUL terminators, the
  byte that is looked at twice) computes exactly what the string machine \<open>spec_execute\<close>
  computes on the abstracted state: same fields, same verdict, same count.
\<close>

theorem parser_refines_spec:
  assumes "wf_parser p"
  shows "\<exists>p' r n. http_parser_execute p data = Some (p', r, n) \<and> wf_parser p' \<and>
    spec_execute (abs_parser p) data = (abs_parser p', r, n)"
  using http_parser_execute_refines [OF assms, of data]
  by (auto simp: refines_def split: option.splits prod.splits)

theorem parser_refines_spec_witness:
  "wf_parser http_parser_init \<and>
   (\<exists>p' r n. http_parser_execute http_parser_init ''GET /'' = Some (p', r, n) \<and> wf_parser p' \<and>
      spec_execute (abs_parser http_parser_init) ''GET /'' = (abs_parser p', r, n))"
  using wf_parser_init parser_refines_spec [OF wf_parser_init, of "''GET /''"] by blast

definition example_request :: http_request where
  "example_request = \<lparr>q_method = ''GET'', q_path = ''/hello'', q_version = ''HTTP/1.1'',
     q_headers = [\<lparr>h_name = ''Host'', h_ows = '' '', h_value = ''a''\<rparr>,
                  \<lparr>h_name = ''connection'', h_ows = [], h_value = ''foo, Close''\<rparr>]\<rparr>"

lemma example_request_valid: "valid_request example_request"
  by (simp add: example_request_def valid_request_def valid_line_def valid_header_def
      valid_version_def is_method_char_def is_path_char_def is_header_name_char_def is_ows_def
      is_header_value_char_def is_digit_def)

text \<open>
  C5. Round trip: the octets of every valid request, followed by anything, are accepted; the
  parser stops exactly behind the blank line and reports the method and its id, the path,
  the version and its numbers, the number of headers and the connection directive of that
  request.
\<close>

theorem parse_render_roundtrip:
  assumes "valid_request q"
  shows "\<exists>p. http_parser_execute http_parser_init (render_request q @ rest) =
      Some (p, HTTP_PARSE_COMPLETE, length (render_request q)) \<and> parsed_as q (abs_parser p)"
  using execute_request [OF assms] .

theorem parse_render_roundtrip_witness:
  "valid_request example_request \<and>
   (\<exists>p. http_parser_execute http_parser_init (render_request example_request @ ''GET /next'') =
      Some (p, HTTP_PARSE_COMPLETE, length (render_request example_request)) \<and>
      parsed_as example_request (abs_parser p))"
  using example_request_valid parse_render_roundtrip [OF example_request_valid, of "''GET /next''"]
  by blast

text \<open>
  C4. Soundness of acceptance: whenever the parser reports a complete request, the octets it
  consumed are exactly the rendering of a request that satisfies the grammar and every
  size limit (strict CRLF line ends, no folded headers, no white space before a colon), and
  the reported fields are those of that request.
\<close>

theorem parser_accepts_only_valid:
  assumes "http_parser_execute http_parser_init data = Some (p, HTTP_PARSE_COMPLETE, n)"
  shows "\<exists>q. valid_request q \<and> take n data = render_request q \<and> parsed_as q (abs_parser p)"
  using execute_complete [OF assms] .

theorem parser_accepts_only_valid_witness:
  "\<exists>p q. http_parser_execute http_parser_init (render_request example_request) =
      Some (p, HTTP_PARSE_COMPLETE, length (render_request example_request)) \<and>
    valid_request q \<and> take (length (render_request example_request)) (render_request example_request) =
      render_request q \<and> parsed_as q (abs_parser p)"
proof -
  obtain p where p: "http_parser_execute http_parser_init (render_request example_request) =
      Some (p, HTTP_PARSE_COMPLETE, length (render_request example_request))"
    using execute_request [OF example_request_valid, of "[]"] by auto
  show ?thesis using p parser_accepts_only_valid [OF p] by blast
qed

text \<open>
  C6. Framing is unambiguous (no request smuggling): when the parser reports a complete
  request, exactly one valid request can start the octet stream at all, field for field,
  and the parser's end of the request is the end of that one. No other reader of the
  grammar can find a different boundary.
\<close>

theorem request_framing_unambiguous:
  assumes "http_parser_execute http_parser_init data = Some (p, HTTP_PARSE_COMPLETE, n)"
  shows "\<exists>q. valid_request q \<and> n = length (render_request q) \<and> data = render_request q @ drop n data \<and>
    (\<forall>q' rest. valid_request q' \<and> data = render_request q' @ rest \<longrightarrow> q' = q)"
proof -
  obtain q where q: "valid_request q" "take n data = render_request q"
    using execute_complete [OF assms] by blast
  then have d: "data = render_request q @ drop n data" by (metis append_take_drop_id)
  moreover have "n = length (render_request q)"
    using execute_request [OF q(1), of "drop n data"] assms by (auto simp flip: d)
  moreover have "\<forall>q' rest. valid_request q' \<and> data = render_request q' @ rest \<longrightarrow> q' = q"
    using q(1) d by (metis render_request_inject)
  ultimately show ?thesis using q(1) by blast
qed

theorem request_framing_unambiguous_witness:
  "\<exists>p n. http_parser_execute http_parser_init (render_request example_request @ ''GET'') =
      Some (p, HTTP_PARSE_COMPLETE, n) \<and>
    (\<exists>q. valid_request q \<and> n = length (render_request q) \<and>
       (\<forall>q' rest. valid_request q' \<and> render_request example_request @ ''GET'' = render_request q' @ rest \<longrightarrow>
          q' = q))"
proof -
  obtain p n where p: "http_parser_execute http_parser_init (render_request example_request @ ''GET'') =
      Some (p, HTTP_PARSE_COMPLETE, n)"
    using execute_request [OF example_request_valid, of "''GET''"] by auto
  show ?thesis
    using p request_framing_unambiguous [OF p] by blast
qed

text \<open>
  C9. The keep-alive decision for a parsed request: an explicit \<open>close\<close> or
  \<open>keep-alive\<close> (the last recognised token over all Connection headers, compared without
  case) wins over the version; without one, of the versions up to HTTP/1.x exactly those
  from HTTP/1.1 on persist. Later major versions without a directive are left out: there
  the code and its comment disagree (\<open>keep_alive_not_for_later_major\<close> below).
\<close>

theorem keep_alive_decision:
  assumes "valid_request q"
    "http_parser_execute http_parser_init (render_request q) = Some (p, HTTP_PARSE_COMPLETE, n)"
    "request_directive (q_headers q) \<noteq> HTTP_CONN_UNSPECIFIED \<or> digit_val (q_version q ! 5) \<le> 1"
  shows "http_parser_should_keep_alive p =
    (case request_directive (q_headers q) of
       HTTP_CONN_CLOSE \<Rightarrow> False
     | HTTP_CONN_KEEPALIVE \<Rightarrow> True
     | HTTP_CONN_UNSPECIFIED \<Rightarrow>
         digit_val (q_version q ! 5) = 1 \<and> digit_val (q_version q ! 7) \<ge> 1)"
proof -
  from execute_request [OF assms(1), of "[]"] assms(2) have "parsed_as q (abs_parser p)" by auto
  with assms(3) show ?thesis
    by (auto simp: parsed_as_def line_parsed_def http_parser_should_keep_alive_def
        split: http_connection_directive.splits)
qed

theorem keep_alive_decision_witness:
  "\<exists>p n. valid_request example_request \<and>
    http_parser_execute http_parser_init (render_request example_request) =
      Some (p, HTTP_PARSE_COMPLETE, n) \<and>
    http_parser_should_keep_alive p =
    (case request_directive (q_headers example_request) of
       HTTP_CONN_CLOSE \<Rightarrow> False
     | HTTP_CONN_KEEPALIVE \<Rightarrow> True
     | HTTP_CONN_UNSPECIFIED \<Rightarrow>
         digit_val (q_version example_request ! 5) = 1 \<and> digit_val (q_version example_request ! 7) \<ge> 1)"
proof -
  obtain p n where p: "http_parser_execute http_parser_init (render_request example_request) =
      Some (p, HTTP_PARSE_COMPLETE, n)"
    using execute_request [OF example_request_valid, of "[]"] by auto
  have "digit_val (q_version example_request ! 5) \<le> 1" by (simp add: example_request_def digit_val_def)
  then show ?thesis using p example_request_valid keep_alive_decision [OF example_request_valid p] by blast
qed

text \<open>
  The terminal results are sticky: once a call has reported a complete or a malformed
  request, a further call with any input reports the same result, consumes nothing and
  changes nothing.
\<close>

lemma parser_terminal_sticky:
  assumes "wf_parser p" "http_parser_execute p data = Some (p', r, n)" "r \<noteq> HTTP_PARSE_INCOMPLETE"
  shows "http_parser_execute p' next_data = Some (p', r, 0)"
proof -
  have "r = result_of (p_state p')" using http_parser_execute_wf [OF assms(1,2)] by simp
  with assms(3) show ?thesis
    by (cases "p_state p'") (simp_all add: http_parser_execute_def)
qed


definition http2_request :: http_request where
  "http2_request = \<lparr>q_method = ''GET'', q_path = ''/'', q_version = ''HTTP/2.0'', q_headers = []\<rparr>"

text \<open>
  The comment of \<^verbatim>\<open>http_parser_should_keep_alive\<close> says that HTTP/1.1 and
  later default to a persistent connection. The code does so for major version 1 only, so a
  well-formed HTTP/2.0 request without a Connection header is answered and closed.
\<close>

lemma keep_alive_not_for_later_major:
  "\<exists>p. http_parser_execute http_parser_init (render_request http2_request) =
      Some (p, HTTP_PARSE_COMPLETE, length (render_request http2_request)) \<and>
    p_http_major p = 2 \<and> p_connection_directive p = HTTP_CONN_UNSPECIFIED \<and>
    \<not> http_parser_should_keep_alive p"
proof -
  have v: "valid_request http2_request"
    by (simp add: http2_request_def valid_request_def valid_line_def valid_version_def
        is_method_char_def is_path_char_def is_digit_def)
  then obtain p where p: "http_parser_execute http_parser_init (render_request http2_request) =
      Some (p, HTTP_PARSE_COMPLETE, length (render_request http2_request))"
    "parsed_as http2_request (abs_parser p)"
    using execute_request [OF v, of "[]"] by auto
  then have "p_http_major p = 2" "p_connection_directive p = HTTP_CONN_UNSPECIFIED"
    by (simp_all add: parsed_as_def line_parsed_def http2_request_def digit_val_def)
  with p show ?thesis by (auto simp: http_parser_should_keep_alive_def)
qed

end
