(* ===== verification/Dialogue.thy ===== *)
theory Dialogue
  imports Loop_Safety
begin

text \<open>
  What a connection says. The relation \<open>replies\<close> gives the octets a client may receive for
  the octets it has sent: one response after the other, in the order of the requests, up to
  the first that closes the connection. The predicate \<open>dialogue\<close> ties a connection to it; it is
  kept by the handlers of the connection, whatever the kernel answers and however reads and
  writes are cut.
\<close>

section \<open>The specification\<close>

text \<open>
  A response to a parsed request, under the view of the file system that its look-up was
  shown: the head, and the file up to the announced size.
\<close>

type_synonym view = "fs_view \<times> string"

definition response_octets :: "routed_response \<Rightarrow> string \<Rightarrow> bool \<Rightarrow> int \<Rightarrow> string option" where
  "response_octets r content keep w =
     map_option (\<lambda>h. h @ (if 0 \<le> f_fd (resp_file r) then take (nat (f_size (resp_file r))) content else []))
       (head_text r keep w)"

text \<open>The file is as long as the head says.\<close>

definition whole :: "routed_response \<Rightarrow> string \<Rightarrow> bool" where
  "whole r content \<longleftrightarrow> (0 \<le> f_fd (resp_file r) \<longrightarrow> f_size (resp_file r) \<le> int (length content))"

definition bad_request :: routed_response where
  "bad_request = simple_response 400 ''Bad Request'' ''Bad Request'' None"

text \<open>
  \<open>views\<close> are the look-ups the answer is taken from: none for a malformed request, and exactly
  one otherwise, whose file system decides the route and whose content is sent. The
  descriptor table \<open>fds\<close> only receives the descriptor of the file.
\<close>

definition answers ::
  "static_root \<Rightarrow> int \<Rightarrow> view list \<Rightarrow> http_request_parser \<Rightarrow> http_parse_result \<Rightarrow> string \<Rightarrow> bool \<Rightarrow> bool \<Rightarrow> bool" where
  "answers g w views parser result out keep full \<longleftrightarrow>
     (\<exists>r content.
        (if result = HTTP_PARSE_ERROR then views = [] \<and> r = bad_request \<and> \<not> keep
         else keep = http_parser_should_keep_alive parser \<and>
           (\<exists>fs fds. views = [(fs, content)] \<and>
              route_request g fs fds parser = Some (r, fds \<union> file_fds (resp_file r)))) \<and>
        wf_response r \<and> response_octets r content keep w = Some out \<and> full = whole r content)"

text \<open>
  \<open>replies g w views input out rest closing full\<close>: the octets \<open>out\<close> answer the requests at the
  beginning of the input, from the look-ups \<open>views\<close>; \<open>rest\<close> is the input behind them, \<open>closing\<close>
  says that the last answer closes, and \<open>full\<close> that it has all the octets it announces; the
  answers before the last one have them always.
\<close>

inductive replies :: "static_root \<Rightarrow> int \<Rightarrow> view list \<Rightarrow> string \<Rightarrow> string \<Rightarrow> string \<Rightarrow> bool \<Rightarrow> bool \<Rightarrow> bool" for g w where
  nothing: "replies g w [] input [] input False True"
| answered: "replies g w (v @ views) input (out @ outs) rest closing full"
    if "http_parser_execute http_parser_init input = Some (parser, result, n)" "result \<noteq> HTTP_PARSE_INCOMPLETE"
       "answers g w v parser result out True True" "replies g w views (drop n input) outs rest closing full"
| last: "replies g w v input out (drop n input) (\<not> keep) full"
    if "http_parser_execute http_parser_init input = Some (parser, result, n)" "result \<noteq> HTTP_PARSE_INCOMPLETE"
       "answers g w v parser result out keep full"

lemma execute_init_stop:
  assumes "http_parser_execute http_parser_init xs = Some (q, r, n)" "r \<noteq> HTTP_PARSE_INCOMPLETE"
  shows "http_parser_execute http_parser_init (xs @ ys) = Some (q, r, n)" "drop n (xs @ ys) = drop n xs @ ys"
proof -
  show "http_parser_execute http_parser_init (xs @ ys) = Some (q, r, n)"
    using hp.exec_stop [OF wf_parser_init assms] .
  have "n \<le> length xs" using hp.exec_total [OF wf_parser_init, of xs] assms(1) by auto
  then show "drop n (xs @ ys) = drop n xs @ ys" by simp
qed

lemma replies_more_input:
  "replies g w views input out rest closing full \<Longrightarrow> replies g w views (input @ extra) out (rest @ extra) closing full"
proof (induction rule: replies.induct)
  case (nothing input)
  show ?case by (rule replies.nothing)
next
  case (answered input parser result n v out views outs rest closing full)
  note e = execute_init_stop [OF answered.hyps(1,2), of extra]
  show ?case by (rule replies.answered [OF e(1) answered.hyps(2,3)]) (use answered.IH e(2) in simp)
next
  case (last input parser result n v out keep full)
  note e = execute_init_stop [OF last.hyps(1,2), of extra]
  show ?case unfolding e(2) [symmetric] by (rule replies.last [OF e(1) last.hyps(2,3)])
qed

lemma replies_trans:
  "replies g w views input out mid closing full \<Longrightarrow> \<not> closing \<Longrightarrow> full \<Longrightarrow>
   replies g w views' mid out' rest closing' full' \<Longrightarrow> replies g w (views @ views') input (out @ out') rest closing' full'"
proof (induction rule: replies.induct)
  case (answered input parser result n v out views outs rest closing full)
  from replies.answered [OF answered.hyps(1-3) answered.IH [OF answered.prems]] show ?case by simp
next
  case (last input parser result n v out keep full)
  with replies.answered [OF last.hyps(1,2)] show ?case by simp
qed simp

section \<open>The dialogue of a connection\<close>

definition stash_of :: "connection \<Rightarrow> string" where
  "stash_of c = array_str (c_pending_input c) (c_pending_input_len c)"

text \<open>
  How many octets a connection has still to send, and whether the file has them: if it has not, the
  response will fail.
\<close>

definition to_send :: "connection \<Rightarrow> int" where
  "to_send c = int (c_write_len c) - int (c_write_sent c) + (if c_file_fd c < 0 then 0 else c_file_size c - c_file_offset c)"

definition backed :: "connection \<Rightarrow> kernel \<Rightarrow> bool" where
  "backed c k \<longleftrightarrow> to_send c = int (length (response_pending (c, k)))"

text \<open>
  After the octets \<open>input\<close>: a connection that waits to write still owes the pending octets and has
  put the rest of the input aside; otherwise it owes nothing and its parser has seen the rest.
\<close>

definition dialogue :: "static_root \<Rightarrow> int \<Rightarrow> view list \<Rightarrow> string \<Rightarrow> connection \<Rightarrow> kernel \<Rightarrow> bool" where
  "dialogue g w views input c k \<longleftrightarrow>
     (if c_awaiting_writable c
      then replies g w views input (conn_wire (c, k) @ response_pending (c, k)) (stash_of c) (\<not> c_keep_alive_after_write c)
             (backed c k)
      else (\<exists>rest. replies g w views input (conn_wire (c, k)) rest False True \<and>
              http_parser_execute http_parser_init rest = Some (c_parser c, HTTP_PARSE_INCOMPLETE, length rest)))"

text \<open>What is on the wire of a connection that was closed: a beginning of what it had to say.\<close>

definition said :: "static_root \<Rightarrow> int \<Rightarrow> view list \<Rightarrow> string \<Rightarrow> string \<Rightarrow> bool" where
  "said g w views input sent \<longleftrightarrow> (\<exists>extra rest closing full. replies g w views input (sent @ extra) rest closing full)"

lemma saidI: "replies g w views input (sent @ extra) rest closing full \<Longrightarrow> said g w views input sent"
  unfolding said_def by blast

lemma dialogue_said: "dialogue g w views input c k \<Longrightarrow> said g w views input (conn_wire (c, k))"
  unfolding dialogue_def said_def by (metis append_Nil2)

lemma said_more_input: "said g w views input sent \<Longrightarrow> said g w views (input @ extra) sent"
  unfolding said_def by (metis replies_more_input)

text \<open>
  What a handler of connection \<open>p\<close>, with descriptor \<open>fd\<close>, leaves behind. \<open>seen\<close> is the log of
  look-ups when it started, \<open>views\<close> the look-ups made for this connection up to then; those the
  handler made are for this connection.
\<close>

definition spoken :: "static_root \<Rightarrow> int \<Rightarrow> nat \<Rightarrow> int \<Rightarrow> view list \<Rightarrow> view list \<Rightarrow> string \<Rightarrow> server \<Rightarrow> bool" where
  "spoken g w p fd seen views input s \<longleftrightarrow>
     (\<exists>new. k_seen (s_kernel s) = seen @ new \<and>
        (case s_heap s p of
           Some c \<Rightarrow> c_fd c = fd \<and> dialogue g w (views @ new) input c (s_kernel s)
         | None \<Rightarrow> said g w (views @ new) input (k_wire (s_kernel s) fd)))"

lemma spoken_same:
  "k_seen (s_kernel s) = seen \<Longrightarrow>
   spoken g w p fd seen views input s =
     (case s_heap s p of
        Some c \<Rightarrow> c_fd c = fd \<and> dialogue g w views input c (s_kernel s)
      | None \<Rightarrow> said g w views input (k_wire (s_kernel s) fd))"
  by (simp add: spoken_def cong: option.case_cong)

lemma spoken_shift: "spoken g w p fd (seen @ v) (views @ v) input s \<Longrightarrow> spoken g w p fd seen views input s"
  unfolding spoken_def append_assoc by blast

lemma parsed_init: "http_parser_execute http_parser_init [] = Some (http_parser_init, HTTP_PARSE_INCOMPLETE, 0)"
  by (rule hp.exec_live [OF wf_parser_init]) (simp add: live_parser_def http_parser_init_def)

section \<open>Closing, finishing, sending\<close>

text \<open>The parts of the kernel that a dialogue depends on.\<close>

definition same_talk :: "kernel \<Rightarrow> kernel \<Rightarrow> bool" where
  "same_talk k k' \<longleftrightarrow> k_wire k' = k_wire k \<and> k_content k' = k_content k \<and> k_reads k' = k_reads k \<and>
     k_seen k' = k_seen k"

lemma same_talk_frames:
  "same_talk k k" "same_talk k (close_fds fds k)" "same_talk k (sys_close fd k)"
  "sys_time k = (t, k') \<Longrightarrow> same_talk k k'" "sys_epoll_ctl k = (ok, k') \<Longrightarrow> same_talk k k'"
  by (auto simp: same_talk_def close_fds_def sys_close_def sys_time_def sys_epoll_ctl_def split: list.splits)

lemma same_talk_trans: "same_talk k k1 \<Longrightarrow> same_talk k1 k2 \<Longrightarrow> same_talk k k2"
  by (simp add: same_talk_def)

lemma same_talk_release: "release_file_body c k = (c', k') \<Longrightarrow> same_talk k k'"
  by (auto simp: release_file_body_def same_talk_frames split: if_splits)

lemma upd_conn_kernel: "upd_conn p f s = Some s' \<Longrightarrow> s_kernel s' = s_kernel s"
  by (auto simp: upd_conn_def split: option.splits)

lemma list_remove_kernel:
  assumes "list_remove p s = Some s'"
  shows "s_kernel s' = s_kernel s"
proof -
  obtain c c1 :: connection and s1 where "(case c_prev c of Some q \<Rightarrow> upd_conn q (\<lambda>d. d\<lparr>c_next := c_next c\<rparr>) s
      | None \<Rightarrow> Some (s\<lparr>s_connections := c_next c\<rparr>)) = Some s1"
    "(case c_next c1 of Some q \<Rightarrow> upd_conn q (\<lambda>d. d\<lparr>c_prev := c_prev c1\<rparr>) s1 | None \<Rightarrow> Some s1) = Some s'"
    using assms unfolding list_remove_def bind_eq_Some_conv by (elim exE conjE) (rule that)
  then show ?thesis by (cases "c_prev c"; cases "c_next c1") (auto dest!: upd_conn_kernel)
qed

lemma close_connection_talk:
  assumes "close_connection p s = Some s'"
  shows "s_heap s' p = None \<and> same_talk (s_kernel s) (s_kernel s')"
proof -
  obtain s1 c c' k where s1: "list_remove p s = Some s1" "s_heap s1 p = Some c" "release_file_body c (s_kernel s1) = (c', k)"
    "s' = s1\<lparr>s_heap := (s_heap s1)(p := None), s_kernel := sys_close (c_fd c') k\<rparr>"
    using assms by (auto simp: close_connection_def bind_eq_Some_conv Let_def case_prod_beta prod_eq_iff)
  then show ?thesis
    using list_remove_kernel [OF s1(1)] same_talk_release [OF s1(3)] same_talk_frames(3) [of k "c_fd c'"]
    by (auto intro: same_talk_trans)
qed

definition rested :: "connection \<Rightarrow> connection \<Rightarrow> bool" where
  "rested c c' \<longleftrightarrow> c_keep_alive_after_write c \<and> c_fd c' = c_fd c \<and> c_parser c' = http_parser_init \<and>
     \<not> c_awaiting_writable c' \<and> stash_of c' = stash_of c"

lemma finish_talk:
  assumes "finish_after_response_sent p s = Some (alive, s')" "s_heap s p = Some c" "wf_conn c"
  shows "same_talk (s_kernel s) (s_kernel s') \<and>
    (if alive then \<exists>c'. s_heap s' p = Some c' \<and> rested c c' else s_heap s' p = None)"
proof -
  let ?k1 = "close_fds (owned c - {c_fd c}) (s_kernel s)"
  obtain t k2 where t: "sys_time ?k1 = (t, k2)" by fastforce
  obtain ok k3 where ok: "sys_epoll_ctl k2 = (ok, k3)" by fastforce
  have k: "same_talk (s_kernel s) ?k1" "same_talk (s_kernel s) k2" "same_talk (s_kernel s) k3"
    using same_talk_frames(2) same_talk_frames(4) [OF t] same_talk_frames(5) [OF ok] by (meson same_talk_trans)+
  show ?thesis using assms(1) k unfolding finish_eq [OF assms(2,3) t ok]
    by (auto simp: rested_def restarted_def stash_of_def bind_eq_Some_conv
        split: if_splits dest!: close_connection_talk intro: same_talk_trans)
qed

text \<open>The octets a connection has sent and still owes.\<close>

definition owed :: "connection \<Rightarrow> kernel \<Rightarrow> string" where
  "owed c k = conn_wire (c, k) @ response_pending (c, k)"

lemma owed_talk:
  "same_talk k k' \<Longrightarrow> owed (c\<lparr>c_awaiting_writable := b\<rparr>) k' = owed c k \<and> backed (c\<lparr>c_awaiting_writable := b\<rparr>) k' = backed c k"
  by (simp add: owed_def backed_def to_send_def conn_wire_def response_pending_def head_pending_def body_pending_def same_talk_def)

lemma backed_sends:
  assumes "conn_sendable (c, k)" "conn_sendable (c1, k1)" "sends_only conn_rest c k c1 k1"
    "response_pending (c, k) = sent @ response_pending (c1, k1)" "sent_count c1 = sent_count c + int (length sent)"
  shows "backed c1 k1 = backed c k" "response_done c1 \<Longrightarrow> backed c1 k1"
proof -
  note D = sends_onlyD [OF assms(3)]
  show "backed c1 k1 = backed c k"
  proof (cases "c_file_fd c < 0")
    case True
    with assms(1,2) show ?thesis
      by (simp add: backed_def to_send_def D response_pending_def head_pending_def conn_sendable_def)
  next
    case False
    with assms(4,5) show ?thesis by (auto simp: backed_def to_send_def D sent_count_def)
  qed
  show "backed c1 k1" if "response_done c1"
    using that done_pending(3) [OF that] by (auto simp: backed_def to_send_def response_done_def head_done_def body_done_def)
qed

lemma flush_talk:
  assumes "try_flush_response c k = Some (res, c1, k1)" "wf_conn c"
  shows "owed c1 k1 = owed c k \<and> c_fd c1 = c_fd c \<and> wf_conn c1 \<and> k_reads k1 = k_reads k \<and>
    k_seen k1 = k_seen k \<and> stash_of c1 = stash_of c \<and>
    c_keep_alive_after_write c1 = c_keep_alive_after_write c \<and> c_awaiting_writable c1 = c_awaiting_writable c \<and>
    backed c1 k1 = backed c k \<and> (res = Flushed \<longrightarrow> conn_wire (c1, k1) = owed c k \<and> backed c k)"
proof -
  have ok: "conn_sendable (c, k)" using assms(2) by (simp add: conn_sendable_def wf_conn_def)
  obtain sent where s: "sends_only conn_rest c k c1 k1" "conn_sendable (c1, k1)"
    "response_pending (c, k) = sent @ response_pending (c1, k1)" "conn_wire (c1, k1) = conn_wire (c, k) @ sent"
    "res = Flushed \<longrightarrow> response_done c1" "sent_count c1 = sent_count c + int (length sent)"
    using try_flush_response_sends [OF ok] assms(1) unfolding sends_def by auto
  note D = sends_onlyD [OF s(1)] and backed = backed_sends [OF ok s(2,1,3,6)]
  have "wf_conn c1" using assms(2) s(2) unfolding wf_conn_def conn_sendable_def by (simp add: D)
  moreover have "k_reads k1 = k_reads k" "k_seen k1 = k_seen k"
    using s(1) unfolding sends_only_def by (metis kernel_rest_sel(1), metis kernel_rest_sel(8))
  moreover have "res = Flushed \<longrightarrow> conn_wire (c1, k1) = owed c k \<and> backed c k"
    using s(3-5) done_pending(3) backed by (auto simp: owed_def)
  ultimately show ?thesis using s(3,4) backed(1) by (simp add: owed_def stash_of_def D)
qed

text \<open>A response that was sent to its end, and what finishing makes of the connection.\<close>

lemma finished_talk:
  assumes "try_flush_response c (s_kernel s) = Some (Flushed, c1, k1)" "wf_conn c"
    "finish_after_response_sent p (put_conn p c1 k1 s) = Some (alive, s')"
  shows "same_talk k1 (s_kernel s')" "k_wire (s_kernel s') (c_fd c) = owed c (s_kernel s)"
    "k_reads (s_kernel s') = k_reads (s_kernel s) \<and> k_seen (s_kernel s') = k_seen (s_kernel s)"
    "if alive then \<exists>c'. s_heap s' p = Some c' \<and> rested c c' else s_heap s' p = None"
    "backed c (s_kernel s)"
proof -
  note t = flush_talk [OF assms(1,2)]
  have flushed: "conn_wire (c1, k1) = owed c (s_kernel s)" "c_fd c1 = c_fd c" "k_reads k1 = k_reads (s_kernel s)" "wf_conn c1"
    "k_seen k1 = k_seen (s_kernel s)"
    using t by blast+
  show "backed c (s_kernel s)" using t by blast
  from finish_talk [OF assms(3), of c1] flushed(4) show e: "same_talk k1 (s_kernel s')" by simp
  with flushed show "k_wire (s_kernel s') (c_fd c) = owed c (s_kernel s)"
    "k_reads (s_kernel s') = k_reads (s_kernel s) \<and> k_seen (s_kernel s') = k_seen (s_kernel s)"
    by (simp_all add: conn_wire_def same_talk_def)
  have "rested c1 = rested c" using t by (simp add: rested_def fun_eq_iff)
  moreover have "if alive then \<exists>c'. s_heap s' p = Some c' \<and> rested c1 c' else s_heap s' p = None"
    using finish_talk [OF assms(3), of c1] flushed(4) by simp
  ultimately show "if alive then \<exists>c'. s_heap s' p = Some c' \<and> rested c c' else s_heap s' p = None"
    by (cases alive) simp_all
qed

lemma send_talk:
  assumes "send_response p s = Some (alive, s')" "s_heap s p = Some c" "wf_conn c" "\<not> c_awaiting_writable c"
  shows "k_reads (s_kernel s') = k_reads (s_kernel s) \<and> k_seen (s_kernel s') = k_seen (s_kernel s) \<and>
    (if alive then \<exists>c'. s_heap s' p = Some c' \<and> c_fd c' = c_fd c \<and> stash_of c' = stash_of c \<and>
       (if c_awaiting_writable c'
        then owed c' (s_kernel s') = owed c (s_kernel s) \<and> c_keep_alive_after_write c' = c_keep_alive_after_write c \<and>
          backed c' (s_kernel s') = backed c (s_kernel s)
        else conn_wire (c', s_kernel s') = owed c (s_kernel s) \<and> rested c c' \<and> backed c (s_kernel s))
     else s_heap s' p = None \<and> (\<exists>extra. owed c (s_kernel s) = k_wire (s_kernel s') (c_fd c) @ extra))"
proof -
  obtain res c1 k1 where f: "try_flush_response c (s_kernel s) = Some (res, c1, k1)"
    using flush_keeps [OF assms(3)] by metis
  note t = flush_talk [OF f assms(3)]
  obtain ok k2 where ok: "sys_epoll_ctl k1 = (ok, k2)" by fastforce
  have k2: "same_talk k1 k2" using same_talk_frames(5) [OF ok] .
  have cut: "\<exists>extra. owed c (s_kernel s) = k_wire k' (c_fd c) @ extra" if "same_talk k1 k'" for k'
  proof
    show "owed c (s_kernel s) = k_wire k' (c_fd c) @ response_pending (c1, k1)"
      using that conjunct1 [OF t] t by (simp add: owed_def [of c1] conn_wire_def same_talk_def)
  qed
  show ?thesis
  proof (cases res)
    case Failed
    then obtain "close_connection p (put_conn p c1 k1 s) = Some s'" "\<not> alive"
      using assms(1,2) f by (auto simp: send_response_def bind_eq_Some_conv)
    with close_connection_talk cut t show ?thesis by (fastforce simp: same_talk_def)
  next
    case Blocked
    show ?thesis
    proof (cases ok)
      case True
      with Blocked have "alive" "s' = put_conn p (c1\<lparr>c_awaiting_writable := True\<rparr>) k2 s"
        using assms(1,2) f ok by (auto simp: send_response_def bind_eq_Some_conv)
      with t k2 show ?thesis using owed_talk [OF k2, where c = c1 and b = True] by (simp add: same_talk_def stash_of_def)
    next
      case False
      with Blocked obtain "close_connection p (put_conn p c1 k2 s) = Some s'" "\<not> alive"
        using assms(1,2) f ok by (auto simp: send_response_def bind_eq_Some_conv)
      with close_connection_talk [of p "put_conn p c1 k2 s" s'] cut t k2 same_talk_trans [OF k2, of "s_kernel s'"]
      show ?thesis by (auto simp: same_talk_def)
    qed
  next
    case Flushed
    then have "finish_after_response_sent p (put_conn p c1 k1 s) = Some (alive, s')"
      using assms(1,2) f by (simp add: send_response_def)
    note e = finished_talk [OF f [unfolded Flushed] assms(3) this]
    show ?thesis
    proof (cases alive)
      case True
      then obtain c' where c': "s_heap s' p = Some c'" "rested c c'" using e(4) by auto
      then have "conn_wire (c', s_kernel s') = owed c (s_kernel s)" "c_fd c' = c_fd c" "\<not> c_awaiting_writable c'"
        "stash_of c' = stash_of c" using e(2) by (simp_all add: rested_def conn_wire_def)
      with True c' e(3,5) show ?thesis by auto
    next
      case False
      with e cut [OF e(1)] show ?thesis by simp
    qed
  qed
qed

section \<open>Answering\<close>

lemma choose_answers:
  assumes "config_ok s" "wf_parser parser" "choose_response s parser result = Some (r, keep, k)"
    "response_octets r (k_content k (f_fd (resp_file r))) keep w = Some out"
  shows "\<exists>v. answers (s_root s) w v parser result out keep (whole r (k_content k (f_fd (resp_file r)))) \<and>
    k_seen k = k_seen (s_kernel s) @ v \<and> k_wire k = k_wire (s_kernel s) \<and> k_reads k = k_reads (s_kernel s)"
proof -
  have wf: "wf_response r" using choose_response_ok [OF assms(1,2), of result] assms(3) by auto
  show ?thesis
  proof (cases "result = HTTP_PARSE_ERROR")
    case True
    then have "r = bad_request" "\<not> keep" "k = s_kernel s" using assms(3) by (simp_all add: choose_response_def bad_request_def)
    then have "answers (s_root s) w [] parser result out keep (whole r (k_content k (f_fd (resp_file r))))"
      using True wf assms(4) unfolding answers_def by auto
    with \<open>k = s_kernel s\<close> show ?thesis by auto
  next
    case False
    obtain fs content k0 where k0: "sys_files (s_kernel s) = ((fs, content), k0)" by (metis prod.exhaust)
    then have fr: "fs_opens_fresh fs (k_fds k0)" "fs_sizes fs" "k_wire k0 = k_wire (s_kernel s)" "k_reads k0 = k_reads (s_kernel s)"
      by (auto simp: sys_files_def no_files_opens_fresh fresh_view_opens_fresh fresh_view_sizes split: list.splits)
    from route_request_ok [OF assms(2) _ fr(1,2), of "s_root s"] assms(1) obtain r' where
      r': "route_request (s_root s) fs (k_fds k0) parser = Some (r', k_fds k0 \<union> file_fds (resp_file r'))"
      by (auto simp: config_ok_def)
    then have r: "r = r'" "keep = http_parser_should_keep_alive parser" "k_wire k = k_wire k0" "k_reads k = k_reads k0"
      "k_seen k = k_seen k0" "0 \<le> f_fd (resp_file r) \<longrightarrow> k_content k (f_fd (resp_file r)) = content"
      using assms(3) k0 False by (auto simp: choose_response_def)
    let ?c = "k_content k (f_fd (resp_file r))"
    have "response_octets r content keep w = response_octets r ?c keep w" "whole r content = whole r ?c"
      using r(6) by (simp_all add: response_octets_def whole_def)
    then have "answers (s_root s) w [(fs, content)] parser result out keep (whole r ?c)"
      using False wf assms(4) r(1,2) r' unfolding answers_def by auto
    with r(3-5) fr(3,4) sys_files_seen [OF k0] show ?thesis by auto
  qed
qed

lemma prepared_owes:
  assumes "c_file_fd c = -1" "head_text r keep w = Some msg" "array_str buf (length msg) = msg"
    "response_octets r (k_content k (f_fd (resp_file r))) keep w = Some out"
  shows "owed (prepared c r keep msg buf) k = k_wire k (c_fd c) @ out"
    "0 \<le> f_size (resp_file r) \<or> f_fd (resp_file r) < 0 \<Longrightarrow>
     backed (prepared c r keep msg buf) k = whole r (k_content k (f_fd (resp_file r)))"
  using assms
  by (auto simp: owed_def backed_def to_send_def whole_def conn_wire_def response_pending_def head_pending_def
      body_pending_def prepared_def Let_def response_octets_def)

lemma respond_talk:
  assumes inv: "loop_inv (cfg, qs, base) {} ps s" and c: "s_heap s p = Some c" "c_file_fd c = -1"
    and parser: "wf_parser parser" and r: "choose_response s parser result = Some (r, keep, k1)"
    "prepare_response (c\<lparr>c_parser := parser\<rparr>) r keep (s_worker_id s) k1 = Some (c2, k2)"
  shows "\<exists>v out. answers (s_root s) (s_worker_id s) v parser result out keep (backed c2 k2) \<and>
    k_seen k2 = k_seen (s_kernel s) @ v \<and> owed c2 k2 = conn_wire (c, s_kernel s) @ out \<and> c_keep_alive_after_write c2 = keep \<and> c_fd c2 = c_fd c \<and>
    c_awaiting_writable c2 = c_awaiting_writable c \<and> wf_conn c2 \<and> k_reads k2 = k_reads (s_kernel s)"
proof -
  let ?c1 = "c\<lparr>c_parser := parser\<rparr>" and ?w = "s_worker_id s"
  have ok: "config_ok s" "wf_conn c" using inv c(1) by (auto simp: loop_inv_def)
  have wf: "wf_response r" and own: "file_fds (resp_file r) \<inter> k_fds (s_kernel s) = {}"
    using choose_response_ok [OF ok(1) parser, of result] r(1) by auto
  have w: "\<bar>?w\<bar> < 2 ^ 31" using ok(1) by (simp add: config_ok_def)
  obtain msg buf where msg: "head_text r keep ?w = Some msg" "length msg < RESPONSE_BUF_SIZE" "array_str buf (length msg) = msg"
    "prepare_response ?c1 r keep ?w k1 = Some (prepared ?c1 r keep msg buf, k1)"
    using prepare_response_ok [OF wf w] .
  then have c2: "c2 = prepared ?c1 r keep msg buf" "k2 = k1" using r(2) by simp_all
  obtain out where out: "response_octets r (k_content k1 (f_fd (resp_file r))) keep ?w = Some out"
    using msg(1) by (simp add: response_octets_def)
  obtain v where v: "answers (s_root s) ?w v parser result out keep (whole r (k_content k1 (f_fd (resp_file r))))"
    "k_seen k1 = k_seen (s_kernel s) @ v" and ans: "k_wire k1 = k_wire (s_kernel s)" "k_reads k1 = k_reads (s_kernel s)"
    using choose_answers [OF ok(1) parser r(1) out] by blast
  have "c_fd c \<in> k_fds (s_kernel s)" using loop_inv_fd_in [OF inv c(1)] by (simp add: owned_def)
  then have "wf_conn c2" unfolding c2 using ok(2) parser own c(2)
    by (intro prepared_ok(1) [OF _ _ wf msg(2)]) (auto simp: wf_conn_def)
  moreover have "owed c2 k2 = conn_wire (c, s_kernel s) @ out"
    unfolding c2 using prepared_owes(1) [OF _ msg(1,3) out, of ?c1] c(2) ans(1) by (simp add: conn_wire_def)
  moreover have "backed c2 k2 = whole r (k_content k1 (f_fd (resp_file r)))"
    unfolding c2 using wf c(2) by (intro prepared_owes(2) [OF _ msg(1,3) out]) (auto simp: wf_response_def split: if_splits)
  moreover have "c_keep_alive_after_write c2 = keep" "c_fd c2 = c_fd c" "c_awaiting_writable c2 = c_awaiting_writable c"
    unfolding c2 by (simp_all add: prepared_def Let_def)
  ultimately show ?thesis using v ans c2(2) by auto
qed

lemma continue_parse:
  assumes "http_parser_execute http_parser_init rest = Some (parser, HTTP_PARSE_INCOMPLETE, length rest)"
    "http_parser_execute parser data = Some (q, r, n)"
  shows "http_parser_execute http_parser_init (rest @ data) = Some (q, r, length rest + n)"
  using hp.exec_continue [OF wf_parser_init assms(1), of data] assms(2) by simp

lemma stash_talk:
  assumes "stash_pending_input c rest = Some c'"
  shows "stash_of c' = rest" "c_fd c' = c_fd c" "c_awaiting_writable c' = c_awaiting_writable c"
    "c_keep_alive_after_write c' = c_keep_alive_after_write c" "owed c' k = owed c k" "backed c' k = backed c k"
proof -
  obtain buf where buf: "array_write READ_CHUNK_SIZE (c_pending_input c) 0 rest = Some buf"
    "c' = c\<lparr>c_pending_input := buf, c_pending_input_len := length rest\<rparr>"
    using assms by (auto simp: stash_pending_input_def bind_eq_Some_conv)
  show "stash_of c' = rest" unfolding buf(2) stash_of_def
    using array_write_prefix [OF _ buf(1), of "length rest"] by simp
  show "c_fd c' = c_fd c" "c_awaiting_writable c' = c_awaiting_writable c" "c_keep_alive_after_write c' = c_keep_alive_after_write c"
    "owed c' k = owed c k" "backed c' k = backed c k"
    unfolding buf(2) by (simp_all add: owed_def backed_def to_send_def conn_wire_def response_pending_def head_pending_def
        body_pending_def)
qed

text \<open>One turn of \<^verbatim>\<open>process_input\<close>, from a parsed request to the response.\<close>

lemma turn_talk:
  assumes inv: "loop_inv (cfg, qs, base) {} ps s" and c: "s_heap s p = Some c" "c_file_fd c = -1" "\<not> c_awaiting_writable c"
    and parser: "wf_parser parser" and r: "choose_response s parser result = Some (r, keep, k1)"
    "prepare_response (c\<lparr>c_parser := parser\<rparr>) r keep (s_worker_id s) k1 = Some (c2, k2)"
    and send: "send_response p (put_conn p c2 k2 s) = Some (alive, s3)"
    and parsed: "http_parser_execute http_parser_init todo = Some (parser, result, n)" "result \<noteq> HTTP_PARSE_INCOMPLETE"
    and so_far: "replies (s_root s) (s_worker_id s) views input (conn_wire (c, s_kernel s)) todo False True"
  shows "\<exists>v. k_seen (s_kernel s3) = k_seen (s_kernel s) @ v \<and> k_reads (s_kernel s3) = k_reads (s_kernel s) \<and>
    (if alive then \<exists>c3. s_heap s3 p = Some c3 \<and> c_fd c3 = c_fd c \<and>
       (if c_awaiting_writable c3
        then replies (s_root s) (s_worker_id s) (views @ v) input (owed c3 (s_kernel s3)) (drop n todo) (\<not> c_keep_alive_after_write c3)
               (backed c3 (s_kernel s3))
        else replies (s_root s) (s_worker_id s) (views @ v) input (conn_wire (c3, s_kernel s3)) (drop n todo) False True \<and>
          c_parser c3 = http_parser_init)
     else s_heap s3 p = None \<and> said (s_root s) (s_worker_id s) (views @ v) input (k_wire (s_kernel s3) (c_fd c)))"
proof -
  obtain v out where out: "answers (s_root s) (s_worker_id s) v parser result out keep (backed c2 k2)"
    and owes: "owed c2 k2 = conn_wire (c, s_kernel s) @ out" and c2: "c_keep_alive_after_write c2 = keep" "c_fd c2 = c_fd c"
    "\<not> c_awaiting_writable c2" "wf_conn c2" "k_reads k2 = k_reads (s_kernel s)" "k_seen k2 = k_seen (s_kernel s) @ v"
    using respond_talk [OF inv c(1,2) parser r] c(3) by blast
  have R: "replies (s_root s) (s_worker_id s) (views @ v) input (owed c2 k2) (drop n todo) (\<not> keep) (backed c2 k2)"
    unfolding owes using replies_trans [OF so_far _ _ replies.last [OF parsed out]] by simp
  note talk = send_talk [OF send, of c2, unfolded put_conn_sel, simplified, OF c2(4,3)]
  show ?thesis
  proof (cases alive)
    case True
    then obtain c3 where c3: "s_heap s3 p = Some c3" "c_fd c3 = c_fd c2"
      "if c_awaiting_writable c3
       then owed c3 (s_kernel s3) = owed c2 k2 \<and> c_keep_alive_after_write c3 = c_keep_alive_after_write c2 \<and>
         backed c3 (s_kernel s3) = backed c2 k2
       else conn_wire (c3, s_kernel s3) = owed c2 k2 \<and> rested c2 c3 \<and> backed c2 k2"
      using talk by auto
    with True talk R c2 show ?thesis by (intro exI [of _ v]) (auto simp: rested_def split: if_splits)
  next
    case False
    with talk R c2 show ?thesis by (intro exI [of _ v]) (auto intro: saidI)
  qed
qed

text \<open>
  What processing some input leaves: the octets read are still to be read, and the connection is
  there exactly if the function says so.
\<close>

definition processed :: "server \<Rightarrow> nat \<Rightarrow> int \<Rightarrow> view list \<Rightarrow> string \<Rightarrow> bool \<Rightarrow> server \<Rightarrow> bool" where
  "processed s p fd views input alive s' \<longleftrightarrow>
     spoken (s_root s) (s_worker_id s) p fd (k_seen (s_kernel s)) views input s' \<and> k_reads (s_kernel s') = k_reads (s_kernel s) \<and>
     (alive \<longleftrightarrow> s_heap s' p \<noteq> None)"

text \<open>A connection between two requests or in the middle of one, with the input \<open>todo\<close> left.\<close>

definition listening :: "server \<Rightarrow> nat \<Rightarrow> connection \<Rightarrow> view list \<Rightarrow> string \<Rightarrow> string \<Rightarrow> string \<Rightarrow> bool" where
  "listening s p c views input rest data \<longleftrightarrow>
     s_heap s p = Some c \<and> \<not> c_awaiting_writable c \<and>
     replies (s_root s) (s_worker_id s) views input (conn_wire (c, s_kernel s)) (rest @ data) False True \<and>
     http_parser_execute http_parser_init rest = Some (c_parser c, HTTP_PARSE_INCOMPLETE, length rest)"

lemma process_input_turn:
  assumes inv: "loop_inv (cfg, qs, base) {} ps s" "p \<in> set ps" and c: "listening s p c views input rest data" "c_file_fd c = -1"
    and q: "http_parser_execute (c_parser c) data = Some (q, result, n)" "result \<noteq> HTTP_PARSE_INCOMPLETE" "wf_parser q"
    and pi: "process_input p data s = Some (alive, s')" "data \<noteq> []"
  shows "processed s p (c_fd c) views input alive s' \<or>
    (\<exists>s3 c3 v. loop_inv (cfg, qs, base) {} ps s3 \<and> listening s3 p c3 (views @ v) input [] (drop n data) \<and> c_fd c3 = c_fd c \<and>
       k_reads (s_kernel s3) = k_reads (s_kernel s) \<and> k_seen (s_kernel s3) = k_seen (s_kernel s) @ v \<and> process_input p (drop n data) s3 = Some (alive, s'))"
proof -
  let ?g = "s_root s" and ?w = "s_worker_id s"
  have l: "s_heap s p = Some c" "\<not> c_awaiting_writable c" "replies ?g ?w views input (conn_wire (c, s_kernel s)) (rest @ data) False True"
    "http_parser_execute http_parser_init (rest @ data) = Some (q, result, length rest + n)"
    using c(1) continue_parse [OF _ q(1)] by (auto simp: listening_def)
  obtain r keep k1 c2 k2 where r: "choose_response s q result = Some (r, keep, k1)"
    "prepare_response (c\<lparr>c_parser := q\<rparr>) r keep ?w k1 = Some (c2, k2)"
    "handled (cfg, qs, base) ps p (send_response p (put_conn p c2 k2 s))"
    using respond_inv [OF inv l(1) c(2) q(3)] .
  then obtain alive3 s3 where s3: "send_response p (put_conn p c2 k2 s) = Some (alive3, s3)"
    "loop_inv (cfg, qs, base) {} (if alive3 then ps else remove1 p ps) s3" by (auto simp: handled_def)
  have "drop (length rest + n) (rest @ data) = drop n data" by simp
  note turn = turn_talk [OF inv(1) l(1) c(2) l(2) q(3) r(1,2) s3(1) l(4) q(2) l(3), unfolded this]
  then obtain v where v: "k_seen (s_kernel s3) = k_seen (s_kernel s) @ v" "k_reads (s_kernel s3) = k_reads (s_kernel s)"
    and talk: "if alive3 then \<exists>c3. s_heap s3 p = Some c3 \<and> c_fd c3 = c_fd c \<and>
       (if c_awaiting_writable c3
        then replies ?g ?w (views @ v) input (owed c3 (s_kernel s3)) (drop n data) (\<not> c_keep_alive_after_write c3)
               (backed c3 (s_kernel s3))
        else replies ?g ?w (views @ v) input (conn_wire (c3, s_kernel s3)) (drop n data) False True \<and>
          c_parser c3 = http_parser_init)
     else s_heap s3 p = None \<and> said ?g ?w (views @ v) input (k_wire (s_kernel s3) (c_fd c))"
    by blast
  have cfg: "s_root s3 = ?g" "s_worker_id s3 = ?w" using inv(1) s3(2) by (auto simp: loop_inv_def config_of_def)
  note eq = pi(1) [unfolded process_input.simps [of p data s]]
  show ?thesis
  proof (cases alive3)
    case False
    with eq pi(2) l(1) q(1,2) r(1,2) s3(1) have "s' = s3" "\<not> alive" by simp_all
    with talk v False show ?thesis by (simp add: processed_def spoken_def)
  next
    case True
    then obtain c3 where c3: "s_heap s3 p = Some c3" "c_fd c3 = c_fd c"
      and said3: "if c_awaiting_writable c3
        then replies ?g ?w (views @ v) input (owed c3 (s_kernel s3)) (drop n data) (\<not> c_keep_alive_after_write c3)
               (backed c3 (s_kernel s3))
        else replies ?g ?w (views @ v) input (conn_wire (c3, s_kernel s3)) (drop n data) False True \<and> c_parser c3 = http_parser_init"
      using talk by auto
    show ?thesis
    proof (cases "c_awaiting_writable c3")
      case True
      with eq pi(2) l(1) q(1,2) r(1,2) s3(1) \<open>alive3\<close> c3(1) obtain c4 where
        c4: "stash_pending_input c3 (drop n data) = Some c4" "s' = put_conn p c4 (s_kernel s3) s3" alive
        by (auto simp: bind_eq_Some_conv)
      with stash_talk [OF c4(1)] True said3 c3 v show ?thesis
        by (auto simp: processed_def spoken_def dialogue_def owed_def)
    next
      case False
      with eq pi(2) l(1) q(1,2) r(1,2) s3(1) \<open>alive3\<close> c3(1)
      have "process_input p (drop n data) s3 = Some (alive, s')" by simp
      moreover have "listening s3 p c3 (views @ v) input [] (drop n data)"
        using False said3 c3(1) cfg parsed_init by (simp add: listening_def)
      ultimately show ?thesis using s3(2) \<open>alive3\<close> c3 v by auto
    qed
  qed
qed

lemma process_input_spoken:
  assumes "loop_inv (cfg, qs, base) {} ps s" "p \<in> set ps" "listening s p c views input rest data"
    "length data \<le> READ_CHUNK_SIZE" "process_input p data s = Some (alive, s')"
  shows "processed s p (c_fd c) views input alive s'"
  using assms
proof (induction "length data" arbitrary: data s c rest views rule: less_induct)
  case less
  have c: "s_heap s p = Some c" "\<not> c_awaiting_writable c" using less.prems(3) by (auto simp: listening_def)
  then have "wf_conn c" "settled c" using less.prems(1) by (auto simp: loop_inv_def)
  then have set: "c_file_fd c = -1" "\<not> terminal (p_state (c_parser c))" "wf_parser (c_parser c)"
    using c(2) by (auto simp: settled_def wf_conn_def)
  note eq = less.prems(5) [unfolded process_input.simps [of p data s]]
  show ?case
  proof (cases "data = []")
    case True
    with eq less.prems(3) show ?thesis by (auto simp: processed_def spoken_same dialogue_def listening_def)
  next
    case False
    obtain q n where q: "http_parser_execute (c_parser c) data = Some (q, result_of (p_state q), n)" "wf_parser q"
      "0 < n" "n \<le> length data"
      using execute_progress [OF set(3,2) False] .
    show ?thesis
    proof (cases "terminal (p_state q)")
      case nt: False
      then have inc: "result_of (p_state q) = HTTP_PARSE_INCOMPLETE" by (simp add: result_of_incomplete)
      then have "n = length data" using hp.exec_more [OF set(3)] q(1) by auto
      moreover have "http_parser_execute http_parser_init (rest @ data) = Some (q, HTTP_PARSE_INCOMPLETE, length rest + n)"
        using continue_parse [OF _ q(1)] less.prems(3) inc by (auto simp: listening_def)
      ultimately show ?thesis using inc eq False c q(1) less.prems(3)
        by (auto simp: processed_def spoken_same dialogue_def conn_wire_def listening_def intro!: exI [of _ "rest @ data"])
    next
      case t: True
      then have inc: "result_of (p_state q) \<noteq> HTTP_PARSE_INCOMPLETE" by (simp add: result_of_incomplete)
      have len: "length (drop n data) < length data" "length (drop n data) \<le> READ_CHUNK_SIZE"
        using q(3) False less.prems(4) by auto
      from process_input_turn [OF less.prems(1-3) set(1) q(1) inc q(2) less.prems(5) False] show ?thesis
      proof (elim disjE exE conjE)
        fix s3 c3 v
        assume s3: "loop_inv (cfg, qs, base) {} ps s3" "listening s3 p c3 (views @ v) input [] (drop n data)" "c_fd c3 = c_fd c"
          "k_reads (s_kernel s3) = k_reads (s_kernel s)" "k_seen (s_kernel s3) = k_seen (s_kernel s) @ v" "process_input p (drop n data) s3 = Some (alive, s')"
        have "s_root s3 = s_root s" "s_worker_id s3 = s_worker_id s"
          using less.prems(1) s3(1) by (auto simp: loop_inv_def config_of_def)
        with less.hyps [OF len(1) s3(1) less.prems(2) s3(2) len(2) s3(6)] s3(3-5) show ?thesis
          by (auto simp: processed_def intro: spoken_shift)
      qed
    qed
  qed
qed

section \<open>Reading and resuming\<close>

text \<open>The octets the answers of \<^verbatim>\<open>read\<close> deliver.\<close>

definition read_octets :: "read_answer \<Rightarrow> string" where
  "read_octets a = (case a of Data s \<Rightarrow> take READ_CHUNK_SIZE s | Read_error e \<Rightarrow> [])"

definition received :: "read_answer list \<Rightarrow> string" where
  "received as = concat (map read_octets as)"

text \<open>A handler has read some answers, and the connection has spoken about all it has received.\<close>

definition heard :: "server \<Rightarrow> nat \<Rightarrow> int \<Rightarrow> view list \<Rightarrow> view list \<Rightarrow> string \<Rightarrow> read_answer list \<Rightarrow> server \<Rightarrow> bool" where
  "heard s p fd seen views input reads s' \<longleftrightarrow>
     (\<exists>used. reads = used @ k_reads (s_kernel s') \<and>
        spoken (s_root s) (s_worker_id s) p fd seen views (input @ received used) s')"

lemma heard_none:
  "spoken (s_root s) (s_worker_id s) p fd seen views input s' \<Longrightarrow> k_reads (s_kernel s') = reads \<Longrightarrow>
   heard s p fd seen views input reads s'"
  by (simp add: heard_def received_def)

lemma heard_one:
  "heard s p fd seen views (input @ read_octets a) reads s' \<Longrightarrow> heard s p fd seen views input (a # reads) s'"
proof -
  assume "heard s p fd seen views (input @ read_octets a) reads s'"
  then obtain used where "reads = used @ k_reads (s_kernel s')"
    "spoken (s_root s) (s_worker_id s) p fd seen views ((input @ read_octets a) @ received used) s'"
    unfolding heard_def by blast
  then show ?thesis unfolding heard_def by (intro exI [of _ "a # used"]) (simp add: received_def)
qed

lemma heard_shift: "heard s p fd (seen @ v) (views @ v) input reads s' \<Longrightarrow> heard s p fd seen views input reads s'"
  unfolding heard_def by (elim exE conjE, intro exI conjI) (assumption, rule spoken_shift)

lemma heard_put [simp]: "heard (put_conn q c k s) = heard s"
  by (simp add: heard_def fun_eq_iff)

lemma sys_read_answer:
  assumes "sys_read READ_CHUNK_SIZE k = (ans, k1)"
  obtains "k_reads k = []" "ans = Read_error EAGAIN" "k1 = k"
  | a where "k_reads k = a # k_reads k1" "k_wire k1 = k_wire k" "k_content k1 = k_content k" "k_seen k1 = k_seen k"
      "ans = (case a of Data s \<Rightarrow> Data (take READ_CHUNK_SIZE s) | Read_error e \<Rightarrow> Read_error e)"
  using assms by (auto simp: sys_read_def split: list.splits read_answer.splits)

lemma dialogue_kernel:
  "k_wire k' = k_wire k \<Longrightarrow> k_content k' = k_content k \<Longrightarrow>
   dialogue g w views input (c\<lparr>c_last_activity := t\<rparr>) k' = dialogue g w views input c k \<and>
   dialogue g w views input c k' = dialogue g w views input c k"
  by (simp add: dialogue_def backed_def to_send_def conn_wire_def response_pending_def head_pending_def body_pending_def
      stash_of_def)

lemma closed_spoken:
  assumes "close_connection p (put_conn p c' k s) = Some s'" "dialogue g w views input c k" "c_fd c = fd"
    "k_seen k = seen"
  shows "spoken g w p fd seen views input s' \<and> k_reads (s_kernel s') = k_reads k"
  using close_connection_talk [OF assms(1)] dialogue_said [OF assms(2)] assms(3,4)
  by (auto simp: spoken_same conn_wire_def same_talk_def)

lemma dialogue_listening:
  assumes "dialogue (s_root s) (s_worker_id s) views input c (s_kernel s)" "\<not> c_awaiting_writable c" "s_heap s p = Some c"
  shows "\<exists>rest. listening s p c views (input @ data) rest data"
  using assms replies_more_input unfolding dialogue_def listening_def by metis

text \<open>One chunk that was read.\<close>

lemma chunk_heard:
  assumes inv: "loop_inv (cfg, queues_of k2, base) {} ps (put_conn p c k2 s)" "p \<in> set ps" and c: "\<not> c_awaiting_writable c"
    "dialogue (s_root s) (s_worker_id s) views input c k2" and buf: "length buf \<le> READ_CHUNK_SIZE"
    and run: "Option.bind (process_input p buf (put_conn p c k2 s)) (\<lambda>(alive, s1).
      if \<not> alive then Some s1
      else Option.bind (s_heap s1 p) (\<lambda>c1. if c_awaiting_writable c1 then Some s1 else handle_client_readable p s1)) = Some s'"
    and hyp: "\<And>s1 c1 views1. loop_inv (cfg, queues_of k2, base) {} ps s1 \<Longrightarrow> s_heap s1 p = Some c1 \<Longrightarrow> \<not> c_awaiting_writable c1 \<Longrightarrow>
      dialogue (s_root s1) (s_worker_id s1) views1 (input @ buf) c1 (s_kernel s1) \<Longrightarrow> handle_client_readable p s1 = Some s' \<Longrightarrow>
      k_reads (s_kernel s1) = k_reads k2 \<Longrightarrow>
      heard s1 p (c_fd c1) (k_seen (s_kernel s1)) views1 (input @ buf) (k_reads k2) s'"
  shows "heard s p (c_fd c) (k_seen k2) views (input @ buf) (k_reads k2) s'"
proof -
  let ?s2 = "put_conn p c k2 s"
  obtain rest where l: "listening ?s2 p c views (input @ buf) rest buf"
    using dialogue_listening [of ?s2 views input c p buf] c by auto
  have "handled (cfg, queues_of k2, base) ps p (process_input p buf ?s2)"
    by (rule process_input_inv [OF inv _ c(1) buf]) simp
  then obtain alive s1 where s1: "process_input p buf ?s2 = Some (alive, s1)"
    "loop_inv (cfg, queues_of k2, base) {} (if alive then ps else remove1 p ps) s1" by (auto simp: handled_def)
  note pr = process_input_spoken [OF inv l buf s1(1), unfolded processed_def]
  have cfg: "s_root s1 = s_root s" "s_worker_id s1 = s_worker_id s"
    using inv(1) s1(2) by (auto simp: loop_inv_def config_of_def put_conn_def)
  have heq: "heard s1 = heard s" by (simp add: heard_def fun_eq_iff cfg)
  show ?thesis
  proof (cases alive)
    case False
    with run s1(1) have "s' = s1" by simp
    with pr show ?thesis by (intro heard_none) simp_all
  next
    case True
    then obtain c1 where c1: "s_heap s1 p = Some c1" using pr by auto
    then obtain v where d: "c_fd c1 = c_fd c" "dialogue (s_root s1) (s_worker_id s1) (views @ v) (input @ buf) c1 (s_kernel s1)"
      and v: "k_seen (s_kernel s1) = k_seen k2 @ v"
      using pr cfg by (auto simp: spoken_def)
    show ?thesis
    proof (cases "c_awaiting_writable c1")
      case True
      with run s1(1) \<open>alive\<close> c1 have "s' = s1" by simp
      with pr show ?thesis by (intro heard_none) simp_all
    next
      case False
      with run s1(1) \<open>alive\<close> c1 have "handle_client_readable p s1 = Some s'" by simp
      with hyp [OF _ c1 False d(2)] s1(2) \<open>alive\<close> pr d(1)
      have "heard s p (c_fd c) (k_seen k2 @ v) (views @ v) (input @ buf) (k_reads k2) s'" by (simp add: heq v)
      then show ?thesis by (rule heard_shift)
    qed
  qed
qed

text \<open>An error of \<^verbatim>\<open>read\<close>, and a successful read.\<close>

lemma error_heard:
  assumes dia: "dialogue (s_root s) (s_worker_id s) views input c k1"
    and run: "(if e = EINTR then handle_client_readable p (put_conn p c k1 s)
      else if e = EAGAIN then Some (put_conn p c k1 s) else close_connection p (put_conn p c k1 s)) = Some s'"
    and hyp: "handle_client_readable p (put_conn p c k1 s) = Some s' \<Longrightarrow>
      heard s p (c_fd c) (k_seen k1) views input (k_reads k1) s'"
  shows "heard s p (c_fd c) (k_seen k1) views input (k_reads k1) s'"
proof -
  consider "e = EINTR" | "e \<noteq> EINTR" "e = EAGAIN" | "e \<noteq> EINTR" "e \<noteq> EAGAIN" by blast
  then show ?thesis
  proof cases
    case 1
    with run hyp show ?thesis by simp
  next
    case 2
    with run have "s' = put_conn p c k1 s" by simp
    with dia show ?thesis by (intro heard_none) (simp_all add: spoken_same)
  next
    case 3
    with run have "close_connection p (put_conn p c k1 s) = Some s'" by simp
    from closed_spoken [OF this dia refl refl] show ?thesis by (intro heard_none) simp_all
  qed
qed

lemma readable_heard:
  assumes "loop_inv (cfg, qs, base) {} ps s" "p \<in> set ps" "s_heap s p = Some c" "\<not> c_awaiting_writable c"
    "dialogue (s_root s) (s_worker_id s) views input c (s_kernel s)" "handle_client_readable p s = Some s'"
  shows "heard s p (c_fd c) (k_seen (s_kernel s)) views input (k_reads (s_kernel s)) s'"
  using assms
proof (induction "length (k_reads (s_kernel s))" arbitrary: s c qs input views rule: less_induct)
  case less
  obtain ans k1 where r: "sys_read READ_CHUNK_SIZE (s_kernel s) = (ans, k1)" by fastforce
  note eq = less.prems(6) [unfolded handle_client_readable.simps [of p s]]
  have wf: "wf_conn c" "settled c" using less.prems(1,3) by (auto simp: loop_inv_def)
  from r show ?case
  proof (cases rule: sys_read_answer)
    case 1
    with eq r less.prems(3,5)
    have "spoken (s_root s) (s_worker_id s) p (c_fd c) (k_seen (s_kernel s)) views input s'" "k_reads (s_kernel s') = []"
      by (auto simp: spoken_same)
    then show ?thesis using 1(1) by (intro heard_none) simp_all
  next
    case (2 a)
    have d1: "dialogue (s_root s) (s_worker_id s) views input c k1"
      using less.prems(5) dialogue_kernel [OF 2(2,3)] by blast
    have inv1: "loop_inv (cfg, queues_of k1, base) {} ps (put_conn p c k1 s)"
      using sys_read_frame [OF r] wf by (intro loop_inv_put_same [OF less.prems(1,3)]) simp_all
    have "heard s p (c_fd c) (k_seen k1) views (input @ read_octets a) (k_reads k1) s'"
    proof (cases a)
      case (Read_error e)
      show ?thesis unfolding read_octets_def Read_error read_answer.case append_Nil2
        by (rule error_heard [OF d1])
           (use eq r 2 Read_error d1 less.prems(3) less.hyps [OF _ inv1 less.prems(2) _ less.prems(4)] in simp_all)
    next
      case (Data buf)
      let ?buf = "take READ_CHUNK_SIZE buf"
      obtain t k2 where t: "sys_time k1 = (t, k2)" by fastforce
      have k2: "k_wire k2 = k_wire k1" "k_content k2 = k_content k1" "k_reads k2 = k_reads k1" "k_seen k2 = k_seen k1"
        using same_talk_frames(4) [OF t] by (simp_all add: same_talk_def)
      let ?c = "c\<lparr>c_last_activity := t\<rparr>"
      have inv2: "loop_inv (cfg, queues_of k2, base) {} ps (put_conn p ?c k2 s)"
        using sys_read_frame [OF r] wf sys_time_frame [OF t]
        by (intro loop_inv_put_same [OF less.prems(1,3)]) (simp_all add: settled_def)
      have d2: "dialogue (s_root s) (s_worker_id s) views input ?c k2" using d1 dialogue_kernel [OF k2(1,2)] by blast
      have hyp: "heard s1 p (c_fd c1) (k_seen (s_kernel s1)) views1 (input @ ?buf) (k_reads k2) s'"
        if "loop_inv (cfg, queues_of k2, base) {} ps s1" "s_heap s1 p = Some c1" "\<not> c_awaiting_writable c1"
          "dialogue (s_root s1) (s_worker_id s1) views1 (input @ ?buf) c1 (s_kernel s1)" "handle_client_readable p s1 = Some s'"
          "k_reads (s_kernel s1) = k_reads k2" for s1 c1 views1
        using less.hyps [OF _ that(1) less.prems(2) that(2-5)] that(6) 2(1) k2(3) by simp
      have "heard s p (c_fd ?c) (k_seen k2) views (input @ ?buf) (k_reads k2) s'" if "?buf \<noteq> []"
        using eq r t 2(5) Data that less.prems(3,4) by (intro chunk_heard [OF inv2 less.prems(2) _ d2 _ _ hyp]) simp_all
      moreover have "close_connection p (put_conn p c k1 s) = Some s'" if "?buf = []"
        using eq r 2(5) Data that less.prems(3) by simp
      ultimately show ?thesis using closed_spoken [OF _ d1 refl refl] heard_none Data k2(3,4)
        by (cases "?buf = []") (auto simp: read_octets_def)
    qed
    then show ?thesis unfolding 2(1) 2(4) [symmetric] by (rule heard_one)
  qed
qed

text \<open>Resuming with the input that was put aside.\<close>

lemma resume_spoken:
  assumes inv: "loop_inv (cfg, qs, base) {} ps s" "p \<in> set ps" and c: "s_heap s p = Some c" "\<not> c_awaiting_writable c"
    "c_parser c = http_parser_init" "replies (s_root s) (s_worker_id s) views input (conn_wire (c, s_kernel s)) (stash_of c) False True"
    and run: "(if c_pending_input_len c > 0
      then Option.bind (if c_pending_input_len c \<le> READ_CHUNK_SIZE
                        then Some (array_str (c_pending_input c) (c_pending_input_len c)) else None) (\<lambda>data.
             Option.bind (process_input p data (put_conn p (c\<lparr>c_pending_input_len := 0\<rparr>) (s_kernel s) s))
               (\<lambda>(alive2, s3). Some s3))
      else Some s) = Some s'"
  shows "spoken (s_root s) (s_worker_id s) p (c_fd c) (k_seen (s_kernel s)) views input s' \<and> k_reads (s_kernel s') = k_reads (s_kernel s)"
proof (cases "c_pending_input_len c > 0")
  case True
  let ?c = "c\<lparr>c_pending_input_len := 0\<rparr>" and ?data = "stash_of c"
  let ?s = "put_conn p ?c (s_kernel s) s"
  have wf: "wf_conn c" "settled c" using inv(1) c(1) by (auto simp: loop_inv_def)
  then have len: "length ?data \<le> READ_CHUNK_SIZE" "c_pending_input_len c \<le> READ_CHUNK_SIZE"
    by (simp_all add: wf_conn_def stash_of_def)
  with run True obtain alive where pi: "process_input p ?data ?s = Some (alive, s')"
    by (auto simp: stash_of_def bind_eq_Some_conv)
  have invs: "loop_inv (cfg, qs, base) {} ps ?s"
    using wf inv(1) by (intro loop_inv_put_same [OF inv(1) c(1)]) (simp_all add: wf_conn_def settled_def loop_inv_def)
  have "listening ?s p ?c views input [] ?data" using c parsed_init by (simp add: listening_def conn_wire_def)
  from process_input_spoken [OF invs inv(2) this len(1) pi] show ?thesis by (simp add: processed_def)
next
  case False
  with run c parsed_init show ?thesis by (auto simp: spoken_same dialogue_def stash_of_def)
qed

lemma writable_spoken:
  assumes inv: "loop_inv (cfg, qs, base) {} ps s" "p \<in> set ps" and c: "s_heap s p = Some c" "c_awaiting_writable c"
    and d: "dialogue (s_root s) (s_worker_id s) views input c (s_kernel s)" and run: "flush_pending_write p s = Some s'"
  shows "spoken (s_root s) (s_worker_id s) p (c_fd c) (k_seen (s_kernel s)) views input s' \<and> k_reads (s_kernel s') = k_reads (s_kernel s)"
proof -
  let ?g = "s_root s" and ?w = "s_worker_id s"
  have wf: "wf_conn c" "settled c" and qs: "queues_of (s_kernel s) = qs" using inv(1) c(1) by (auto simp: loop_inv_def)
  obtain res c1 k1 where f: "try_flush_response c (s_kernel s) = Some (res, c1, k1)" "wf_conn c1" "owned c1 = owned c"
    "c_prev c1 = c_prev c" "c_next c1 = c_next c" "k_fds k1 = k_fds (s_kernel s)" "queues_of k1 = qs"
    using flush_keeps [OF wf(1), of "s_kernel s"] qs by metis
  note t = flush_talk [OF f(1) wf(1)]
  have R: "replies ?g ?w views input (owed c (s_kernel s)) (stash_of c) (\<not> c_keep_alive_after_write c) (backed c (s_kernel s))"
    using d c(2) by (simp add: dialogue_def owed_def)
  have d1: "dialogue ?g ?w views input c1 k1" using R t c(2) by (simp add: dialogue_def flip: owed_def)
  show ?thesis
  proof (cases res)
    case Failed
    with run c(1) f(1) have "close_connection p (put_conn p c1 k1 s) = Some s'" by (simp add: flush_pending_write_def)
    from closed_spoken [OF this d1, of "c_fd c" "k_seen (s_kernel s)"] t show ?thesis by simp
  next
    case Blocked
    with run c(1) f(1) have "s' = put_conn p c1 k1 s" by (simp add: flush_pending_write_def)
    with d1 t show ?thesis by (simp add: spoken_same)
  next
    case Flushed
    have inv1: "loop_inv (cfg, qs, base) {p} ps (put_conn p c1 k1 s)"
      by (rule loop_inv_put_same [OF inv(1) c(1) f(4,5,2) _ _ f(7,6,3)]) simp_all
    obtain alive s2 where s2: "finish_after_response_sent p (put_conn p c1 k1 s) = Some (alive, s2)"
      "loop_inv (cfg, qs, base) {} (if alive then ps else remove1 p ps) s2"
      using finish_inv [OF inv1 inv(2)] by (auto simp: handled_def)
    note e = finished_talk [OF f(1) [unfolded Flushed] wf(1) s2(1)]
    have cfg: "s_root s2 = ?g" "s_worker_id s2 = ?w" using inv(1) s2(2) by (auto simp: loop_inv_def config_of_def)
    show ?thesis
    proof (cases alive)
      case False
      with run c(1) f(1) Flushed s2(1) have "s' = s2" by (simp add: flush_pending_write_def)
      with False e R show ?thesis by (auto simp: spoken_same intro: saidI [of _ _ _ _ _ "[]"])
    next
      case True
      then obtain c2 where c2: "s_heap s2 p = Some c2" "rested c c2" using e(4) by auto
      then have "c_fd c2 = c_fd c" "stash_of c2 = stash_of c" "c_keep_alive_after_write c" "\<not> c_awaiting_writable c2"
        "c_parser c2 = http_parser_init" by (simp_all add: rested_def)
      with resume_spoken [OF _ inv(2) c2(1), of cfg qs base views input s'] run c(1) f(1) Flushed s2 True c2(1) R e(2,3,5) cfg
      show ?thesis by (simp add: flush_pending_write_def conn_wire_def)
    qed
  qed
qed

section \<open>An event of a connection\<close>

lemma new_connection_dialogue: "k_wire k fd = [] \<Longrightarrow> dialogue g w [] [] (new_connection fd t) k"
  using parsed_init replies.nothing [of g w "[]"]
  by (auto simp: dialogue_def new_connection_def conn_wire_def intro!: exI [of _ "[]"])

lemma conn_event_cases:
  assumes "handle_event \<lparr>ev_source = Conn p, ev_error = err\<rparr> s = Some (ctl, s')" "s_heap s p = Some c"
  obtains (close) "close_connection p s = Some s'"
  | (writable) "c_awaiting_writable c" "flush_pending_write p s = Some s'"
  | (readable) "\<not> c_awaiting_writable c" "handle_client_readable p s = Some s'"
  using assms by (auto simp: handle_event_def is_infrastructure_fd_def continue_def split: if_splits)

lemma event_heard:
  assumes inv: "loop_inv (cfg, qs, base) {} ps s" "p \<in> set ps" and c: "s_heap s p = Some c"
    and d: "dialogue (s_root s) (s_worker_id s) views input c (s_kernel s)"
    and run: "handle_event \<lparr>ev_source = Conn p, ev_error = err\<rparr> s = Some (ctl, s')"
  shows "heard s p (c_fd c) (k_seen (s_kernel s)) views input (k_reads (s_kernel s)) s'"
proof -
  have put: "s = put_conn p c (s_kernel s) s" using c by (simp add: put_conn_def fun_upd_idem)
  from run c show ?thesis
  proof (cases rule: conn_event_cases)
    case close
    then have "close_connection p (put_conn p c (s_kernel s) s) = Some s'" using put by simp
    from closed_spoken [OF this d refl refl] show ?thesis by (intro heard_none) simp_all
  next
    case writable
    from writable_spoken [OF inv c writable(1) d writable(2)] show ?thesis by (intro heard_none) simp_all
  next
    case readable
    from readable_heard [OF inv c readable(1) d readable(2)] show ?thesis .
  qed
qed

text \<open>
  C26. A connection answers its requests in order. Let a connection have received \<open>input\<close> and be in
  dialogue about it, with the answers taken from the look-ups \<open>views\<close> of the file system.
  Whatever event of the connection is handled, and whatever the kernel answers to the reads, writes and other calls on the way: if the connection is still there afterwards, it
  is in dialogue about all it has received, that is, the octets on its wire followed by those it
  still owes are the responses to the complete requests received, in their order, each once and each
  as routed by the look-up that was made for it (\<open>views\<close> and those logged meanwhile); if it
  was closed, its wire holds a beginning of these responses. A new connection is in dialogue.
\<close>

theorem connection_answers_in_order:
  assumes "any_inv cfg base ps s" "p \<in> set ps" "s_heap s p = Some c"
    "dialogue (s_root s) (s_worker_id s) views input c (s_kernel s)"
    "handle_event \<lparr>ev_source = Conn p, ev_error = err\<rparr> s = Some (ctl, s')"
  shows "(\<exists>used new. k_reads (s_kernel s) = used @ k_reads (s_kernel s') \<and> k_seen (s_kernel s') = k_seen (s_kernel s) @ new \<and>
     (case s_heap s' p of
        Some c' \<Rightarrow> c_fd c' = c_fd c \<and> dialogue (s_root s) (s_worker_id s) (views @ new) (input @ received used) c' (s_kernel s')
      | None \<Rightarrow> said (s_root s) (s_worker_id s) (views @ new) (input @ received used) (k_wire (s_kernel s') (c_fd c)))) \<and>
   (\<forall>k fd t. k_wire k fd = [] \<longrightarrow> dialogue (s_root s) (s_worker_id s) [] [] (new_connection fd t) k)"
proof -
  obtain qs where "loop_inv (cfg, qs, base) {} ps s" using assms(1) by (auto simp: any_inv_def)
  from event_heard [OF this assms(2-5)] show ?thesis
    using new_connection_dialogue unfolding heard_def spoken_def by blast
qed

definition demo_talker :: server where
  "demo_talker = put_conn 2 (the (s_heap demo_server 2))
     ((s_kernel demo_server)\<lparr>k_reads := [Data (''GET /'' @ '' HTTP/1.1'' @ CRLF @ CRLF), Read_error EAGAIN]\<rparr>) demo_server"

lemma demo_talker_simps [simp]:
  "s_heap demo_talker 2 = Some (the (s_heap demo_server 2))" "s_root demo_talker = demo_root" "s_worker_id demo_talker = 0"
  "c_fd (the (s_heap demo_server 2)) = 8"
  by (simp_all add: demo_talker_def demo_server_def)

lemma demo_talker_inv: "any_inv (config_of demo_server) {3, 4, 6} [1, 2] demo_talker"
proof -
  have c: "s_heap demo_server 2 = Some (the (s_heap demo_server 2))" by (simp add: demo_server_def)
  from demo_server_inv obtain qs where "loop_inv (config_of demo_server, qs, {3, 4, 6}) {} [1, 2] demo_server"
    by (auto simp: any_inv_def)
  moreover from this have "wf_conn (the (s_heap demo_server 2))" "settled (the (s_heap demo_server 2))"
    using c by (auto simp: loop_inv_def)
  ultimately show ?thesis unfolding demo_talker_def by (intro any_invI, intro loop_inv_put_same [OF _ c]) auto
qed

lemma demo_talker_dialogue: "dialogue g w [] [] (the (s_heap demo_server 2)) (s_kernel demo_talker)"
  using parsed_init replies.nothing [of g w "[]"]
  by (auto simp: dialogue_def demo_talker_def demo_server_def demo_conn_def demo_kernel_def conn_wire_def
      intro!: exI [of _ "[]"])

theorem connection_answers_in_order_witness:
  "\<exists>ctl s' used new. handle_event \<lparr>ev_source = Conn 2, ev_error = False\<rparr> demo_talker = Some (ctl, s') \<and>
     k_reads (s_kernel demo_talker) = used @ k_reads (s_kernel s') \<and> k_seen (s_kernel s') = k_seen (s_kernel demo_talker) @ new \<and>
     (case s_heap s' 2 of
        Some c' \<Rightarrow> c_fd c' = 8 \<and> dialogue demo_root 0 new (received used) c' (s_kernel s')
      | None \<Rightarrow> said demo_root 0 new (received used) (k_wire (s_kernel s') 8))"
proof -
  obtain ctl s' where s': "handle_event \<lparr>ev_source = Conn 2, ev_error = False\<rparr> demo_talker = Some (ctl, s')"
    using handle_event_inv [OF demo_talker_inv, of "\<lparr>ev_source = Conn 2, ev_error = False\<rparr>" "[]"]
    by (auto simp: epoll_batch_def simp del: sweep_spares.simps)
  with connection_answers_in_order [OF demo_talker_inv _ demo_talker_simps(1) demo_talker_dialogue s'] show ?thesis
    by (simp cong: option.case_cong)
qed

end
