(* ===== verification/Isolation.thy ===== *)
theory Isolation
  imports Dialogue
begin

text \<open>
  Connections do not disturb each other. A handler of one connection leaves the contents of every
  other one as they are, and the sockets and files the others own; accepting disturbs no
  connection, and the sweep none of those it keeps. With \<open>Dialogue\<close> this gives, for a whole run of
  the loop, that every connection is in dialogue about the octets it has received and the look-ups
  made for it, which the function \<open>transcript\<close> collects over the run.
\<close>

section \<open>What a handler of a connection may change\<close>

text \<open>The descriptors of the connections other than \<open>p\<close>.\<close>

definition apart :: "nat \<Rightarrow> server \<Rightarrow> int set" where
  "apart p s = (\<Union>q\<in>- {p}. owned_at s q)"

text \<open>Two kernels agree on what was sent over some sockets, and on the content of some files.\<close>

definition same_on :: "int set \<Rightarrow> kernel \<Rightarrow> kernel \<Rightarrow> bool" where
  "same_on fds k k' \<longleftrightarrow> (\<forall>fd\<in>fds. k_wire k' fd = k_wire k fd \<and> k_content k' fd = k_content k fd)"

definition isolated :: "nat \<Rightarrow> server \<Rightarrow> server \<Rightarrow> bool" where
  "isolated p s s' \<longleftrightarrow>
     (\<forall>q. q \<noteq> p \<longrightarrow> heap_data (s_heap s') q = heap_data (s_heap s) q) \<and> same_on (apart p s) (s_kernel s) (s_kernel s')"

lemma same_on_talk: "same_talk k k' \<Longrightarrow> same_on fds k k'"
  by (simp add: same_on_def same_talk_def)

lemma same_on_trans: "same_on fds k k1 \<Longrightarrow> same_on fds k1 k2 \<Longrightarrow> same_on fds k k2"
  by (simp add: same_on_def)

lemma apart_data: "(\<And>q. q \<noteq> p \<Longrightarrow> heap_data (s_heap s') q = heap_data (s_heap s) q) \<Longrightarrow> apart p s' = apart p s"
  by (simp add: apart_def owned_at_data)

lemma isolated_apart: "isolated p s s' \<Longrightarrow> apart p s' = apart p s"
  by (rule apart_data) (simp add: isolated_def)

lemma isolated_refl [simp]: "isolated p s s"
  by (simp add: isolated_def same_on_def)

lemma isolated_trans [trans]: "isolated p s s1 \<Longrightarrow> isolated p s1 s2 \<Longrightarrow> isolated p s s2"
  using isolated_apart [of p s s1] same_on_trans by (auto simp: isolated_def)

lemma apart_put [simp]: "apart p (put_conn p c k s) = apart p s"
  by (rule apart_data) (simp add: heap_data_def)

lemma isolated_put: "same_on (apart p s) (s_kernel s) k \<Longrightarrow> isolated p s (put_conn p c k s)"
  by (simp add: isolated_def heap_data_def)

lemma isolated_put_left: "isolated p (put_conn p c k s) s' \<Longrightarrow> same_on (apart p s) (s_kernel s) k \<Longrightarrow> isolated p s s'"
  using isolated_trans [OF isolated_put] .

lemma apart_own:
  assumes "loop_inv (cfg, qs, base) X ps s" "s_heap s p = Some c"
  shows "owned c \<inter> apart p s = {}" "apart p s \<subseteq> k_fds (s_kernel s)"
proof -
  have fds: "k_fds (s_kernel s) = base \<union> (\<Union>q. owned_at s q)" "owned_at s p \<inter> owned_at s q = {}" if "q \<noteq> p" for q
    using that assms(1) unfolding loop_inv_def fd_inv_def by auto
  then show "owned c \<inter> apart p s = {}" using owned_at_some [OF assms(2)] by (auto simp: apart_def)
  show "apart p s \<subseteq> k_fds (s_kernel s)" using assms(1) by (auto simp: loop_inv_def fd_inv_def apart_def)
qed

section \<open>The handlers of a connection\<close>

lemma upd_links:
  "upd_conn q f s = Some s' \<Longrightarrow> (\<And>c. conn_data (f c) = conn_data c) \<Longrightarrow>
   heap_data (s_heap s') = heap_data (s_heap s) \<and> s_kernel s' = s_kernel s"
  by (auto simp: upd_conn_def heap_data_upd split: option.splits)

lemma list_remove_data:
  assumes "list_remove p s = Some s'"
  shows "heap_data (s_heap s') = heap_data (s_heap s)"
proof -
  obtain c c1 :: connection and s1 where "(case c_prev c of Some q \<Rightarrow> upd_conn q (\<lambda>d. d\<lparr>c_next := c_next c\<rparr>) s
      | None \<Rightarrow> Some (s\<lparr>s_connections := c_next c\<rparr>)) = Some s1"
    "(case c_next c1 of Some q \<Rightarrow> upd_conn q (\<lambda>d. d\<lparr>c_prev := c_prev c1\<rparr>) s1 | None \<Rightarrow> Some s1) = Some s'"
    using assms unfolding list_remove_def bind_eq_Some_conv by (elim exE conjE) (rule that)
  then show ?thesis by (cases "c_prev c"; cases "c_next c1") (auto dest!: upd_links)
qed

lemma close_connection_data:
  assumes "close_connection p s = Some s'"
  shows "heap_data (s_heap s') = (heap_data (s_heap s))(p := None)"
proof -
  obtain s1 where "list_remove p s = Some s1" "s_heap s' = (s_heap s1)(p := None)"
    using assms by (auto simp: close_connection_def bind_eq_Some_conv Let_def case_prod_beta)
  with list_remove_data [of p s s1] show ?thesis by (auto simp: heap_data_def fun_eq_iff)
qed

lemma isolated_close: "close_connection p s = Some s' \<Longrightarrow> isolated p s s'"
  using close_connection_data [of p s s'] close_connection_talk [of p s s'] by (simp add: isolated_def same_on_talk)

lemma isolated_closed_put:
  "close_connection p (put_conn p c k s) = Some s' \<Longrightarrow> same_on (apart p s) (s_kernel s) k \<Longrightarrow> isolated p s s'"
  by (rule isolated_trans [OF isolated_put isolated_close])

lemma finish_isolated:
  assumes "finish_after_response_sent p s = Some (alive, s')" "s_heap s p = Some c" "wf_conn c"
  shows "isolated p s s'"
proof -
  let ?k1 = "close_fds (owned c - {c_fd c}) (s_kernel s)"
  obtain t k2 where t: "sys_time ?k1 = (t, k2)" by fastforce
  obtain ok k3 where ok: "sys_epoll_ctl k2 = (ok, k3)" by fastforce
  have "same_talk (s_kernel s) ?k1" "same_talk (s_kernel s) k2" "same_talk (s_kernel s) k3"
    using same_talk_frames(2) same_talk_frames(4) [OF t] same_talk_frames(5) [OF ok] by (meson same_talk_trans)+
  note k = this [THEN same_on_talk [where fds = "apart p s"]]
  show ?thesis using assms(1) k unfolding finish_eq [OF assms(2,3) t ok]
    by (auto simp: bind_eq_Some_conv split: if_splits intro: isolated_closed_put isolated_put)
qed

lemma flush_same_on:
  assumes "try_flush_response c k = Some (res, c1, k1)" "wf_conn c" "c_fd c \<notin> fds"
  shows "same_on fds k k1" "wf_conn c1" "c_fd c1 = c_fd c"
proof -
  have "conn_sendable (c, k)" using assms(2) by (simp add: conn_sendable_def wf_conn_def)
  then have s: "sends_only conn_rest c k c1 k1"
    using try_flush_response_sends assms(1) unfolding sends_def by fastforce
  then have "k_wire k1 fd = k_wire k fd" if "fd \<in> fds" for fd using that assms(3) by (metis sends_only_def)
  with sends_onlyD(14) [OF s] show "same_on fds k k1" by (simp add: same_on_def)
  show "wf_conn c1" "c_fd c1 = c_fd c" using flush_talk [OF assms(1,2)] by blast+
qed

lemma send_isolated:
  assumes "send_response p s = Some (alive, s')" "s_heap s p = Some c" "wf_conn c" "c_fd c \<notin> apart p s"
  shows "isolated p s s'"
proof -
  obtain res c1 k1 where f: "try_flush_response c (s_kernel s) = Some (res, c1, k1)"
    using flush_keeps [OF assms(3)] by metis
  note k1 = flush_same_on [OF f assms(3,4)]
  obtain ok k2 where ok: "sys_epoll_ctl k1 = (ok, k2)" by fastforce
  have k2: "same_on (apart p s) (s_kernel s) k2"
    using same_on_trans [OF k1(1) same_on_talk [OF same_talk_frames(5) [OF ok]]] .
  have "isolated p (put_conn p c1 k1 s) s''" if "finish_after_response_sent p (put_conn p c1 k1 s) = Some (a, s'')" for a s''
    by (rule finish_isolated [OF that _ k1(2)]) simp
  then show ?thesis using assms(1,2) f ok k1(1) k2
    by (cases res) (auto simp: send_response_def bind_eq_Some_conv Let_def split: if_splits
        intro: isolated_closed_put isolated_put isolated_put_left)
qed

lemma choose_same_on:
  assumes "config_ok s" "wf_parser parser" "choose_response s parser result = Some (r, keep, k)"
    "fds \<subseteq> k_fds (s_kernel s)"
  shows "same_on fds (s_kernel s) k"
proof -
  have "file_fds (resp_file r) \<inter> k_fds (s_kernel s) = {}"
    using choose_response_ok [OF assms(1,2), of result] assms(3) by (metis (no_types) option.inject prod.inject)
  then have "f_fd (resp_file r) \<notin> fds" if "0 \<le> f_fd (resp_file r)" using that assms(4) by (auto simp: file_fds_def)
  then show ?thesis using assms(3)
    by (auto simp: choose_response_def same_on_def sys_files_def bind_eq_Some_conv split: if_splits list.splits)
qed

lemma respond_isolated:
  assumes inv: "loop_inv (cfg, qs, base) {} ps s" and c: "s_heap s p = Some c" "c_file_fd c = -1" and parser: "wf_parser parser"
    and r: "choose_response s parser result = Some (r, keep, k1)"
    "prepare_response (c\<lparr>c_parser := parser\<rparr>) r keep (s_worker_id s) k1 = Some (c2, k2)"
    and send: "send_response p (put_conn p c2 k2 s) = Some (alive, s3)"
  shows "isolated p s s3"
proof -
  have ok: "config_ok s" "\<bar>s_worker_id s\<bar> < 2 ^ 31" using inv by (auto simp: loop_inv_def config_ok_def)
  have wf: "wf_response r" using choose_response_ok [OF ok(1) parser, of result] r(1) by auto
  obtain msg buf where "prepare_response (c\<lparr>c_parser := parser\<rparr>) r keep (s_worker_id s) k1 =
      Some (prepared (c\<lparr>c_parser := parser\<rparr>) r keep msg buf, k1)"
    using prepare_response_ok [OF wf ok(2)] by metis
  then have k2: "k2 = k1" using r(2) by simp
  have c2: "c_fd c2 = c_fd c" "wf_conn c2" using respond_talk [OF inv c parser r] by blast+
  have "c_fd c \<notin> apart p s" using apart_own(1) [OF inv c(1)] by (auto simp: owned_def)
  with c2 have "isolated p (put_conn p c2 k2 s) s3" by (intro send_isolated [OF send, of c2]) simp_all
  then show ?thesis
    by (rule isolated_put_left) (use choose_same_on [OF ok(1) parser r(1) apart_own(2) [OF inv c(1)]] k2 in simp)
qed

lemma process_input_isolated:
  assumes "loop_inv (cfg, qs, base) {} ps s" "p \<in> set ps" "s_heap s p = Some c" "\<not> c_awaiting_writable c"
    "length data \<le> READ_CHUNK_SIZE" "process_input p data s = Some (alive, s')"
  shows "isolated p s s'"
  using assms
proof (induction "length data" arbitrary: data s c rule: less_induct)
  case less
  have "wf_conn c" "settled c" using less.prems(1,3) by (auto simp: loop_inv_def)
  then have set: "c_file_fd c = -1" "\<not> terminal (p_state (c_parser c))" "wf_parser (c_parser c)"
    using less.prems(4) by (auto simp: settled_def wf_conn_def)
  note eq = less.prems(6) [unfolded process_input.simps [of p data s]]
  show ?case
  proof (cases "data = []")
    case True
    with eq show ?thesis by simp
  next
    case False
    obtain q n where q: "http_parser_execute (c_parser c) data = Some (q, result_of (p_state q), n)" "wf_parser q"
      "0 < n" "n \<le> length data"
      using execute_progress [OF set(3,2) False] .
    let ?result = "result_of (p_state q)"
    show ?thesis
    proof (cases "?result = HTTP_PARSE_INCOMPLETE")
      case True
      with eq False less.prems(3) q(1) show ?thesis by (auto simp: same_on_def intro: isolated_put)
    next
      case inc: False
      obtain r keep k1 c2 k2 where r: "choose_response s q ?result = Some (r, keep, k1)"
        "prepare_response (c\<lparr>c_parser := q\<rparr>) r keep (s_worker_id s) k1 = Some (c2, k2)"
        "handled (cfg, qs, base) ps p (send_response p (put_conn p c2 k2 s))"
        using respond_inv [OF less.prems(1-3) set(1) q(2)] .
      then obtain alive3 s3 where s3: "send_response p (put_conn p c2 k2 s) = Some (alive3, s3)"
        "loop_inv (cfg, qs, base) {} (if alive3 then ps else remove1 p ps) s3" by (auto simp: handled_def)
      have iso: "isolated p s s3" by (rule respond_isolated [OF less.prems(1,3) set(1) q(2) r(1,2) s3(1)])
      show ?thesis
      proof (cases alive3)
        case False
        with eq \<open>data \<noteq> []\<close> less.prems(3) q(1) inc r(1,2) s3(1) iso show ?thesis by simp
      next
        case True
        then obtain c3 where c3: "s_heap s3 p = Some c3" using loop_inv_lookup [OF _ less.prems(2)] s3(2) by metis
        have "isolated p s3 s'" if "c_awaiting_writable c3"
          using that eq False less.prems(3) q(1) inc r(1,2) s3(1) True c3
          by (auto simp: bind_eq_Some_conv same_on_def intro: isolated_put)
        moreover have "isolated p s3 s'" if "\<not> c_awaiting_writable c3"
          using less.hyps [OF _ _ less.prems(2) c3 that, of "drop n data"] that q(3) less.prems(3,5) False s3 True
            eq q(1) inc r(1,2) c3 by simp
        ultimately show ?thesis using isolated_trans [OF iso] by blast
      qed
    qed
  qed
qed

lemma readable_isolated:
  assumes "loop_inv (cfg, qs, base) {} ps s" "p \<in> set ps" "s_heap s p = Some c" "\<not> c_awaiting_writable c"
    "handle_client_readable p s = Some s'"
  shows "isolated p s s'"
  using assms
proof (induction "length (k_reads (s_kernel s))" arbitrary: s c qs rule: less_induct)
  case less
  obtain ans k1 where r: "sys_read READ_CHUNK_SIZE (s_kernel s) = (ans, k1)" by fastforce
  note eq = less.prems(5) [unfolded handle_client_readable.simps [of p s]]
  note fr = sys_read_frame [OF r]
  obtain t k2 where t: "sys_time k1 = (t, k2)" by fastforce
  have wf: "wf_conn c" "settled c" using less.prems(1,3) by (auto simp: loop_inv_def)
  have "same_on fds (s_kernel s) k1" for fds
    using r by (auto simp: sys_read_def same_on_def split: list.splits read_answer.splits)
  then have k: "same_on (apart p s) (s_kernel s) k1" "same_on (apart p s) (s_kernel s) k2"
    using same_on_trans same_on_talk [OF same_talk_frames(4) [OF t]] by blast+
  let ?s1 = "put_conn p c k1 s" and ?c = "c\<lparr>c_last_activity := t\<rparr>"
  let ?s2 = "put_conn p ?c k2 s"
  have inv1: "loop_inv (cfg, queues_of k1, base) {} ps ?s1"
    using fr wf by (intro loop_inv_put_same [OF less.prems(1,3)]) simp_all
  have inv2: "loop_inv (cfg, queues_of k2, base) {} ps ?s2"
    using fr wf sys_time_frame [OF t] by (intro loop_inv_put_same [OF less.prems(1,3)]) (simp_all add: settled_def)
  show ?case
  proof (cases ans)
    case (Read_error e)
    then have "isolated p ?s1 s'" using eq r fr less.prems(3) less.hyps [OF _ inv1 less.prems(2) _ less.prems(4)]
      by (auto split: if_splits intro: isolated_close)
    then show ?thesis using k(1) by (rule isolated_put_left)
  next
    case (Data buf)
    show ?thesis
    proof (cases "buf = []")
      case True
      with eq r Data less.prems(3) k(1) show ?thesis by (auto intro: isolated_closed_put)
    next
      case False
      have len: "length buf \<le> READ_CHUNK_SIZE" using fr Data by simp
      have aw: "s_heap ?s2 p = Some ?c" "\<not> c_awaiting_writable ?c" using less.prems(4) by simp_all
      obtain alive s3 where s3: "process_input p buf ?s2 = Some (alive, s3)"
        "loop_inv (cfg, queues_of k2, base) {} (if alive then ps else remove1 p ps) s3"
        using process_input_inv [OF inv2 less.prems(2) aw len] by (auto simp: handled_def)
      have iso: "isolated p s s3"
        using process_input_isolated [OF inv2 less.prems(2) aw len s3(1)] k(2) by (rule isolated_put_left)
      have reads: "length (k_reads (s_kernel s3)) < length (k_reads (s_kernel s))"
        using s3(2) fr Data sys_time_frame [OF t] by (simp add: loop_inv_def queues_of_def)
      have "isolated p s3 s'"
      proof (cases alive)
        case True
        then obtain c3 where c3: "s_heap s3 p = Some c3" using loop_inv_lookup [OF _ less.prems(2)] s3(2) by metis
        have "(if c_awaiting_writable c3 then Some s3 else handle_client_readable p s3) = Some s'"
          using eq r Data False less.prems(3) t s3(1) True c3 by simp
        moreover have "loop_inv (cfg, queues_of k2, base) {} ps s3" using s3(2) True by simp
        ultimately show ?thesis using less.hyps [OF reads _ less.prems(2) c3] by (cases "c_awaiting_writable c3") simp_all
      qed (use eq r Data False less.prems(3) t s3 in simp)
      with iso show ?thesis by (rule isolated_trans)
    qed
  qed
qed

lemma writable_isolated:
  assumes inv: "loop_inv (cfg, qs, base) {} ps s" "p \<in> set ps" and c: "s_heap s p = Some c" "c_awaiting_writable c"
    and run: "flush_pending_write p s = Some s'"
  shows "isolated p s s'"
proof -
  have wf: "wf_conn c" "settled c" and qs: "queues_of (s_kernel s) = qs" using inv(1) c(1) by (auto simp: loop_inv_def)
  obtain res c1 k1 where f: "try_flush_response c (s_kernel s) = Some (res, c1, k1)" "wf_conn c1" "owned c1 = owned c"
    "c_prev c1 = c_prev c" "c_next c1 = c_next c" "k_fds k1 = k_fds (s_kernel s)" "queues_of k1 = qs"
    using flush_keeps [OF wf(1), of "s_kernel s"] qs by metis
  have "c_fd c \<notin> apart p s" using apart_own(1) [OF inv(1) c(1)] by (auto simp: owned_def)
  note k1 = flush_same_on(1) [OF f(1) wf(1) this]
  show ?thesis
  proof (cases "res = Flushed")
    case False
    then show ?thesis using run c(1) f(1) k1
      by (cases res) (auto simp: flush_pending_write_def intro: isolated_closed_put isolated_put)
  next
    case True
    have inv1: "loop_inv (cfg, qs, base) {p} ps (put_conn p c1 k1 s)"
      by (rule loop_inv_put_same [OF inv(1) c(1) f(4,5,2) _ _ f(7,6,3)]) simp_all
    obtain alive s2 where s2: "finish_after_response_sent p (put_conn p c1 k1 s) = Some (alive, s2)"
      "loop_inv (cfg, qs, base) {} (if alive then ps else remove1 p ps) s2"
      using finish_inv [OF inv1 inv(2)] by (auto simp: handled_def)
    have iso: "isolated p s s2" by (rule isolated_put_left [OF finish_isolated [OF s2(1) _ f(2)] k1]) simp
    have "isolated p s2 s'"
    proof (cases alive)
      case True
      then obtain c2 where c2: "s_heap s2 p = Some c2" "\<not> c_awaiting_writable c2" 
        using finish_not_waiting [of p "put_conn p c1 k1 s" s2] s2(1) by auto
      let ?c = "c2\<lparr>c_pending_input_len := 0\<rparr>" and ?data = "stash_of c2"
      let ?s = "put_conn p ?c (s_kernel s2) s2"
      have inv2: "loop_inv (cfg, qs, base) {} ps s2" using s2(2) True by simp
      then have wf2: "wf_conn c2" "settled c2" using c2 by (auto simp: loop_inv_def)
      have invs: "loop_inv (cfg, qs, base) {} ps ?s"
        using wf2 inv2 by (intro loop_inv_put_same [OF inv2 c2(1)]) (simp_all add: wf_conn_def settled_def loop_inv_def)
      have len: "length ?data \<le> READ_CHUNK_SIZE" using wf2 by (simp add: wf_conn_def stash_of_def)
      have "isolated p s2 s''" if "process_input p ?data ?s = Some (a, s'')" for a s''
        by (rule isolated_put_left [OF process_input_isolated [OF invs inv(2) _ _ len that, where c = ?c]])
           (use c2(2) in \<open>simp_all add: same_on_def\<close>)
      with run c(1) f(1) \<open>res = Flushed\<close> s2(1) True c2(1) show ?thesis
        by (auto simp: flush_pending_write_def bind_eq_Some_conv stash_of_def split: if_splits)
    qed (use run c(1) f(1) \<open>res = Flushed\<close> s2(1) in \<open>simp add: flush_pending_write_def\<close>)
    with iso show ?thesis by (rule isolated_trans)
  qed
qed

lemma event_isolated:
  assumes inv: "loop_inv (cfg, qs, base) {} ps s" "p \<in> set ps"
    and run: "handle_event \<lparr>ev_source = Conn p, ev_error = err\<rparr> s = Some (ctl, s')"
  shows "isolated p s s'"
proof -
  obtain c where c: "s_heap s p = Some c" using loop_inv_lookup [OF inv] by blast
  from run c show ?thesis
    by (cases rule: conn_event_cases) (rule isolated_close writable_isolated [OF inv c] readable_isolated [OF inv c]; assumption)+
qed

section \<open>Every connection in dialogue\<close>

text \<open>
  The history of a connection: the look-ups of the file system that were made for it, and the
  octets it has received. The map \<open>h\<close> gives the history of each connection.
\<close>

type_synonym history = "view list \<times> string"

definition talks :: "static_root \<Rightarrow> int \<Rightarrow> (nat \<Rightarrow> history) \<Rightarrow> server \<Rightarrow> bool" where
  "talks g w h s \<longleftrightarrow> (\<forall>p c. s_heap s p = Some c \<longrightarrow> dialogue g w (fst (h p)) (snd (h p)) c (s_kernel s))"

lemmas dialogue_parts = dialogue_def backed_def to_send_def conn_wire_def response_pending_def head_pending_def body_pending_def stash_of_def

lemma dialogue_data:
  assumes "conn_data c' = conn_data c" "same_on (owned c) k k'"
  shows "dialogue g w views input c' k' = dialogue g w views input c k"
proof -
  have "dialogue g w views input (conn_data d) k' = dialogue g w views input d k'" for d
    by (simp add: dialogue_parts conn_data_def)
  from this [of c'] this [of c] have "dialogue g w views input c' k' = dialogue g w views input c k'" unfolding assms(1) by simp
  also have "k_wire k' (c_fd c) = k_wire k (c_fd c)" "0 \<le> c_file_fd c \<Longrightarrow> k_content k' (c_file_fd c) = k_content k (c_file_fd c)"
    using assms(2) by (auto simp: same_on_def owned_def)
  then have "dialogue g w views input c k' = dialogue g w views input c k" by (simp add: dialogue_parts)
  finally show ?thesis .
qed

lemma isolated_dialogue:
  assumes "isolated p s s'" "q \<noteq> p" "s_heap s' q = Some c'"
  obtains c where "s_heap s q = Some c" "c_fd c' = c_fd c"
    "\<And>g w views input. dialogue g w views input c' (s_kernel s') = dialogue g w views input c (s_kernel s)"
proof -
  have "heap_data (s_heap s) q = heap_data (s_heap s') q" using assms(1,2) by (simp add: isolated_def)
  then obtain c where c: "s_heap s q = Some c" "conn_data c' = conn_data c" 
    using heap_data_eqD [of "s_heap s" q "s_heap s'" c'] assms(3) by metis
  then have "owned c \<subseteq> apart p s" using assms(2) owned_at_some [OF c(1)] by (auto simp: apart_def)
  then have "same_on (owned c) (s_kernel s) (s_kernel s')" using assms(1) by (auto simp: isolated_def same_on_def)
  from dialogue_data [OF c(2) this] c show thesis using conn_data_sel(1) by (intro that [of c]) metis+
qed

lemma talks_isolated:
  assumes "talks g w h s" "isolated p s s'" "\<And>c. s_heap s' p = Some c \<Longrightarrow> dialogue g w views input c (s_kernel s')"
  shows "talks g w (h(p := (views, input))) s'"
  unfolding talks_def
proof (intro allI impI)
  fix q c' assume c': "s_heap s' q = Some c'"
  let ?h = "h(p := (views, input))"
  show "dialogue g w (fst (?h q)) (snd (?h q)) c' (s_kernel s')"
  proof (cases "q = p")
    case False
    obtain c where "s_heap s q = Some c" "\<And>g w views input. dialogue g w views input c' (s_kernel s') = dialogue g w views input c (s_kernel s)"
      using isolated_dialogue [OF assms(2) False c'] by metis
    with assms(1) False show ?thesis by (simp add: talks_def)
  qed (use assms(3) c' in simp)
qed

lemma talks_kernel: "talks g w h s \<Longrightarrow> same_talk (s_kernel s) k \<Longrightarrow> talks g w h (s\<lparr>s_kernel := k\<rparr>)"
  using dialogue_data [OF refl same_on_talk] by (fastforce simp: talks_def)

lemma talks_close: "talks g w h s \<Longrightarrow> close_connection p s = Some s' \<Longrightarrow> talks g w h s'"
  using talks_isolated [of g w h s p s' "fst (h p)" "snd (h p)"] isolated_close close_connection_talk [of p s s'] by simp

lemma talks_sweep:
  assumes "sweep_from now conn s = Some s'" "talks g w h s"
  shows "talks g w h s'"
proof -
  have "talks g w h s \<longrightarrow> talks g w h s'"
  proof (rule sweep_from.raw_induct [OF _ assms(1)])
    fix sweep now conn s r
    assume IH: "\<And>now conn s r. sweep now conn s = Some r \<Longrightarrow> talks g w h s \<longrightarrow> talks g w h r"
      and "(case conn of None \<Rightarrow> Some s
        | Some p \<Rightarrow> Option.bind (s_heap s p) (\<lambda>c.
            Option.bind (if now - c_last_activity c \<ge> s_idle_timeout_seconds s then close_connection p s else Some s)
              (\<lambda>s1. sweep now (c_next c) s1))) = Some r"
    then show "talks g w h s \<longrightarrow> talks g w h r"
      by (auto simp: bind_eq_Some_conv split: option.splits if_splits dest: talks_close)
  qed
  with assms(2) show ?thesis by simp
qed

lemma talks_sweep_idle: "talks g w h s \<Longrightarrow> sweep_idle_connections s = Some s' \<Longrightarrow> talks g w h s'"
  by (cases "sys_time (s_kernel s)")
     (auto simp: sweep_idle_connections_def dest: same_talk_frames(4) intro: talks_sweep talks_kernel)

section \<open>Accepting\<close>

lemma list_insert_data:
  assumes "list_insert p s = Some s'"
  shows "heap_data (s_heap s') = heap_data (s_heap s) \<and> s_kernel s' = s_kernel s"
proof -
  obtain s1 s2 s3 where "upd_conn p (\<lambda>c. c\<lparr>c_prev := None\<rparr>) s = Some s1"
    "upd_conn p (\<lambda>c. c\<lparr>c_next := s_connections s\<rparr>) s1 = Some s2"
    "(case s_connections s2 of None \<Rightarrow> Some s2 | Some q \<Rightarrow> upd_conn q (\<lambda>c. c\<lparr>c_prev := Some p\<rparr>) s2) = Some s3"
    "s' = s3\<lparr>s_connections := Some p\<rparr>"
    using assms by (auto simp: list_insert_def bind_eq_Some_conv)
  then show ?thesis by (cases "s_connections s2") (auto dest!: upd_links)
qed

lemma loop_inv_same_on:
  assumes "loop_inv (cfg, qs, base) X ps s" "same_on (k_fds (s_kernel s)) k k'"
  shows "same_on (owned_at s q) k k'" "same_on (apart p s) k k'"
proof -
  have "fd_inv base (owned_at s) (k_fds (s_kernel s))" using assms(1) by (simp add: loop_inv_def)
  from fd_inv_owned [OF this] have "owned_at s q \<subseteq> k_fds (s_kernel s)" "apart p s \<subseteq> k_fds (s_kernel s)"
    by (auto simp: apart_def)
  then show "same_on (owned_at s q) k k'" "same_on (apart p s) k k'" using assms(2) by (auto simp: same_on_def)
qed

lemma talks_kernel_on:
  assumes "loop_inv (cfg, qs, base) X ps s" "talks g w h s" "same_on (k_fds (s_kernel s)) (s_kernel s) k"
  shows "talks g w h (s\<lparr>s_kernel := k\<rparr>)"
  unfolding talks_def
proof (intro allI impI)
  fix p c assume "s_heap (s\<lparr>s_kernel := k\<rparr>) p = Some c"
  then have c: "s_heap s p = Some c" by simp
  then have "same_on (owned c) (s_kernel s) k" using loop_inv_same_on(1) [OF assms(1,3)] owned_at_some by metis
  with assms(2) c dialogue_data [OF refl this] show "dialogue g w (fst (h p)) (snd (h p)) c (s_kernel (s\<lparr>s_kernel := k\<rparr>))"
    by (simp add: talks_def)
qed

lemma accepted_talks:
  assumes inv: "loop_inv (cfg, qs, base) {} ps s" and talks: "talks g w h s" and new: "s_heap s p = None" "h p = ([], [])"
    and k: "same_on (k_fds (s_kernel s)) (s_kernel s) k" "k_wire k fd = []"
    and ins: "list_insert p (put_conn p (new_connection fd t) k s) = Some s1"
  shows "talks g w h s1"
proof -
  note d = list_insert_data [OF ins]
  have iso: "isolated p s s1"
    using isolated_put [OF loop_inv_same_on(2) [OF inv k(1)], of p "new_connection fd t"] d by (simp add: isolated_def)
  have "dialogue g w [] [] c (s_kernel s1)" if c: "s_heap s1 p = Some c" for c
  proof -
    have "conn_data c = conn_data (new_connection fd t)" using d c by (auto simp: heap_data_def fun_eq_iff dest: spec [of _ p])
    then show ?thesis using d dialogue_data [of c "new_connection fd t" k k g w "[]" "[]"] new_connection_dialogue [OF k(2)]
      by (simp add: same_on_def)
  qed
  then have "talks g w (h(p := ([], []))) s1" by (rule talks_isolated [OF talks iso])
  then show ?thesis using new(2) by (simp add: fun_upd_idem)
qed

text \<open>A new connection is linked and registered; if epoll refuses it, it is closed again.\<close>

lemma registered_talks:
  assumes inv: "loop_inv (cfg, qs, base) {} ps s" and talks: "talks g w h s" and new: "s_heap s p = None" "h p = ([], [])"
    and fd: "0 \<le> fd" "fd \<notin> k_fds (s_kernel s)" "k_fds k = insert fd (k_fds (s_kernel s))"
    and k: "same_on (k_fds (s_kernel s)) (s_kernel s) k" "k_wire k fd = []"
  obtains s1 ok k4 s3 ps3 where "list_insert p (put_conn p (new_connection fd t) k s) = Some s1"
    "sys_epoll_ctl (s_kernel s1) = (ok, k4)"
    "(if ok then Some (s1\<lparr>s_kernel := k4\<rparr>) else close_connection p (s1\<lparr>s_kernel := k4\<rparr>)) = Some s3"
    "loop_inv (cfg, queues_of k, base) {} ps3 s3" "talks g w h s3" "dom (s_heap s) \<subseteq> dom (s_heap s3)"
proof -
  obtain s1 where s1: "list_insert p (put_conn p (new_connection fd t) k s) = Some s1"
    "loop_inv (cfg, queues_of k, base) {} (p # ps) s1" "s_kernel s1 = k"
    using insert_new_inv [OF inv new(1) fd(1,2), of k t] fd(3) by auto
  obtain ok k4 where ok: "sys_epoll_ctl (s_kernel s1) = (ok, k4)" by fastforce
  note fc = sys_ctl_frame [OF ok]
  let ?s2 = "s1\<lparr>s_kernel := k4\<rparr>"
  have inv2: "loop_inv (cfg, queues_of k, base) {} (p # ps) ?s2"
    using loop_inv_kernel [OF s1(2), of k4] fc s1(3) by simp
  have t2: "talks g w h ?s2"
    using accepted_talks [OF inv talks new k s1(1)] same_talk_frames(5) [OF ok] by (rule talks_kernel)
  have dom: "set ps = dom (s_heap s)" "insert p (set ps) = dom (s_heap ?s2)"
    using loop_inv_live [OF inv] loop_inv_live [OF inv2] by (simp_all add: live_list_def)
  show thesis
  proof (cases ok)
    case True
    then show thesis using inv2 t2 dom by (intro that [OF s1(1) ok, of ?s2 "p # ps"]) auto
  next
    case False
    obtain s3 where s3: "close_connection p ?s2 = Some s3" "loop_inv (cfg, queues_of k, base) {} ps s3"
      using close_connection_inv [OF inv2, of p] by auto
    moreover have "dom (s_heap s3) = set ps" using loop_inv_live [OF s3(2)] by (simp add: live_list_def)
    ultimately show thesis
      using False talks_close [OF t2 s3(1)] dom by (intro that [OF s1(1) ok, of s3 ps]) simp_all
  qed
qed

text \<open>The descriptor a new connection gets is unused: what was sent over those in use stays.\<close>

lemma sys_accept_same_on:
  "sys_accept k = (Accepted fd, k') \<Longrightarrow> same_on (k_fds k) k k' \<and> k_wire k' fd = [] \<and> k_reads k' = k_reads k"
  "sys_accept k = (Accept_error e, k') \<Longrightarrow> same_talk k k'"
  by (auto simp: sys_accept_def same_on_def same_talk_def split: list.splits accept_answer.splits if_splits)

lemma sys_malloc_talk: "sys_malloc heap k = (b, k') \<Longrightarrow> same_talk k k'"
  by (auto simp: sys_malloc_def same_talk_def split: list.splits)

lemma accept_talks:
  assumes "loop_inv (cfg, qs, base) {} ps s" "talks g w h s" "\<And>p. s_heap s p = None \<Longrightarrow> h p = ([], [])"
    "accept_new_connections s = Some s'"
  shows "talks g w h s'"
  using assms
proof (induction "length (k_accepts (s_kernel s))" arbitrary: s qs ps rule: less_induct)
  case less
  obtain ans k1 where a: "sys_accept (s_kernel s) = (ans, k1)" by fastforce
  note fr = sys_accept_frame [OF a]
  note eq = less.prems(4) [unfolded accept_new_connections.simps [of s]]
  show ?case
  proof (cases ans)
    case (Accept_error e)
    then have inv: "loop_inv (cfg, queues_of k1, base) {} ps (s\<lparr>s_kernel := k1\<rparr>)"
      using fr by (intro loop_inv_kernel [OF less.prems(1)]) simp
    have "talks g w h (s\<lparr>s_kernel := k1\<rparr>)"
      using less.prems(2) sys_accept_same_on(2) [of "s_kernel s" e k1] a Accept_error by (intro talks_kernel) simp_all
    with less.hyps [OF _ inv] less.prems(3) eq fr a Accept_error show ?thesis by (auto split: if_splits)
  next
    case (Accepted fd)
    obtain b k2 where b: "sys_malloc (s_heap s) k1 = (b, k2)" by fastforce
    note fb = sys_malloc_frame [OF b]
    have fd: "0 \<le> fd" "fd \<notin> k_fds (s_kernel s)" "k_fds k2 = insert fd (k_fds (s_kernel s))"
      "length (k_accepts k2) < length (k_accepts (s_kernel s))"
      using fr Accepted fb by simp_all
    have k1: "same_on (k_fds (s_kernel s)) (s_kernel s) k1" "k_wire k1 fd = []"
      using sys_accept_same_on(1) [of "s_kernel s" fd k1] a Accepted by simp_all
    note k2 = sys_malloc_talk [OF b]
    show ?thesis
    proof (cases b)
      case None
      let ?s = "s\<lparr>s_kernel := sys_close fd k2\<rparr>"
      have inv: "loop_inv (cfg, queues_of (sys_close fd k2), base) {} ps ?s"
        using fd by (intro loop_inv_kernel [OF less.prems(1)]) (simp add: sys_close_def)
      have "same_on (k_fds (s_kernel s)) (s_kernel s) (sys_close fd k2)"
        using same_on_trans [OF k1(1) same_on_talk [OF same_talk_trans [OF k2 same_talk_frames(3)]]] .
      from talks_kernel_on [OF less.prems(1,2) this]
      show ?thesis using less.hyps [OF _ inv] less.prems(3) eq a Accepted b None fd(4) by (simp add: sys_close_def)
    next
      case (Some p)
      then have free: "s_heap s p = None" using fb by simp
      obtain t k3 where t: "sys_time k2 = (t, k3)" by fastforce
      note ft = sys_time_frame [OF t]
      have k3: "same_talk k1 k3" using k2 same_talk_frames(4) [OF t] by (rule same_talk_trans)
      have "k_fds k3 = insert fd (k_fds (s_kernel s))" "k_wire k3 fd = []"
        using fd(3) ft k1(2) k3 by (simp_all add: same_talk_def)
      then obtain s1 ok k4 s3 ps3 where s3: "list_insert p (put_conn p (new_connection fd t) k3 s) = Some s1"
        "sys_epoll_ctl (s_kernel s1) = (ok, k4)"
        "(if ok then Some (s1\<lparr>s_kernel := k4\<rparr>) else close_connection p (s1\<lparr>s_kernel := k4\<rparr>)) = Some s3"
        "loop_inv (cfg, queues_of k3, base) {} ps3 s3" "talks g w h s3" "dom (s_heap s) \<subseteq> dom (s_heap s3)"
        using registered_talks [OF less.prems(1,2) free less.prems(3) [OF free] fd(1,2) _
            same_on_trans [OF k1(1) same_on_talk [OF k3]]] by metis
      have "h q = ([], [])" if "s_heap s3 q = None" for q using less.prems(3) that s3(6) by blast
      moreover have "accept_new_connections s3 = Some s'" using eq a Accepted b Some t s3(1-3) by simp
      moreover have "length (k_accepts (s_kernel s3)) < length (k_accepts (s_kernel s))"
        using s3(4) ft fd(4) by (simp add: loop_inv_def queues_of_def)
      ultimately show ?thesis using less.hyps [OF _ s3(4,5)] by blast
    qed
  qed
qed

section \<open>A whole run\<close>

text \<open>
  The history of each connection in a run, by its pointer: the octets of the reads that its events
  consume, and the look-ups that are logged while its events are handled. Accepting gives new
  connections, which have received nothing, unused pointers.
\<close>

definition delivered :: "server \<Rightarrow> server \<Rightarrow> string" where
  "delivered s s' =
     received (take (length (k_reads (s_kernel s)) - length (k_reads (s_kernel s'))) (k_reads (s_kernel s)))"

definition looked_up :: "server \<Rightarrow> server \<Rightarrow> view list" where
  "looked_up s s' = drop (length (k_seen (s_kernel s))) (k_seen (s_kernel s'))"

definition note_event :: "epoll_event \<Rightarrow> server \<Rightarrow> server \<Rightarrow> (nat \<Rightarrow> history) \<Rightarrow> nat \<Rightarrow> history" where
  "note_event ev s s' h =
     (case ev_source ev of
        Conn p \<Rightarrow> h(p := (fst (h p) @ looked_up s s', snd (h p) @ delivered s s'))
      | Listen_fd \<Rightarrow> (\<lambda>q. if s_heap s q = None then ([], []) else h q)
      | _ \<Rightarrow> h)"

fun note_events :: "epoll_event list \<Rightarrow> server \<Rightarrow> (nat \<Rightarrow> history) \<Rightarrow> nat \<Rightarrow> history" where
  "note_events [] s h = h"
| "note_events (ev # evs) s h =
     (case handle_event ev s of
        None \<Rightarrow> h
      | Some (ctl, s1) \<Rightarrow>
          (case ctl of Continue \<Rightarrow> note_events evs s1 (note_event ev s s1 h) | Exit status \<Rightarrow> note_event ev s s1 h))"

fun transcript :: "wait_answer list \<Rightarrow> server \<Rightarrow> (nat \<Rightarrow> history) \<Rightarrow> nat \<Rightarrow> history" where
  "transcript [] s h = h"
| "transcript (Wait_error e # ws) s h = (if e = EINTR then transcript ws s h else h)"
| "transcript (Ready evs # ws) s h =
     (case handle_events evs s of
        None \<Rightarrow> h
      | Some (ctl, s1) \<Rightarrow>
          (case ctl of Continue \<Rightarrow> transcript ws s1 (note_events evs s h) | Exit status \<Rightarrow> note_events evs s h))"

lemma conn_event_talks:
  assumes inv: "loop_inv (cfg, qs, base) {} ps s" "p \<in> set ps" and talks: "talks (s_root s) (s_worker_id s) h s"
    and run: "handle_event \<lparr>ev_source = Conn p, ev_error = err\<rparr> s = Some (ctl, s')"
  shows "talks (s_root s) (s_worker_id s) (h(p := (fst (h p) @ looked_up s s', snd (h p) @ delivered s s'))) s'"
proof -
  obtain c where c: "s_heap s p = Some c" using loop_inv_lookup [OF inv] by blast
  with talks have d: "dialogue (s_root s) (s_worker_id s) (fst (h p)) (snd (h p)) c (s_kernel s)" by (simp add: talks_def)
  obtain used where used: "k_reads (s_kernel s) = used @ k_reads (s_kernel s')"
    "spoken (s_root s) (s_worker_id s) p (c_fd c) (k_seen (s_kernel s)) (fst (h p)) (snd (h p) @ received used) s'"
    using event_heard [OF inv c d run] unfolding heard_def by blast
  from used(1) have del: "delivered s s' = received used" by (simp add: delivered_def)
  obtain new where new: "k_seen (s_kernel s') = k_seen (s_kernel s) @ new"
    "case s_heap s' p of
       Some c' \<Rightarrow> c_fd c' = c_fd c \<and> dialogue (s_root s) (s_worker_id s) (fst (h p) @ new) (snd (h p) @ received used) c' (s_kernel s')
     | None \<Rightarrow> said (s_root s) (s_worker_id s) (fst (h p) @ new) (snd (h p) @ received used) (k_wire (s_kernel s') (c_fd c))"
    using used(2) unfolding spoken_def by blast
  from new(1) have "looked_up s s' = new" by (simp add: looked_up_def)
  with new(2) del show ?thesis by (intro talks_isolated [OF talks event_isolated [OF inv run]]) simp
qed

lemma handle_event_talks:
  assumes inv: "any_inv cfg base ps s" and ev: "epoll_batch (set ps) (ev # evs)"
    and talks: "talks (s_root s) (s_worker_id s) h s" and run: "handle_event ev s = Some (ctl, s')"
  shows "talks (s_root s) (s_worker_id s) (note_event ev s s' h) s'"
proof -
  obtain qs where q: "loop_inv (cfg, qs, base) {} ps s" using inv by (auto simp: any_inv_def)
  show ?thesis
  proof (cases "ev_source ev")
    case (Conn p)
    then have "handle_event \<lparr>ev_source = Conn p, ev_error = ev_error ev\<rparr> s = Some (ctl, s')"
      using run by (cases ev) simp
    moreover have "p \<in> set ps" using Conn ev by (simp add: epoll_batch_def)
    ultimately show ?thesis using Conn conn_event_talks [OF q _ talks] by (simp add: note_event_def)
  next
    case Listen_fd
    let ?h = "\<lambda>q. if s_heap s q = None then ([], []) else h q"
    have t: "talks (s_root s) (s_worker_id s) ?h s" using talks by (auto simp: talks_def)
    then have "talks (s_root s) (s_worker_id s) ?h s'"
      using run Listen_fd accept_talks [OF q t] by (auto simp: handle_event_def is_infrastructure_fd_def continue_def split: if_splits)
    with Listen_fd show ?thesis by (simp add: note_event_def)
  next
    case Timer_fd
    then show ?thesis using talks run talks_sweep_idle
      by (auto simp: handle_event_def is_infrastructure_fd_def continue_def note_event_def split: if_splits)
  next
    case Shutdown_fd
    then show ?thesis using talks run
      by (auto simp: handle_event_def is_infrastructure_fd_def note_event_def split: if_splits)
  qed
qed

lemma any_inv_config: "any_inv cfg base ps s \<Longrightarrow> any_inv cfg base ps' s' \<Longrightarrow> s_root s' = s_root s \<and> s_worker_id s' = s_worker_id s"
  by (auto simp: any_inv_def loop_inv_def config_of_def)

lemma handle_events_talks:
  "any_inv cfg base ps s \<Longrightarrow> epoll_batch (set ps) evs \<Longrightarrow> sweep_spares evs s \<Longrightarrow> talks (s_root s) (s_worker_id s) h s \<Longrightarrow>
   handle_events evs s = Some (ctl, s') \<Longrightarrow> talks (s_root s) (s_worker_id s) (note_events evs s h) s'"
proof (induction evs arbitrary: s ps h)
  case (Cons ev evs)
  obtain ctl1 s1 ps1 where 1: "handle_event ev s = Some (ctl1, s1)" "any_inv cfg base ps1 s1"
    "epoll_batch (set ps1) evs" "ctl1 = Continue \<longrightarrow> sweep_spares evs s1"
    using handle_event_inv [OF Cons.prems(1-3)] by blast
  note t1 = handle_event_talks [OF Cons.prems(1,2,4) 1(1)]
  show ?case
  proof (cases ctl1)
    case Continue
    with Cons.IH [OF 1(2,3)] 1(4) t1 1(1) Cons.prems(5) any_inv_config [OF Cons.prems(1) 1(2)] show ?thesis by simp
  qed (use t1 1(1) Cons.prems(5) in auto)
qed simp

lemma wait_loop_talks:
  "any_inv cfg base ps s \<Longrightarrow> epoll_waits ws s \<Longrightarrow> sweeps_spare ws s \<Longrightarrow> talks (s_root s) (s_worker_id s) h s \<Longrightarrow> wait_loop ws s = Some (ctl, s') \<Longrightarrow>
   talks (s_root s) (s_worker_id s) (transcript ws s h) s'"
proof (induction ws s h arbitrary: ps rule: transcript.induct)
  case (3 evs ws s h)
  have dom: "dom (s_heap s) = set ps" using any_inv_live [OF 3(2)] by (simp add: live_list_def)
  then obtain ctl1 s1 ps1 where 1: "handle_events evs s = Some (ctl1, s1)" "any_inv cfg base ps1 s1"
    using handle_events_inv [OF 3(2), of evs] 3(3,4) by auto
  have t1: "talks (s_root s) (s_worker_id s) (note_events evs s h) s1"
    using handle_events_talks [OF 3(2) _ _ 3(5) 1(1)] 3(3,4) dom by simp
  show ?case
  proof (cases ctl1)
    case Continue
    with 3(1) [OF 1(1) refl Continue 1(2)] t1 1(1) 3(3,4,6) any_inv_config [OF 3(2) 1(2)] show ?thesis by simp
  qed (use t1 1(1) 3(6) in auto)
qed (auto split: if_splits)

lemma run_dialogue:
  assumes "event_loop_setup config su root k = Inr s" "wf_root root" "\<bar>cfg_worker_id config\<bar> < 2 ^ 31"
    "epoll_waits ws s" "sweeps_spare ws s" "wait_loop ws s = Some (ctl, s')" "s_heap s' p = Some c"
    "transcript ws s (\<lambda>q. ([], [])) p = (views, input)"
  shows "dialogue root (cfg_worker_id config) views input c (s_kernel s')"
proof -
  have s: "s_heap s = Map.empty" "s_root s = root" "s_worker_id s = cfg_worker_id config"
    using event_loop_setup_ok [where config = config and su = su and root = root and k = k] assms(1) by simp_all
  then have "talks (s_root s) (s_worker_id s) (\<lambda>q. ([], [])) s" by (simp add: talks_def)
  from wait_loop_talks [OF setup_inv [OF assms(1-3)] assms(4,5) this assms(6)]
  have "talks root (cfg_worker_id config) (transcript ws s (\<lambda>q. ([], []))) s'" unfolding s .
  with assms(7,8) show ?thesis unfolding talks_def by (metis fst_conv snd_conv)
qed

section \<open>Properties\<close>

text \<open>
  C27. Connections are isolated. Handling an event of one connection, whatever its client sends and
  the kernel answers, leaves every other connection as it is, but for its place in the list: its
  parser, its buffers and its progress, what was sent over its socket, and the file it sends.
\<close>

theorem connections_isolated:
  assumes "any_inv cfg base ps s" "p \<in> set ps" "q \<noteq> p"
    "handle_event \<lparr>ev_source = Conn p, ev_error = err\<rparr> s = Some (ctl, s')"
  shows "heap_data (s_heap s') q = heap_data (s_heap s) q \<and>
    (\<forall>fd. fd \<in> owned_at s q \<longrightarrow>
       k_wire (s_kernel s') fd = k_wire (s_kernel s) fd \<and> k_content (s_kernel s') fd = k_content (s_kernel s) fd)"
proof -
  obtain qs where "loop_inv (cfg, qs, base) {} ps s" using assms(1) by (auto simp: any_inv_def)
  from event_isolated [OF this assms(2,4)] assms(3) show ?thesis by (auto simp: isolated_def same_on_def apart_def)
qed

theorem connections_isolated_witness:
  "\<exists>ctl s'. handle_event \<lparr>ev_source = Conn 2, ev_error = False\<rparr> demo_talker = Some (ctl, s') \<and>
     heap_data (s_heap s') 1 = heap_data (s_heap demo_talker) 1 \<and> k_wire (s_kernel s') 5 = []"
proof -
  obtain ctl s' where s': "handle_event \<lparr>ev_source = Conn 2, ev_error = False\<rparr> demo_talker = Some (ctl, s')"
    using handle_event_inv [OF demo_talker_inv, of "\<lparr>ev_source = Conn 2, ev_error = False\<rparr>" "[]"]
    by (auto simp: epoll_batch_def simp del: sweep_spares.simps)
  have "5 \<in> owned_at demo_talker 1" "k_wire (s_kernel demo_talker) 5 = []"
    by (simp_all add: demo_talker_def demo_server_def owned_at_def owned_def demo_conn_def demo_kernel_def put_conn_def)
  with connections_isolated [OF demo_talker_inv _ _ s', of 1] s' show ?thesis by auto
qed

end
