(* ===== verification/End_To_End.thy ===== *)
theory End_To_End
  imports Request_Grammar Isolation
begin

text \<open>
  From the octets of a client to the octets it receives. The answer to a request is specified over
  the request itself and the file system its look-up was shown, without the parser, the buffers and
  the loop: the route its path and method select, and the text of the response. A client that
  pipelines requests receives these answers.
\<close>

section \<open>The answer to a request\<close>

definition keeps_alive :: "http_request \<Rightarrow> bool" where
  "keeps_alive q \<longleftrightarrow>
     (case request_directive (q_headers q) of
        HTTP_CONN_CLOSE \<Rightarrow> False
      | HTTP_CONN_KEEPALIVE \<Rightarrow> True
      | HTTP_CONN_UNSPECIFIED \<Rightarrow> digit_val (q_version q ! 5) = 1 \<and> digit_val (q_version q ! 7) \<ge> 1)"

definition greeting :: "http_request \<Rightarrow> string \<Rightarrow> routed_response" where
  "greeting q body =
     (if q_method q = ''GET'' then simple_response 200 ''OK'' body None else method_not_allowed)"

definition file_answer :: "http_request \<Rightarrow> static_file_result \<Rightarrow> static_file \<Rightarrow> routed_response" where
  "file_answer q res f =
     (case res of
        STATIC_FILE_INVALID_PATH \<Rightarrow> simple_response 400 ''Bad Request'' ''Bad Request'' None
      | STATIC_FILE_NOT_FOUND \<Rightarrow> simple_response 404 ''Not Found'' ''Not Found'' None
      | STATIC_FILE_OK \<Rightarrow>
          if q_method q = ''GET''
          then \<lparr>resp_status = 200, resp_reason = ''OK'', resp_body = None, resp_content_type = f_content_type f,
                resp_extra_header = None, resp_file = f\<rparr>
          else method_not_allowed)"

text \<open>
  The routes: two greetings, and the files below the document root, as the file system \<open>fs\<close> shows
  them: the name the path stands for (\<open>spec_resolve\<close>) is opened and checked (\<open>spec_open\<close>).
\<close>

definition route_of :: "static_root \<Rightarrow> fs_view \<Rightarrow> http_request \<Rightarrow> routed_response" where
  "route_of g fs q =
     (let path = takeWhile (\<lambda>c. c \<noteq> CHR ''?'') (q_path q)
      in if path = ''/'' then greeting q ''Hello from my C server!''
         else if path = ''/hello'' then greeting q ''Hello, hello!''
         else (case spec_resolve (root_of g) (q_path q) of
                 Inl res \<Rightarrow> file_answer q res no_file
               | Inr name \<Rightarrow> (case spec_open (root_of g) fs name {} of (res, f, fds) \<Rightarrow> file_answer q res f)))"

text \<open>
  The octets that answer a request, given the file system and the content of the file that its
  look-up was shown; the content is as long as the file system says.
\<close>

definition answer_to :: "static_root \<Rightarrow> int \<Rightarrow> http_request \<times> view \<Rightarrow> string \<Rightarrow> bool" where
  "answer_to g w = (\<lambda>(q, fs, content) out.
     wf_response (route_of g fs q) \<and> whole (route_of g fs q) content \<and>
     response_octets (route_of g fs q) content (keeps_alive q) w = Some out)"

lemma spec_open_table: "spec_open root fs p fds = (res, f, fds') \<Longrightarrow> \<exists>fds''. spec_open root fs p {} = (res, f, fds'')"
  by (auto simp: spec_open_def split: option.splits bool.splits if_splits)

lemma spec_classify_get: "spec_classify m = HTTP_METHOD_GET \<longleftrightarrow> m = ''GET''"
  by (auto simp: spec_classify_def known_methods_def split: if_splits)

lemma parsed_fields:
  assumes "parsed_as q (abs_parser p)"
  shows "request_path p = q_path q" "p_method_id p = HTTP_METHOD_GET \<longleftrightarrow> q_method q = ''GET''"
    "http_parser_should_keep_alive p = keeps_alive q"
  using assms by (auto simp: parsed_as_def line_parsed_def request_path_def spec_classify_get keeps_alive_def
      http_parser_should_keep_alive_def split: http_connection_directive.splits)

lemma route_request_route_of:
  assumes "wf_root g" "wf_parser p" "parsed_as q (abs_parser p)" "route_request g fs fds p = Some (r, fds')"
  shows "r = route_of g fs q"
proof -
  note f = parsed_fields [OF assms(3)]
  have same: "builtin_route p body = greeting q body" "fst (static_route p (res, sf, open_fds)) = file_answer q res sf"
    for body res sf open_fds
    using f(2) by (auto simp: builtin_route_def greeting_def static_route_def file_answer_def split: static_file_result.split)
  have path: "NUL \<notin> set (q_path q)" using wf_parser_path(2) [OF assms(2)] f(1) by simp
  have "r = (case spec_resolve (root_of g) (q_path q) of
       Inl res \<Rightarrow> file_answer q res no_file
     | Inr name \<Rightarrow> (case spec_open (root_of g) fs name {} of (res, sf, fds) \<Rightarrow> file_answer q res sf))"
    if "map_option (static_route p) (static_file_open g fs (q_path q) fds) = Some (r, fds')"
  proof (cases "spec_resolve (root_of g) (q_path q)")
    case (Inl res)
    with that same(2) [of res no_file fds] show ?thesis by (simp add: static_file_open_spec [OF assms(1) path] prod_eq_iff)
  next
    case (Inr name)
    obtain res sf fds1 where o: "spec_open (root_of g) fs name fds = (res, sf, fds1)" by (metis prod.exhaust)
    obtain fds2 where o2: "spec_open (root_of g) fs name {} = (res, sf, fds2)" using spec_open_table [OF o] by blast
    have "static_route p (res, sf, fds1) = (r, fds')"
      using that Inr o by (simp add: static_file_open_spec [OF assms(1) path])
    with same(2) [of res sf fds1] o2 Inr show ?thesis by simp
  qed
  then show ?thesis
    using assms(4) f(1) same(1) unfolding route_request_spec [OF assms(2)] route_of_def Let_def route_path_def
    by (simp split: if_splits)
qed

lemma answers_routed:
  assumes "answers g w views p HTTP_PARSE_COMPLETE out keep True" "wf_root g" "wf_parser p" "parsed_as q (abs_parser p)"
  shows "\<exists>v. views = [v] \<and> answer_to g w (q, v) out"
proof -
  obtain r content fs fds where r: "keep = http_parser_should_keep_alive p" "response_octets r content keep w = Some out"
    "route_request g fs fds p = Some (r, fds \<union> file_fds (resp_file r))" "wf_response r" "whole r content"
    "views = [(fs, content)]"
    using assms(1) by (auto simp: answers_def)
  have "keep = keeps_alive q" using r(1) parsed_fields(3) [OF assms(4)] by simp
  with r route_request_route_of [OF assms(2-4) r(3)] show ?thesis by (simp add: answer_to_def)
qed

section \<open>Pipelined requests\<close>

lemma request_answered:
  assumes "valid_request q" "http_parser_execute http_parser_init (render_request q @ rest) = Some (p, result, n)"
    "answers g w v p result out keep True" "wf_root g"
  shows "\<exists>x. v = [x] \<and> answer_to g w (q, x) out" "drop n (render_request q @ rest) = rest"
proof -
  obtain p' where "http_parser_execute http_parser_init (render_request q @ rest) =
      Some (p', HTTP_PARSE_COMPLETE, length (render_request q))" "parsed_as q (abs_parser p')"
    using execute_request [OF assms(1), of rest] by blast
  with assms(2) have p: "result = HTTP_PARSE_COMPLETE" "n = length (render_request q)" "parsed_as q (abs_parser p)" by simp_all
  have "wf_parser p" using http_parser_execute_wf [OF wf_parser_init assms(2)] by simp
  then show "\<exists>x. v = [x] \<and> answer_to g w (q, x) out" using answers_routed assms(3,4) p by blast
  show "drop n (render_request q @ rest) = rest" using p(2) by simp
qed

lemma replies_pipelined:
  assumes "replies g w views input out rest closing full" "\<not> closing" full
    "http_parser_execute http_parser_init rest = Some (p, HTTP_PARSE_INCOMPLETE, length rest)"
    "input = concat (map render_request reqs)" "list_all (\<lambda>q. valid_request q \<and> keeps_alive q) reqs" "wf_root g"
  shows "length views = length reqs \<and> (\<exists>outs. out = concat outs \<and> list_all2 (answer_to g w) (zip reqs views) outs)"
  using assms
proof (induction arbitrary: reqs rule: replies.induct)
  case (nothing input)
  show ?case
  proof (cases reqs)
    case (Cons q qs)
    with nothing.prems execute_request [of q "concat (map render_request qs)"] show ?thesis by auto
  qed simp
next
  case (answered input parser result n v out views outs rest closing full)
  show ?case
  proof (cases reqs)
    case Nil
    with answered.hyps(1,2) answered.prems(4) parsed_init show ?thesis by simp
  next
    case (Cons q qs)
    then have input: "input = render_request q @ concat (map render_request qs)" "valid_request q"
      using answered.prems(4,5) by simp_all
    note a = request_answered [OF input(2) answered.hyps(1) [unfolded input(1)] answered.hyps(3) answered.prems(6)]
    then obtain x where x: "v = [x]" "answer_to g w (q, x) out" by blast
    from a answered.IH [OF answered.prems(1-3), of qs] answered.prems(5,6) Cons input(1) obtain outs' where
      "length views = length qs" "outs = concat outs'" "list_all2 (answer_to g w) (zip qs views) outs'" by auto
    with x Cons show ?thesis by (intro conjI exI [of _ "out # outs'"]) simp_all
  qed
next
  case (last input parser result n v out keep full)
  show ?case
  proof (cases reqs)
    case Nil
    with last.hyps(1,2) last.prems(4) parsed_init show ?thesis by simp
  next
    case (Cons q qs)
    then have input: "input = render_request q @ concat (map render_request qs)" "valid_request q"
      using last.prems(4,5) by simp_all
    have full: keep full using last.prems(1,2) by simp_all
    have ans: "answers g w v parser result out keep True" using last.hyps(3) full by simp
    note a = request_answered [OF input(2) last.hyps(1) [unfolded input(1)] ans last.prems(6)]
    then obtain x where x: "v = [x]" "answer_to g w (q, x) out" by blast
    have "qs = []"
    proof (cases qs)
      case (Cons q' qs')
      with execute_request [of q' "concat (map render_request qs')"] last.prems(3,5) a input(1) full \<open>reqs = q # qs\<close>
      show ?thesis by auto
    qed
    with x Cons show ?thesis by (intro conjI exI [of _ "[out]"]) simp_all
  qed
qed

section \<open>What the client reads\<close>

text \<open>
  A client reads a head and then as many octets as its \<^verbatim>\<open>Content-Length\<close> says, and so on
  for each response it expects.
\<close>

definition read_response :: "string \<Rightarrow> (string list \<times> string \<times> string) option" where
  "read_response s =
     (case read_head s of
        None \<Rightarrow> None
      | Some (ls, b) \<Rightarrow>
          (case field_values ''Content-Length'' ls of
             [n] \<Rightarrow> if is_number n \<and> parse_decimal 0 n \<le> length b
                    then Some (ls, take (parse_decimal 0 n) b, drop (parse_decimal 0 n) b) else None
           | _ \<Rightarrow> None))"

fun read_responses :: "nat \<Rightarrow> string \<Rightarrow> ((string list \<times> string) list \<times> string) option" where
  "read_responses 0 s = Some ([], s)"
| "read_responses (Suc n) s =
     (case read_response s of
        None \<Rightarrow> None
      | Some (ls, body, rest) \<Rightarrow> map_option (\<lambda>(rs, rest'). ((ls, body) # rs, rest')) (read_responses n rest))"

text \<open>
  A response that was read belongs to a request: it has the status, the connection field and the
  body of the response its method and path select; of a file, the octets the look-up was shown, as
  many as the file system said.
\<close>

definition response_for :: "static_root \<Rightarrow> http_request \<times> view \<Rightarrow> string list \<times> string \<Rightarrow> bool" where
  "response_for g = (\<lambda>(q, fs, content) (ls, body).
     let r = route_of g fs q
     in hd ls = ''HTTP/1.1 '' @ decimal (resp_status r) @ '' '' @ resp_reason r \<and>
        field_values ''Connection'' ls = [conn_value_of (keeps_alive q)] \<and>
        (if 0 \<le> f_fd (resp_file r)
         then int (length body) = f_size (resp_file r) \<and> body = take (length body) content
         else resp_body r = Some body))"

lemma read_lines_response:
  assumes "wf_response r" "resp_content_type r = Some t" "length body = n" "plain_text v"
  shows "read_response (lines_text (response_lines r t (decimal_nat n) v w) @ CRLF @ body @ rest) =
    Some (response_lines r t (decimal_nat n) v w, body, rest)"
proof -
  let ?ls = "response_lines r t (decimal_nat n) v w"
  have "read_head (lines_text ?ls @ CRLF @ body @ rest) = Some (?ls, body @ rest)"
    by (intro read_head_lines response_lines_ok assms plain_decimal_nat)
  then show ?thesis using assms(3) decimal_nat_is_number by (simp add: read_response_def response_lines_fields)
qed

lemma read_answer:
  assumes "answer_to g w (q, v) out"
  shows "\<exists>ls body. read_response (out @ rest) = Some (ls, body, rest) \<and> response_for g (q, v) (ls, body)"
proof -
  obtain fs content where v: "v = (fs, content)" by (metis prod.exhaust)
  define r where "r = route_of g fs q"
  have r: "r = route_of g fs q" "wf_response r" "whole r content" "response_octets r content (keeps_alive q) w = Some out"
    using assms by (simp_all add: answer_to_def v r_def)
  let ?v = "conn_value_of (keeps_alive q)"
  have pv: "plain_text ?v" by (simp add: conn_value_of_def plain_text_def)
  obtain t where t: "resp_content_type r = Some t" using r(2) by (auto simp: wf_response_def)
  show ?thesis
  proof (cases "0 \<le> f_fd (resp_file r)")
    case True
    let ?size = "f_size (resp_file r)"
    have size: "0 \<le> ?size" "?size \<le> int (length content)" using r(2,3) True by (auto simp: wf_response_def whole_def)
    let ?ls = "response_lines r t (decimal_nat (nat ?size)) ?v w" and ?body = "take (nat ?size) content"
    have "out = lines_text ?ls @ CRLF @ ?body"
      using r(4) True size(1) file_head_lines [OF r(2) t True] by (auto simp: response_octets_def head_text_def decimal_nonneg)
    moreover have "length ?body = nat ?size" using size by simp
    ultimately have "read_response (out @ rest) = Some (?ls, ?body, rest)"
      using read_lines_response [OF r(2) t _ pv, of ?body "nat ?size" w rest] by simp
    with True size show ?thesis by (simp add: response_for_def response_lines_fields v r(1) [symmetric] Let_def)
  next
    case False
    then obtain b where b: "resp_body r = Some b" using r(2) by (auto simp: wf_response_def split: if_splits)
    let ?ls = "response_lines r t (decimal_nat (length b)) ?v w"
    have "out = lines_text ?ls @ CRLF @ b"
      using r(4) False response_text_lines [OF r(2) t b] by (auto simp: response_octets_def head_text_def)
    then have "read_response (out @ rest) = Some (?ls, b, rest)"
      using read_lines_response [OF r(2) t refl pv, of b w rest] by simp
    with False b show ?thesis by (simp add: response_for_def response_lines_fields v r(1) [symmetric] Let_def)
  qed
qed

lemma read_answers:
  "list_all2 (answer_to g w) qvs outs \<Longrightarrow>
   \<exists>rs. read_responses (length qvs) (concat outs @ rest) = Some (rs, rest) \<and> list_all2 (response_for g) qvs rs"
proof (induction rule: list_all2_induct)
  case (Cons qv qvs out outs)
  obtain rs where rs: "read_responses (length qvs) (concat outs @ rest) = Some (rs, rest)" "list_all2 (response_for g) qvs rs"
    using Cons.IH by blast
  obtain q v where qv: "qv = (q, v)" by (metis prod.exhaust)
  obtain ls body where "read_response (out @ concat outs @ rest) = Some (ls, body, concat outs @ rest)" "response_for g (q, v) (ls, body)"
    using read_answer [OF Cons.hyps(1) [unfolded qv], of "concat outs @ rest"] by blast
  with rs qv show ?case by (intro exI [of _ "(ls, body) # rs"]) simp
qed simp

lemma pipelined_answers:
  assumes "event_loop_setup config su root k = Inr s" "wf_root root" "\<bar>cfg_worker_id config\<bar> < 2 ^ 31"
    "epoll_waits ws s" "sweeps_spare ws s" "wait_loop ws s = Some (ctl, s')" "s_heap s' p = Some c"
    "\<not> c_awaiting_writable c" "transcript ws s (\<lambda>q. ([], [])) p = (views, concat (map render_request reqs))"
    "list_all (\<lambda>q. valid_request q \<and> keeps_alive q) reqs"
  shows "length views = length reqs \<and>
    (\<exists>outs rs. k_wire (s_kernel s') (c_fd c) = concat outs \<and>
       list_all2 (answer_to root (cfg_worker_id config)) (zip reqs views) outs \<and>
       read_responses (length reqs) (k_wire (s_kernel s') (c_fd c)) = Some (rs, []) \<and>
       list_all2 (response_for root) (zip reqs views) rs)"
proof -
  have "dialogue root (cfg_worker_id config) views (concat (map render_request reqs)) c (s_kernel s')"
    by (rule run_dialogue [OF assms(1-7,9)])
  then obtain rest where rest: "replies root (cfg_worker_id config) views (concat (map render_request reqs)) (conn_wire (c, s_kernel s')) rest False True"
    "http_parser_execute http_parser_init rest = Some (c_parser c, HTTP_PARSE_INCOMPLETE, length rest)"
    using assms(8) by (auto simp: dialogue_def)
  then obtain outs where outs: "k_wire (s_kernel s') (c_fd c) = concat outs" "length views = length reqs"
    "list_all2 (answer_to root (cfg_worker_id config)) (zip reqs views) outs"
    using replies_pipelined [OF rest(1) _ _ rest(2) refl assms(10,2)] by (auto simp: conn_wire_def)
  with read_answers [OF outs(3), of "[]"] show ?thesis by auto
qed


section \<open>Properties\<close>

text \<open>
  C2. The server answers every client, its own requests and in order. Take a run of an event loop
  from its start, with whatever reads, writes, files, times and failures, and whatever batches of
  events, provided that each batch names live connections, each once (what epoll documents), and
  that no timer event comes before an event of a connection that is idle by then (without which the
  code goes wrong, C33). Then every connection that is live at the end is in dialogue about exactly
  what it has received during the run: the octets sent to it and those it is still owed are the
  responses to the complete requests it has sent, each once and in their order, each routed by the
  file system its look-up was shown and, of a file, with the content seen there.
\<close>

theorem server_answers_in_order:
  assumes "event_loop_setup config su root k = Inr s" "wf_root root" "\<bar>cfg_worker_id config\<bar> < 2 ^ 31"
    "epoll_waits ws s" "sweeps_spare ws s" "wait_loop ws s = Some (ctl, s')" "s_heap s' p = Some c"
    "transcript ws s (\<lambda>q. ([], [])) p = (views, input)"
  shows "dialogue root (cfg_worker_id config) views input c (s_kernel s')"
  by (rule run_dialogue [OF assms])

text \<open>
  C1. A client that pipelines well-formed requests is answered. Take a run of an event loop whose
  batches satisfy what epoll documents and whose timer events spare the connections still to be
  handled (as in C2), and a connection that is live at its end and not waiting to write; if the
  octets it has received, in whatever pieces, are those of valid requests that keep the connection
  alive, then one look-up of the file system was made for each of them, and the octets sent to it
  are one response to each, in their order and with nothing in between: the one its method, its path
  and that file system select. A client that reads a head and then as many octets as its
  \<^verbatim>\<open>Content-Length\<close> says finds exactly these responses, and nothing is left over.
\<close>

theorem pipelined_requests_answered:
  assumes "event_loop_setup config su root k = Inr s" "wf_root root" "\<bar>cfg_worker_id config\<bar> < 2 ^ 31"
    "epoll_waits ws s" "sweeps_spare ws s" "wait_loop ws s = Some (ctl, s')" "s_heap s' p = Some c"
    "\<not> c_awaiting_writable c" "transcript ws s (\<lambda>q. ([], [])) p = (views, concat (map render_request reqs))"
    "list_all (\<lambda>q. valid_request q \<and> keeps_alive q) reqs"
  shows "length views = length reqs \<and>
    (\<exists>outs rs. k_wire (s_kernel s') (c_fd c) = concat outs \<and>
       list_all2 (answer_to root (cfg_worker_id config)) (zip reqs views) outs \<and>
       read_responses (length reqs) (k_wire (s_kernel s') (c_fd c)) = Some (rs, []) \<and>
       list_all2 (response_for root) (zip reqs views) rs)"
  by (rule pipelined_answers [OF assms])

section \<open>A sample run\<close>

text \<open>
  A client connects and sends two requests in one piece, for a greeting and for a file; the first
  look-up is shown an empty file system, the second one with the file. The kernel takes the first
  head in one piece.
\<close>

definition hello_request :: http_request where
  "hello_request = \<lparr>q_method = ''GET'', q_path = ''/hello'', q_version = ''HTTP/1.1'', q_headers = []\<rparr>"

definition file_request :: http_request where
  "file_request = \<lparr>q_method = ''GET'', q_path = ''/a.txt'', q_version = ''HTTP/1.1'', q_headers = []\<rparr>"

lemma sample_requests_ok:
  "valid_request hello_request" "keeps_alive hello_request" "valid_request file_request" "keeps_alive file_request"
  by (simp_all add: hello_request_def file_request_def valid_request_def valid_line_def valid_version_def is_method_char_def
      is_path_char_def is_digit_def keeps_alive_def digit_val_def)

lemma head_at_once:
  assumes "k_writes k = Count 512 # ws" "c_write_sent c = 0" "0 < c_write_len c" "c_write_len c \<le> 512"
  obtains w where
    "try_flush_write_buffer c k = Some (Flushed, c\<lparr>c_write_sent := c_write_len c\<rparr>, k\<lparr>k_writes := ws, k_wire := w\<rparr>)"
proof -
  let ?data = "array_str (c_write_buf c) (c_write_len c)"
  let ?w = "(k_wire k)(c_fd c := k_wire k (c_fd c) @ ?data)"
  have "try_flush_write_buffer c k =
      try_flush_write_buffer (c\<lparr>c_write_sent := c_write_len c\<rparr>) (k\<lparr>k_writes := ws, k_wire := ?w\<rparr>)"
    using assms by (subst try_flush_write_buffer.simps) (simp add: sys_write_def Let_def)
  also have "\<dots> = Some (Flushed, c\<lparr>c_write_sent := c_write_len c\<rparr>, k\<lparr>k_writes := ws, k_wire := ?w\<rparr>)"
    by (subst try_flush_write_buffer.simps) simp
  finally show thesis by (rule that)
qed

lemma body_at_once:
  assumes "k_sendfiles k = Count m # sfs" "c_file_offset c = 0" "0 < c_file_size c" "c_file_size c \<le> int m"
    "c_file_size c \<le> SENDFILE_MAX_CHUNK" "c_file_size c \<le> int (length (k_content k (c_file_fd c)))"
  obtains w where
    "try_sendfile_body c k = (Flushed, c\<lparr>c_file_offset := c_file_size c\<rparr>, k\<lparr>k_sendfiles := sfs, k_wire := w\<rparr>)"
proof -
  let ?data = "take (nat (c_file_size c)) (k_content k (c_file_fd c))"
  let ?w = "(k_wire k)(c_fd c := k_wire k (c_fd c) @ ?data)"
  have len: "length ?data = nat (c_file_size c)" "min m (nat (c_file_size c)) = nat (c_file_size c)"
    "k_content k (c_file_fd c) \<noteq> []" using assms by auto
  have "try_sendfile_body c k =
      try_sendfile_body (c\<lparr>c_file_offset := c_file_size c\<rparr>) (k\<lparr>k_sendfiles := sfs, k_wire := ?w\<rparr>)"
    using assms len by (subst try_sendfile_body.simps) (simp add: sys_sendfile_def Let_def)
  also have "\<dots> = (Flushed, c\<lparr>c_file_offset := c_file_size c\<rparr>, k\<lparr>k_sendfiles := sfs, k_wire := ?w\<rparr>)"
    by (subst try_sendfile_body.simps) simp
  finally show thesis by (rule that)
qed

text \<open>Whether the kernel takes a file response in one piece.\<close>

definition file_ready :: "routed_response \<Rightarrow> kernel \<Rightarrow> bool" where
  "file_ready r k \<longleftrightarrow>
     (let f = resp_file r
      in 0 \<le> f_fd f \<longrightarrow> k_sendfiles k = [Count (nat (f_size f))] \<and> 0 < f_size f \<and> f_size f \<le> SENDFILE_MAX_CHUNK \<and>
           f_size f \<le> int (length (k_content k (f_fd f))))"

lemma sent_at_once:
  assumes "k_writes k = Count 512 # ws" "file_ready r k" "0 < length msg" "length msg < 512" "c_file_fd c < 0"
  obtains c' k' where "try_flush_response (prepared c r keep msg buf) k = Some (Flushed, c', k')"
    "c_keep_alive_after_write c' = keep" "c_awaiting_writable c' = c_awaiting_writable c"
    "k_writes k' = ws" "k_reads k' = k_reads k" "k_files k' = k_files k" "k_times k' = k_times k" "k_fds k' = k_fds k"
    "k_seen k' = k_seen k"
    "0 \<le> f_fd (resp_file r) \<or> c_file_fd c' < 0 \<and> k_sendfiles k' = k_sendfiles k" "k_now k' = k_now k" "k_ctls k' = k_ctls k"
proof -
  let ?c = "prepared c r keep msg buf"
  have c: "c_write_sent ?c = 0" "c_write_len ?c = length msg" "c_keep_alive_after_write ?c = keep"
    "c_awaiting_writable ?c = c_awaiting_writable c" by (simp_all add: prepared_def Let_def)
  obtain w where w: "try_flush_write_buffer ?c k =
      Some (Flushed, ?c\<lparr>c_write_sent := c_write_len ?c\<rparr>, k\<lparr>k_writes := ws, k_wire := w\<rparr>)"
    by (rule head_at_once [OF assms(1) c(1)]) (use assms(3,4) c(2) in simp_all)
  show thesis
  proof (cases "0 \<le> f_fd (resp_file r)")
    case False
    then have "c_file_fd ?c < 0" using assms(5) by (simp add: prepared_def Let_def)
    with False w c show thesis
      by (intro that [of "?c\<lparr>c_write_sent := c_write_len ?c\<rparr>" "k\<lparr>k_writes := ws, k_wire := w\<rparr>"])
         (simp_all add: try_flush_response_def)
  next
    case True
    let ?c1 = "?c\<lparr>c_write_sent := c_write_len ?c\<rparr>" and ?k1 = "k\<lparr>k_writes := ws, k_wire := w\<rparr>"
    have f: "c_file_fd ?c1 = f_fd (resp_file r)" "c_file_offset ?c1 = 0" "c_file_size ?c1 = f_size (resp_file r)"
      using True by (simp_all add: prepared_def Let_def)
    obtain w2 where "try_sendfile_body ?c1 ?k1 =
        (Flushed, ?c1\<lparr>c_file_offset := c_file_size ?c1\<rparr>, ?k1\<lparr>k_sendfiles := [], k_wire := w2\<rparr>)"
      by (rule body_at_once [of ?k1 "nat (f_size (resp_file r))" "[]" ?c1])
         (use assms(2) True f in \<open>simp_all add: file_ready_def Let_def\<close>)
    with True w c f show thesis
      by (intro that [of "?c1\<lparr>c_file_offset := c_file_size ?c1\<rparr>" "?k1\<lparr>k_sendfiles := [], k_wire := w2\<rparr>"])
         (simp_all add: try_flush_response_def)
  qed
qed

lemma finished_at_once:
  assumes "s_heap s p = Some c" "c_keep_alive_after_write c" "\<not> c_awaiting_writable c" "k_times (s_kernel s) = []"
  obtains c' k' where "finish_after_response_sent p s = Some (True, put_conn p c' k' s)"
    "c_parser c' = http_parser_init" "c_file_fd c' < 0" "\<not> c_awaiting_writable c'"
    "k_writes k' = k_writes (s_kernel s)" "k_reads k' = k_reads (s_kernel s)" "k_files k' = k_files (s_kernel s)"
    "k_times k' = []" "k_ctls k' = k_ctls (s_kernel s)" "k_now k' = k_now (s_kernel s)" "k_seen k' = k_seen (s_kernel s)"
    "k_sendfiles k' = k_sendfiles (s_kernel s)"
    "k_fds k' = (if 0 \<le> c_file_fd c then k_fds (s_kernel s) - {c_file_fd c} else k_fds (s_kernel s))"
proof -
  obtain c1 k1 where r: "release_file_body c (s_kernel s) = (c1, k1)" by fastforce
  have k1: "k1 = (if 0 \<le> c_file_fd c then sys_close (c_file_fd c) (s_kernel s) else s_kernel s)"
    "c_file_fd c1 < 0" "c_keep_alive_after_write c1" "\<not> c_awaiting_writable c1"
    using r assms(2,3) by (auto simp: release_file_body_def Let_def split: if_splits)
  let ?c2 = "c1\<lparr>c_parser := http_parser_init, c_write_len := 0, c_write_sent := 0, c_last_activity := k_now k1\<rparr>"
  have "sys_time k1 = (k_now k1, k1)" using k1(1) assms(4) by (simp add: sys_time_def sys_close_def)
  then have "finish_after_response_sent p s = Some (True, put_conn p ?c2 k1 s)"
    using assms(1) r k1(3,4) by (simp add: finish_after_response_sent_def)
  then show thesis by (rule that) (use k1 assms(4) in \<open>simp_all add: sys_close_def\<close>)
qed

text \<open>A turn of \<^verbatim>\<open>process_input\<close> whose response is taken in one piece, and one that blocks at once.\<close>

lemma turn_sent:
  assumes c: "s_heap s p = Some c" "c_file_fd c < 0" "\<not> c_awaiting_writable c"
    and parse: "http_parser_execute (c_parser c) data = Some (q, result, n)" "result \<noteq> HTTP_PARSE_INCOMPLETE" "data \<noteq> []"
    and r: "choose_response s q result = Some (r, True, k)" "wf_response r" "\<bar>s_worker_id s\<bar> < 2 ^ 31"
    and k: "k_writes k = Count 512 # ws" "file_ready r k" "k_times k = []"
  obtains c' k' where "process_input p data s = process_input p (drop n data) (put_conn p c' k' s)"
    "c_parser c' = http_parser_init" "c_file_fd c' < 0" "\<not> c_awaiting_writable c'" "k_writes k' = ws"
    "k_reads k' = k_reads k" "k_files k' = k_files k" "k_times k' = []" "k_ctls k' = k_ctls k" "k_now k' = k_now k"
    "k_seen k' = k_seen k" "0 \<le> f_fd (resp_file r) \<or> k_sendfiles k' = k_sendfiles k \<and> k_fds k' = k_fds k"
proof -
  let ?c = "c\<lparr>c_parser := q\<rparr>"
  obtain msg buf where msg: "head_text r True (s_worker_id s) = Some msg" "length msg < RESPONSE_BUF_SIZE"
    "prepare_response ?c r True (s_worker_id s) k = Some (prepared ?c r True msg buf, k)"
    using prepare_response_ok [OF r(2,3)] .
  have pos: "0 < length msg"
    using msg(1) by (auto simp: head_text_def response_text_def file_head_text_def bind_eq_Some_conv split: if_splits)
  let ?d = "prepared ?c r True msg buf"
  have c': "c_file_fd ?c < 0" "\<not> c_awaiting_writable ?c" using c by simp_all
  obtain c1 k1 where s1: "try_flush_response ?d k = Some (Flushed, c1, k1)"
    "c_keep_alive_after_write c1 = True" "c_awaiting_writable c1 = c_awaiting_writable ?c"
    and k1: "k_writes k1 = ws" "k_reads k1 = k_reads k" "k_files k1 = k_files k" "k_times k1 = k_times k" "k_fds k1 = k_fds k"
    "k_seen k1 = k_seen k" "0 \<le> f_fd (resp_file r) \<or> c_file_fd c1 < 0 \<and> k_sendfiles k1 = k_sendfiles k" "k_now k1 = k_now k" "k_ctls k1 = k_ctls k"
    by (rule sent_at_once [OF k(1,2) pos _ c'(1), of True buf]) (use msg(2) in simp_all)
  let ?s1 = "put_conn p c1 k1 s"
  obtain c2 k2 where f: "finish_after_response_sent p ?s1 = Some (True, put_conn p c2 k2 ?s1)"
    "c_parser c2 = http_parser_init" "c_file_fd c2 < 0" "\<not> c_awaiting_writable c2"
    "k_writes k2 = k_writes (s_kernel ?s1)" "k_reads k2 = k_reads (s_kernel ?s1)" "k_files k2 = k_files (s_kernel ?s1)"
    "k_times k2 = []" "k_ctls k2 = k_ctls (s_kernel ?s1)" "k_now k2 = k_now (s_kernel ?s1)" "k_seen k2 = k_seen (s_kernel ?s1)"
    "k_sendfiles k2 = k_sendfiles (s_kernel ?s1)"
    "k_fds k2 = (if 0 \<le> c_file_fd c1 then k_fds (s_kernel ?s1) - {c_file_fd c1} else k_fds (s_kernel ?s1))"
    by (rule finished_at_once [of ?s1 p c1]) (use s1 k1(4) k(3) c(3) in simp_all)
  have "send_response p (put_conn p ?d k s) = Some (True, put_conn p c2 k2 s)"
    using s1(1) f(1) by (simp add: send_response_def)
  then have "process_input p data s = process_input p (drop n data) (put_conn p c2 k2 s)"
    using c(1) parse r(1) msg(3) f(4) by (simp add: process_input.simps [of p data s])
  then show thesis by (rule that) (use f k1 k(3) in auto)
qed

lemma turn_blocked:
  assumes c: "s_heap s p = Some c"
    and parse: "http_parser_execute (c_parser c) data = Some (q, result, n)" "result \<noteq> HTTP_PARSE_INCOMPLETE" "data \<noteq> []"
      "drop n data = []"
    and r: "choose_response s q result = Some (r, True, k)" "wf_response r" "\<bar>s_worker_id s\<bar> < 2 ^ 31"
    and k: "k_writes k = []" "k_ctls k = []"
  obtains c' where "process_input p data s = Some (True, put_conn p c' k s)" "c_awaiting_writable c'"
proof -
  let ?c = "c\<lparr>c_parser := q\<rparr>"
  obtain msg buf where msg: "head_text r True (s_worker_id s) = Some msg" "length msg < RESPONSE_BUF_SIZE"
    "prepare_response ?c r True (s_worker_id s) k = Some (prepared ?c r True msg buf, k)"
    using prepare_response_ok [OF r(2,3)] .
  have pos: "0 < length msg"
    using msg(1) by (auto simp: head_text_def response_text_def file_head_text_def bind_eq_Some_conv split: if_splits)
  let ?d = "prepared ?c r True msg buf"
  have "c_write_sent ?d = 0" "c_write_len ?d = length msg" by (simp_all add: prepared_def Let_def)
  then have "try_flush_response ?d k = Some (Blocked, ?d, k)"
    using pos msg(2) k(1) by (simp add: try_flush_response_def try_flush_write_buffer.simps [of ?d] sys_write_def)
  then have "send_response p (put_conn p ?d k s) = Some (True, put_conn p (?d\<lparr>c_awaiting_writable := True\<rparr>) k s)"
    using k(2) by (simp add: send_response_def sys_epoll_ctl_def)
  moreover obtain c' where "stash_pending_input (?d\<lparr>c_awaiting_writable := True\<rparr>) [] = Some c'" "c_awaiting_writable c'"
    by (simp add: stash_pending_input_def array_write_def)
  ultimately show thesis
    using c parse r(1) msg(3) by (intro that [of c']) (simp_all add: process_input.simps [of p data s])
qed

lemma choose_routed:
  assumes "config_ok s" "wf_parser p" "parsed_as q (abs_parser p)" "sys_files (s_kernel s) = ((fs, content), k0)"
    "r = route_of (s_root s) fs q"
  shows "wf_response r \<and> choose_response s p HTTP_PARSE_COMPLETE = Some (r, keeps_alive q,
    k0\<lparr>k_fds := k_fds k0 \<union> file_fds (resp_file r),
       k_content := (if 0 \<le> f_fd (resp_file r) then (k_content k0)(f_fd (resp_file r) := content) else k_content k0)\<rparr>)"
proof -
  have fr: "fs_opens_fresh fs (k_fds k0)" "fs_sizes fs"
    using assms(4) by (auto simp: sys_files_def no_files_opens_fresh fresh_view_opens_fresh fresh_view_sizes split: list.splits)
  have g: "wf_root (s_root s)" using assms(1) by (simp add: config_ok_def)
  from route_request_ok [OF assms(2) g fr] obtain r' where r': "wf_response r'"
    "route_request (s_root s) fs (k_fds k0) p = Some (r', k_fds k0 \<union> file_fds (resp_file r'))" by auto
  with route_request_route_of [OF g assms(2,3)] assms(4,5) parsed_fields(3) [OF assms(3)] show ?thesis
    by (auto simp: choose_response_def)
qed

definition sample_input :: string where
  "sample_input = concat (map render_request [hello_request, file_request])"

definition sample_boot :: "io list \<Rightarrow> kernel" where
  "sample_boot ws = demo_kernel\<lparr>k_accepts := [Accepted 8], k_mallocs := [Some 2], k_reads := [Data sample_input], k_writes := ws,
     k_sendfiles := [Count 12], k_files := [(no_files, []), (demo_fs, ''hello, file!'')], k_fds := {3}\<rparr>"

definition sample_waits :: "wait_answer list" where
  "sample_waits = [Ready [\<lparr>ev_source = Listen_fd, ev_error = False\<rparr>], Ready [\<lparr>ev_source = Conn 2, ev_error = False\<rparr>]]"

definition sample_start :: "io list \<Rightarrow> server" where
  "sample_start ws = \<lparr>s_epoll_fd = 20, s_listen_fd = 3, s_timer_fd = 21, s_idle_timeout_seconds = 30, s_worker_id = 0,
     s_connections = None, s_heap = Map.empty, s_kernel = (sample_boot ws)\<lparr>k_fds := {21, 20, 3}\<rparr>, s_root = demo_root\<rparr>"

definition sample_views :: "view list" where
  "sample_views = [(fresh_view {8, 21, 20, 3} no_files, []), (fresh_view {8, 21, 20, 3} demo_fs, ''hello, file!'')]"

lemma sample_setup: "event_loop_setup demo_config demo_setup demo_root (sample_boot ws) = Inr (sample_start ws)"
  by (simp add: event_loop_setup_def demo_config_def demo_setup_def sample_boot_def demo_kernel_def open_fresh_def sample_start_def)

abbreviation sample_met :: "io list \<Rightarrow> server" where
  "sample_met ws \<equiv> met 2 8 (sample_start ws)"

lemma sample_accepts:
  "handle_event \<lparr>ev_source = Listen_fd, ev_error = False\<rparr> (sample_start ws) = Some (Continue, sample_met ws)"
  by (rule accept_one) (simp_all add: sample_start_def sample_boot_def demo_kernel_def)

text \<open>Handling the event of the client decides the run, its conditions and its history.\<close>

lemma sample_run:
  assumes "handle_event \<lparr>ev_source = Conn 2, ev_error = False\<rparr> (sample_met ws) = Some (Continue, s')"
    "k_reads (s_kernel s') = []" "k_seen (s_kernel s') = sample_views"
  shows "wait_loop sample_waits (sample_start ws) = Some (Continue, s')" "epoll_waits sample_waits (sample_start ws)"
    "sweeps_spare sample_waits (sample_start ws)"
    "transcript sample_waits (sample_start ws) (\<lambda>q. ([], [])) 2 = (sample_views, sample_input)"
proof -
  note [simp] = sample_accepts assms(1)
  show "wait_loop sample_waits (sample_start ws) = Some (Continue, s')" by (simp add: sample_waits_def)
  show "epoll_waits sample_waits (sample_start ws)" by (simp add: sample_waits_def epoll_batch_def) (simp add: met_def)
  show "sweeps_spare sample_waits (sample_start ws)" by (simp add: sample_waits_def)
  have k: "k_reads (s_kernel (sample_met ws)) = [Data sample_input]" "k_seen (s_kernel (sample_met ws)) = []"
    by (simp_all add: met_def sample_start_def sample_boot_def demo_kernel_def)
  have "length sample_input \<le> READ_CHUNK_SIZE"
    by (simp add: sample_input_def render_request_def render_line_def hello_request_def file_request_def)
  then show "transcript sample_waits (sample_start ws) (\<lambda>q. ([], [])) 2 = (sample_views, sample_input)"
    by (simp add: sample_waits_def note_event_def delivered_def looked_up_def k assms(2,3) received_def read_octets_def)
qed

lemma hello_route: "route_of g fs hello_request = simple_response 200 ''OK'' ''Hello, hello!'' None"
  by (simp add: route_of_def hello_request_def greeting_def)

lemma file_route:
  "route_of demo_root (fresh_view {8, 21, 20, 3} demo_fs) file_request =
     \<lparr>resp_status = 200, resp_reason = ''OK'', resp_body = None, resp_content_type = Some ''text/plain; charset=utf-8'',
      resp_extra_header = None, resp_file = \<lparr>f_fd = 7, f_size = 12, f_content_type = Some ''text/plain; charset=utf-8''\<rparr>\<rparr>"
proof -
  have "spec_decode 4095 ''/a.txt'' = Inr ''/a.txt''" by simp
  then have "spec_resolve (root_of demo_root) ''/a.txt'' = Inr ''/srv/www/a.txt''"
    by (simp add: spec_resolve_def spec_join_def demo_root_of root_base_def segments_def)
  moreover have "content_type_for ''/srv/www/a.txt'' = ''text/plain; charset=utf-8''" by code_simp
  ultimately show ?thesis
    by (simp add: route_of_def file_request_def file_answer_def spec_open_def fresh_view_def demo_fs_def fd_contained_def
        under_root_def demo_root_of root_base_def)
qed

lemma sample_event:
  assumes "process_input 2 sample_input (put_conn 2 (new_connection 8 100) ((s_kernel (sample_met ws))\<lparr>k_reads := []\<rparr>) (sample_met ws)) =
      Some (True, s')" "s_heap s' 2 = Some c" "k_reads (s_kernel s') = []"
  shows "handle_event \<lparr>ev_source = Conn 2, ev_error = False\<rparr> (sample_met ws) = Some (Continue, s')"
proof -
  let ?s = "sample_met ws" and ?c = "new_connection 8 100"
  have heap: "s_heap ?s 2 = Some ?c" "\<not> c_awaiting_writable ?c"
    by (simp_all add: met_def sample_start_def sample_boot_def demo_kernel_def new_connection_def)
  have len: "length sample_input \<le> READ_CHUNK_SIZE" "sample_input \<noteq> []"
    by (simp_all add: sample_input_def render_request_def render_line_def hello_request_def file_request_def)
  then have "sys_read READ_CHUNK_SIZE (s_kernel ?s) = (Data sample_input, (s_kernel ?s)\<lparr>k_reads := []\<rparr>)"
    by (simp add: met_def sample_start_def sample_boot_def sys_read_def)
  moreover have "sys_time ((s_kernel ?s)\<lparr>k_reads := []\<rparr>) = (100, (s_kernel ?s)\<lparr>k_reads := []\<rparr>)"
    by (simp add: met_def sample_start_def sample_boot_def demo_kernel_def sys_time_def)
  moreover have "?c\<lparr>c_last_activity := 100\<rparr> = ?c" by (simp add: new_connection_def)
  ultimately have "handle_client_readable 2 ?s = (if c_awaiting_writable c then Some s' else handle_client_readable 2 s')"
    using heap assms(1,2) len(2) by (subst handle_client_readable.simps) simp
  moreover have "handle_client_readable 2 s' = Some s'"
  proof -
    have "put_conn 2 c (s_kernel s') s' = s'" using assms(2) by (simp add: put_conn_def fun_upd_idem)
    with assms(2,3) show ?thesis by (subst handle_client_readable.simps) (simp add: sys_read_def)
  qed
  ultimately show ?thesis using heap by (simp add: handle_event_def is_infrastructure_fd_def continue_def)
qed

text \<open>The first request is answered; the second is left for the kernel to look up the file.\<close>

lemma sample_first:
  obtains c k where "process_input 2 sample_input
      (put_conn 2 (new_connection 8 100) ((s_kernel (sample_met (Count 512 # ws)))\<lparr>k_reads := []\<rparr>) (sample_met (Count 512 # ws))) =
      process_input 2 (render_request file_request) (put_conn 2 c k (sample_met (Count 512 # ws)))"
    "c_parser c = http_parser_init" "c_file_fd c < 0" "\<not> c_awaiting_writable c" "k_writes k = ws" "k_reads k = []"
    "k_files k = [(demo_fs, ''hello, file!'')]" "k_times k = []" "k_ctls k = []" "k_sendfiles k = [Count 12]"
    "k_fds k = {8, 21, 20, 3}" "k_seen k = [(fresh_view {8, 21, 20, 3} no_files, [])]"
proof -
  let ?a = "sample_met (Count 512 # ws)"
  let ?s = "put_conn 2 (new_connection 8 100) ((s_kernel ?a)\<lparr>k_reads := []\<rparr>) ?a"
  let ?v = "(fresh_view {8, 21, 20, 3} no_files, [])" and ?r = "simple_response 200 ''OK'' ''Hello, hello!'' None"
  note sample = met_def sample_start_def sample_boot_def demo_kernel_def
  obtain q where q: "http_parser_execute http_parser_init sample_input =
      Some (q, HTTP_PARSE_COMPLETE, length (render_request hello_request))" "parsed_as hello_request (abs_parser q)"
    using execute_request [OF sample_requests_ok(1), of "render_request file_request"] by (auto simp: sample_input_def)
  have wf: "wf_parser q" using http_parser_execute_wf [OF wf_parser_init q(1)] by simp
  let ?k0 = "(s_kernel ?s)\<lparr>k_files := [(demo_fs, ''hello, file!'')], k_seen := [?v]\<rparr>"
  have files: "sys_files (s_kernel ?s) = (?v, ?k0)" by (simp add: sample sys_files_def)
  have root: "config_ok ?s" "s_root ?s = demo_root" "s_worker_id ?s = 0"
    by (simp_all add: sample config_ok_def demo_root_wf)
  obtain k1 where k1: "choose_response ?s q HTTP_PARSE_COMPLETE = Some (?r, True, k1)" "wf_response ?r"
    "k1 = ?k0\<lparr>k_fds := k_fds ?k0 \<union> {}, k_content := k_content ?k0\<rparr>"
    using choose_routed [OF root(1) wf q(2) files refl] hello_route sample_requests_ok(2)
    by (simp add: simple_response_def no_file_def file_fds_def)
  have c: "s_heap ?s 2 = Some (new_connection 8 100)" "c_file_fd (new_connection 8 100) < 0"
    "\<not> c_awaiting_writable (new_connection 8 100)" "c_parser (new_connection 8 100) = http_parser_init"
    by (simp_all add: new_connection_def)
  have f: "f_fd (resp_file ?r) < 0" by (simp add: simple_response_def no_file_def)
  obtain c' k' where t: "process_input 2 sample_input ?s = process_input 2 (drop (length (render_request hello_request)) sample_input)
       (put_conn 2 c' k' ?s)"
    "c_parser c' = http_parser_init" "c_file_fd c' < 0" "\<not> c_awaiting_writable c'" "k_writes k' = ws"
    "k_reads k' = k_reads k1" "k_files k' = k_files k1" "k_times k' = []" "k_ctls k' = k_ctls k1" "k_now k' = k_now k1"
    "k_seen k' = k_seen k1" "0 \<le> f_fd (resp_file ?r) \<or> k_sendfiles k' = k_sendfiles k1 \<and> k_fds k' = k_fds k1"
    by (rule turn_sent [OF c(1-3) _ _ _ k1(1,2), where n = "length (render_request hello_request)" and data = sample_input and ws = ws])
       (use q(1) c(4) k1(3) f root in \<open>simp_all add: sample file_ready_def Let_def sample_input_def render_request_def render_line_def hello_request_def\<close>)
  have "drop (length (render_request hello_request)) sample_input = render_request file_request" by (simp add: sample_input_def)
  with t f k1(3) show thesis by (intro that [of c' k']) (simp_all add: sample)
qed

lemma sample_second:
  assumes k: "k_files k = [(demo_fs, ''hello, file!'')]" "k_fds k = {8, 21, 20, 3}" "k_seen k = [(fresh_view {8, 21, 20, 3} no_files, [])]"
    and c: "c_parser c = http_parser_init"
  obtains q r k1 where "http_parser_execute (c_parser c) (render_request file_request) =
      Some (q, HTTP_PARSE_COMPLETE, length (render_request file_request))"
    "choose_response (put_conn 2 c k (sample_met ws)) q HTTP_PARSE_COMPLETE = Some (r, True, k1)" "wf_response r"
    "f_fd (resp_file r) = 7" "f_size (resp_file r) = 12" "k_content k1 7 = ''hello, file!''" "k_seen k1 = sample_views"
    "k_reads k1 = k_reads k" "k_writes k1 = k_writes k" "k_times k1 = k_times k" "k_ctls k1 = k_ctls k"
    "k_sendfiles k1 = k_sendfiles k"
proof -
  let ?s = "put_conn 2 c k (sample_met ws)" and ?fs = "fresh_view {8, 21, 20, 3} demo_fs"
  let ?r = "route_of demo_root ?fs file_request"
  obtain q where q: "http_parser_execute http_parser_init (render_request file_request) =
      Some (q, HTTP_PARSE_COMPLETE, length (render_request file_request))" "parsed_as file_request (abs_parser q)"
    using execute_request [OF sample_requests_ok(3), of "[]"] by auto
  have wf: "wf_parser q" using http_parser_execute_wf [OF wf_parser_init q(1)] by simp
  let ?k0 = "k\<lparr>k_files := [], k_seen := sample_views\<rparr>"
  have files: "sys_files (s_kernel ?s) = ((?fs, ''hello, file!''), ?k0)" using k by (simp add: sys_files_def sample_views_def)
  have root: "config_ok ?s" "s_root ?s = demo_root" "s_worker_id ?s = 0"
    by (simp_all add: met_def sample_start_def config_ok_def demo_root_wf)
  have r: "wf_response ?r" "choose_response ?s q HTTP_PARSE_COMPLETE = Some (?r, True,
      ?k0\<lparr>k_fds := k_fds ?k0 \<union> file_fds (resp_file ?r), k_content := (k_content ?k0)(7 := ''hello, file!'')\<rparr>)"
    using choose_routed [OF root(1) wf q(2) files, of ?r] sample_requests_ok(4) root(2) by (simp_all add: file_route)
  show thesis by (rule that [OF _ r(2,1)]) (use q(1) c in \<open>simp_all add: file_route\<close>)
qed

text \<open>With room for one head only, the file is still owed at the end; with room for both, nothing is.\<close>

lemma sample_owes:
  obtains s' c where "handle_event \<lparr>ev_source = Conn 2, ev_error = False\<rparr> (sample_met [Count 512]) = Some (Continue, s')"
    "s_heap s' 2 = Some c" "c_awaiting_writable c" "k_reads (s_kernel s') = []" "k_seen (s_kernel s') = sample_views"
proof -
  obtain c k where 1: "process_input 2 sample_input
      (put_conn 2 (new_connection 8 100) ((s_kernel (sample_met [Count 512]))\<lparr>k_reads := []\<rparr>) (sample_met [Count 512])) =
      process_input 2 (render_request file_request) (put_conn 2 c k (sample_met [Count 512]))"
    "c_parser c = http_parser_init" "k_writes k = []" "k_reads k = []" "k_files k = [(demo_fs, ''hello, file!'')]" "k_ctls k = []"
    "k_fds k = {8, 21, 20, 3}" "k_seen k = [(fresh_view {8, 21, 20, 3} no_files, [])]"
    by (rule sample_first [of "[]"])
  let ?s = "put_conn 2 c k (sample_met [Count 512])"
  obtain q r k1 where 2: "http_parser_execute (c_parser c) (render_request file_request) =
      Some (q, HTTP_PARSE_COMPLETE, length (render_request file_request))"
    "choose_response ?s q HTTP_PARSE_COMPLETE = Some (r, True, k1)" "wf_response r" "k_seen k1 = sample_views"
    "k_reads k1 = k_reads k" "k_writes k1 = k_writes k" "k_ctls k1 = k_ctls k"
    by (rule sample_second [OF 1(5,7,8,2), of "[Count 512]"])
  have w: "\<bar>s_worker_id ?s\<bar> < 2 ^ 31" by (simp add: met_def sample_start_def)
  have h: "s_heap ?s 2 = Some c" by simp
  have ne: "render_request file_request \<noteq> []" by (simp add: render_request_def)
  obtain c' where 3: "process_input 2 (render_request file_request) ?s = Some (True, put_conn 2 c' k1 ?s)" "c_awaiting_writable c'"
    by (rule turn_blocked [OF h 2(1) _ ne _ 2(2,3) w]) (use 1 2 in simp_all)
  have "handle_event \<lparr>ev_source = Conn 2, ev_error = False\<rparr> (sample_met [Count 512]) = Some (Continue, put_conn 2 c' k1 ?s)"
    by (rule sample_event) (use 1 2 3 in simp_all)
  then show thesis by (rule that [where c = c']) (use 1 2 3 in simp_all)
qed

lemma sample_done:
  obtains s' c where "handle_event \<lparr>ev_source = Conn 2, ev_error = False\<rparr> (sample_met [Count 512, Count 512]) = Some (Continue, s')"
    "s_heap s' 2 = Some c" "\<not> c_awaiting_writable c" "k_reads (s_kernel s') = []" "k_seen (s_kernel s') = sample_views"
proof -
  let ?a = "sample_met [Count 512, Count 512]"
  obtain c k where 1: "process_input 2 sample_input
      (put_conn 2 (new_connection 8 100) ((s_kernel ?a)\<lparr>k_reads := []\<rparr>) ?a) =
      process_input 2 (render_request file_request) (put_conn 2 c k ?a)"
    "c_parser c = http_parser_init" "c_file_fd c < 0" "\<not> c_awaiting_writable c" "k_writes k = [Count 512]" "k_reads k = []"
    "k_files k = [(demo_fs, ''hello, file!'')]" "k_times k = []" "k_sendfiles k = [Count 12]"
    "k_fds k = {8, 21, 20, 3}" "k_seen k = [(fresh_view {8, 21, 20, 3} no_files, [])]"
    by (rule sample_first [of "[Count 512]"])
  let ?s = "put_conn 2 c k ?a"
  obtain q r k1 where 2: "http_parser_execute (c_parser c) (render_request file_request) =
      Some (q, HTTP_PARSE_COMPLETE, length (render_request file_request))"
    "choose_response ?s q HTTP_PARSE_COMPLETE = Some (r, True, k1)" "wf_response r"
    "f_fd (resp_file r) = 7" "f_size (resp_file r) = 12" "k_content k1 7 = ''hello, file!''" "k_seen k1 = sample_views"
    "k_reads k1 = k_reads k" "k_writes k1 = k_writes k" "k_times k1 = k_times k" "k_sendfiles k1 = k_sendfiles k"
    by (rule sample_second [OF 1(7,10,11,2), of "[Count 512, Count 512]"])
  have ready: "file_ready r k1" using 1(9) 2(4-6,11) by (simp add: file_ready_def Let_def)
  have w: "\<bar>s_worker_id ?s\<bar> < 2 ^ 31" by (simp add: met_def sample_start_def)
  have h: "s_heap ?s 2 = Some c" by simp
  have ne: "render_request file_request \<noteq> []" by (simp add: render_request_def)
  obtain c' k' where 3: "process_input 2 (render_request file_request) ?s =
      process_input 2 (drop (length (render_request file_request)) (render_request file_request)) (put_conn 2 c' k' ?s)"
    "\<not> c_awaiting_writable c'" "k_reads k' = k_reads k1" "k_seen k' = k_seen k1"
    by (rule turn_sent [OF h _ _ 2(1) _ ne 2(2,3) w _ ready]) (use 1 2 in simp_all)
  have "handle_event \<lparr>ev_source = Conn 2, ev_error = False\<rparr> ?a = Some (Continue, put_conn 2 c' k' ?s)"
  proof (rule sample_event [where c = c'])
    have "process_input 2 [] (put_conn 2 c' k' ?s) = Some (True, put_conn 2 c' k' ?s)" by (subst process_input.simps) simp
    then show "process_input 2 sample_input (put_conn 2 (new_connection 8 100) ((s_kernel ?a)\<lparr>k_reads := []\<rparr>) ?a) =
        Some (True, put_conn 2 c' k' ?s)" unfolding 1(1) 3(1) by simp
  qed (use 1 2 3 in simp_all)
  then show thesis by (rule that [where c = c']) (use 1 2 3 in simp_all)
qed

section \<open>The witnesses, and the end of a run\<close>

definition hello_text :: string where
  "hello_text = ''HTTP/1.1 200 OK'' @ CRLF @ ''Content-Type: text/plain'' @ CRLF @ ''Content-Length: 13'' @ CRLF @
    ''X-Worker: 0'' @ CRLF @ ''Connection: keep-alive'' @ CRLF @ CRLF @ ''Hello, hello!''"

definition file_text :: string where
  "file_text = ''HTTP/1.1 200 OK'' @ CRLF @ ''Content-Type: text/plain; charset=utf-8'' @ CRLF @ ''Content-Length: 12'' @ CRLF @
    ''X-Worker: 0'' @ CRLF @ ''Connection: keep-alive'' @ CRLF @ CRLF @ ''hello, file!''"

lemma sample_answers:
  assumes "list_all2 (answer_to demo_root 0) (zip [hello_request, file_request] sample_views) outs"
  shows "concat outs = hello_text @ file_text"
proof -
  obtain out1 out2 where outs: "outs = [out1, out2]" "answer_to demo_root 0 (hello_request, fresh_view {8, 21, 20, 3} no_files, []) out1"
    "answer_to demo_root 0 (file_request, fresh_view {8, 21, 20, 3} demo_fs, ''hello, file!'') out2"
    using assms by (auto simp: sample_views_def list_all2_Cons1)
  have num: "decimal 200 = ''200''" "decimal 0 = ''0''" "decimal 12 = ''12''" "decimal_nat (length ''Hello, hello!'') = ''13''"
    by code_simp+
  have "out1 = hello_text"
    using outs(2) num sample_requests_ok(2)
    by (simp add: answer_to_def hello_route response_octets_def head_text_def response_text_def simple_response_def no_file_def
        conn_value_of_def hello_text_def)
  moreover have "out2 = file_text"
    using outs(3) num sample_requests_ok(4)
    by (simp add: answer_to_def file_route response_octets_def head_text_def file_head_text_def conn_value_of_def file_text_def)
  ultimately show ?thesis by (simp add: outs(1))
qed

theorem server_answers_in_order_witness:
  "\<exists>s' c. wait_loop sample_waits (sample_start [Count 512]) = Some (Continue, s') \<and> s_heap s' 2 = Some c \<and>
     c_awaiting_writable c \<and> dialogue demo_root 0 sample_views (render_request hello_request @ render_request file_request) c (s_kernel s')"
proof -
  obtain s' c where s': "handle_event \<lparr>ev_source = Conn 2, ev_error = False\<rparr> (sample_met [Count 512]) = Some (Continue, s')"
    "s_heap s' 2 = Some c" "c_awaiting_writable c" "k_reads (s_kernel s') = []" "k_seen (s_kernel s') = sample_views"
    by (rule sample_owes)
  note run = sample_run [OF s'(1,4,5)]
  show ?thesis
    using server_answers_in_order [OF sample_setup demo_root_wf _ run(2,3,1) s'(2) run(4)] run(1) s'(2,3)
    by (simp add: demo_config_def sample_input_def)
qed

theorem pipelined_requests_answered_witness:
  "\<exists>s' c. wait_loop sample_waits (sample_start [Count 512, Count 512]) = Some (Continue, s') \<and> s_heap s' 2 = Some c \<and>
     k_wire (s_kernel s') (c_fd c) = hello_text @ file_text"
proof -
  obtain s' c where s': "handle_event \<lparr>ev_source = Conn 2, ev_error = False\<rparr> (sample_met [Count 512, Count 512]) = Some (Continue, s')"
    "s_heap s' 2 = Some c" "\<not> c_awaiting_writable c" "k_reads (s_kernel s') = []" "k_seen (s_kernel s') = sample_views"
    by (rule sample_done)
  note run = sample_run [OF s'(1,4,5)]
  have "list_all (\<lambda>q. valid_request q \<and> keeps_alive q) [hello_request, file_request]" using sample_requests_ok by simp
  from pipelined_requests_answered [OF sample_setup demo_root_wf _ run(2,3,1) s'(2,3) run(4) [unfolded sample_input_def] this]
  obtain outs where "k_wire (s_kernel s') (c_fd c) = concat outs"
    "list_all2 (answer_to demo_root 0) (zip [hello_request, file_request] sample_views) outs"
    by (auto simp: demo_config_def)
  with sample_answers run(1) s'(2) show ?thesis by auto
qed

text \<open>
  C40. The status -1 after serving. Whatever a loop has served so far (under the conditions of C2 on
  its batches), when an infrastructure descriptor then reports an error, \<open>event_loop_run\<close> returns
  -1, with what was sent to the clients sent, no connection left and every descriptor given back;
  the interface comment promises 0 for a loop that ran and reserves -1 for a failed set-up. The
  witness is the run above, in which a client has received two complete responses.
\<close>

theorem run_may_return_minus_one_after_serving:
  assumes "event_loop_setup config su root k = Inr s" "wf_root root" "\<bar>cfg_worker_id config\<bar> < 2 ^ 31"
    "epoll_waits ws s" "sweeps_spare ws s" "wait_loop ws s = Some (Continue, s1)" "is_infrastructure_fd tag"
  shows "\<exists>s2. event_loop_run config su (ws @ [Ready [\<lparr>ev_source = tag, ev_error = True\<rparr>]]) root k = Some (Returned (-1) s2) \<and>
    k_wire (s_kernel s2) = k_wire (s_kernel s1) \<and> s_heap s2 = Map.empty \<and> k_fds (s_kernel s2) = k_fds k"
proof -
  obtain ps1 where inv: "any_inv (config_of s) (k_fds (s_kernel s)) ps1 s1"
    using wait_loop_inv [OF setup_inv [OF assms(1-3)] assms(4,5)] assms(6) by auto
  have "wait_loop (ws @ [Ready [\<lparr>ev_source = tag, ev_error = True\<rparr>]]) s = Some (Exit (-1), s1)"
    using wait_loop_append [OF assms(6)] assms(7) by (simp add: handle_event_def)
  from run_exit_ok [OF assms(1) this inv] show ?thesis by metis
qed

theorem run_may_return_minus_one_after_serving_witness:
  "\<exists>fd s2. event_loop_run demo_config demo_setup (sample_waits @ [Ready [\<lparr>ev_source = Timer_fd, ev_error = True\<rparr>]])
       demo_root (sample_boot [Count 512, Count 512]) = Some (Returned (-1) s2) \<and>
     k_wire (s_kernel s2) fd = hello_text @ file_text \<and> s_heap s2 = Map.empty \<and> k_fds (s_kernel s2) = {3}"
proof -
  obtain s' c where s': "handle_event \<lparr>ev_source = Conn 2, ev_error = False\<rparr> (sample_met [Count 512, Count 512]) = Some (Continue, s')"
    "s_heap s' 2 = Some c" "\<not> c_awaiting_writable c" "k_reads (s_kernel s') = []" "k_seen (s_kernel s') = sample_views"
    by (rule sample_done)
  note run = sample_run [OF s'(1,4,5)]
  have "list_all (\<lambda>q. valid_request q \<and> keeps_alive q) [hello_request, file_request]" using sample_requests_ok by simp
  from pipelined_answers [OF sample_setup demo_root_wf _ run(2,3,1) s'(2,3) run(4) [unfolded sample_input_def] this]
  have "k_wire (s_kernel s') (c_fd c) = hello_text @ file_text" using sample_answers by (auto simp: demo_config_def)
  then show ?thesis
    using run_may_return_minus_one_after_serving [OF sample_setup demo_root_wf _ run(2,3,1), of Timer_fd]
    by (auto simp: demo_config_def is_infrastructure_fd_def sample_boot_def)
qed

end
