(* ===== verification/Spec2Isabelle.thy ===== *)
theory Spec2Isabelle
  imports Server End_To_End
begin

text \<open>
  \<^bold>\<open>Verification of an HTTP server in C.\<close>

  The program is a static-file HTTP/1.1 server: one thread per worker, one epoll instance and
  one \<^verbatim>\<open>SO_REUSEPORT\<close> listening socket per thread, and no state shared between
  threads but the read-only document root and a shutdown descriptor. Its sources are
  \<^verbatim>\<open>http_parser.c\<close>, \<^verbatim>\<open>static_files.c\<close>, \<^verbatim>\<open>event_loop.c\<close>,
  \<^verbatim>\<open>worker_pool.c\<close> and \<^verbatim>\<open>main.c\<close> with their headers, under
  \<^verbatim>\<open>src/src/\<close>.

  \<^bold>\<open>How the parts interact.\<close> \<^verbatim>\<open>main\<close> resolves the document root
  (\<^verbatim>\<open>static_files_init\<close>), opens the shutdown descriptor, installs the signal
  handlers and calls \<^verbatim>\<open>worker_pool_run\<close>, which creates and joins the threads. A
  thread creates its socket and runs \<^verbatim>\<open>event_loop_run\<close>: it accepts connections,
  feeds what it reads to \<^verbatim>\<open>http_parser_execute\<close>, routes a complete request
  (\<^verbatim>\<open>route_request\<close>, which may call \<^verbatim>\<open>static_file_open\<close>), prepares the
  response and sends it, head first and then the file, over as many readiness events as it
  takes; it sweeps idle connections on a timer and leaves on a shutdown request.

  \<^bold>\<open>The theories.\<close>
  \<^item> \<open>HTTP_Prelude\<close>: octets, C character arrays with checked accesses, C string functions,
    list lemmas, the collections \<open>mem_simps\<close> and \<open>ctype_defs\<close>.
  \<^item> \<open>Http_Parser\<close> models \<^verbatim>\<open>http_parser.c\<close>: the record \<open>http_request_parser\<close>
    is the struct, one definition per case of the switch (\<open>on_method\<close> to \<open>on_headers_end_lf\<close>),
    the loop \<open>execute_loop\<close>. \<open>Incremental\<close> is the interface of an incremental parser as a
    locale. \<open>Parser_Spec\<close> gives the machine over strings that the C machine refines, and
    interprets that locale. \<open>Request_Grammar\<close> states the grammar of requests and the
    properties: memory safety, soundness and completeness for the grammar, unambiguous
    framing, independence of chunking, the keep-alive decision.
  \<^item> \<open>Static_Files\<close> models \<^verbatim>\<open>static_files.c\<close> over an arbitrary view of the file
    system (\<open>fs_view\<close>). \<open>Static_Spec\<close> has the specification over strings and the refinement;
    \<open>Static_Safety\<close> the properties: exact percent decoding, traversal refused, what is served
    lies below the root, refusals are uniform, no descriptor leaks.
  \<^item> \<open>Response\<close> models the routing table and the response texts of
    \<^verbatim>\<open>event_loop.c\<close>, with a client's reader of responses for the framing theorems.
  \<^item> \<open>Kernel\<close> is the operating system as the loop sees it. \<open>Connection\<close> models
    \<^verbatim>\<open>connection_t\<close> and the sending functions; \<open>Sending\<close> shows that a response goes out
    once, in order and completely, through the locale \<open>resumable_sender\<close>.
  \<^item> \<open>Conn_List\<close> models the doubly linked list of connections in an explicit heap, closing,
    the idle sweep and the clean-up; the locale \<open>live_registry\<close> is its interface.
  \<^item> \<open>Event_Loop\<close> models the handlers, the dispatch and \<^verbatim>\<open>event_loop_run\<close>;
    \<open>Loop_Safety\<close> proves the invariant of the loop for every handler: the list is intact, every
    connection is well-formed, every open descriptor has one owner.
  \<^item> \<open>Dialogue\<close> specifies what a client receives for what it sends (\<open>replies\<close>) and shows that the
    handlers of a connection keep to it: the responses to its requests, each once and in order,
    however reads and writes are cut and whether the response waits in the buffer or not.
    A response is tied to the view of the file system that its look-up was shown.
    \<open>Isolation\<close> shows that the handlers of a connection do not disturb the others, and that accepting
    and sweeping do not either; \<open>transcript\<close> collects, over a whole run, what every connection has
    received and the look-ups made for it.
    \<open>End_To_End\<close> specifies the answer to a request over the request and the file system alone
    (\<open>route_of\<close>, \<open>answer_to\<close>) and concludes that a client that pipelines valid requests receives the
    answers to them, in order, and finds them by reading the wire with
    \<^verbatim>\<open>Content-Length\<close>; also, that a loop that has served may still return -1.
  \<^item> \<open>Settings\<close> models the numbers from the environment (\<^verbatim>\<open>worker_pool_worker_count\<close>,
    \<^verbatim>\<open>idle_timeout_from_env\<close>) with \<^verbatim>\<open>strtol\<close>; both meet the contract of the
    locale \<open>bounded_setting\<close>.
  \<^item> \<open>Worker_Pool\<close> models \<^verbatim>\<open>worker_pool.c\<close>: the listening socket (its options, port and
    backlog as state of the sockets of the process, \<open>net\<close>, with the rule by which
    \<^verbatim>\<open>bind\<close> admits several sockets on one port), the thread body, and the pool as a step
    relation \<open>pool_step\<close> in which all threads interleave, with the sequential \<open>worker_pool_run\<close> as
    reference. \<open>Pool_Spec\<close> interprets the locale \<open>ranked_system\<close> for it and shows that the
    workers share the port, that interleavings agree with the reference, that slots are not used
    after they are freed (if the joins succeed; \<open>failed_join_use_after_free\<close> otherwise), and that
    the pool returns.
  \<^item> \<open>Server\<close> models \<^verbatim>\<open>main.c\<close> and its signal handler, and shows what holds while the
    program serves, what its exit status means, and that a shutdown request ends it with the
    descriptors of the process and of all its threads given back (\<open>after_threads\<close>).

  \<^bold>\<open>Conventions.\<close> A C function is a HOL function of the same name. Undefined behaviour (an
  access outside an array, a dereference of a freed connection, a null pointer) is the value
  \<open>None\<close>, so a theorem that a function returns \<open>Some\<close> says that it is memory safe. Sizes are
  \<open>nat\<close> and C integers are \<open>int\<close>; the widths appear where a bound matters (the limits of the
  parser's arrays, the 512 octets of the write buffer, \<^verbatim>\<open>PATH_MAX\<close>, 64-bit
  \<^verbatim>\<open>long\<close> and event counter, the 16 bits of a port). The nondeterminism of the
  kernel is a part of the state: one queue of answers for each system call. A loop over a
  non-blocking descriptor ends when the queue is empty, which stands for a call that would
  block; hence these loops terminate by the length of a queue and need no fuel. The loops over
  the linked list are \<open>partial_function (option)\<close>: not returning is \<open>None\<close> too, and the theorems
  show that they return. \<open>wait_loop\<close> runs over a finite list of answers of
  \<^verbatim>\<open>epoll_wait\<close>; the theorems hold for every such list, that is for every finite run.

  \<^bold>\<open>What the properties rest on.\<close> A batch of events names live connections, each once
  (\<open>epoll_batch\<close>, \<open>epoll_waits\<close>): this is what epoll documents for descriptors that are registered
  once and removed by their close. Beyond it, the properties of whole runs assume \<open>sweeps_spare\<close>:
  no timer event comes before an event of a connection that is idle by then. This is not a fact
  about epoll, and \<open>timer_then_connection_use_after_free\<close> shows that the code fails without it; each
  property that needs it names it in its statement. The properties of the pool and of the process
  also assume that \<^verbatim>\<open>pthread_join\<close> succeeds. Arrays on the stack are filled with
  arbitrary octets (\<open>fs_stack\<close>), not with zeros. Every look-up of the file system takes the next
  view from a queue and is logged (\<open>k_seen\<close>, which no code reads), so a property can say which file
  system a response was chosen by; the content of a file is the one of its look-up until it has been
  sent.
  \<open>realpath_names\<close> states that \<^verbatim>\<open>realpath\<close> gives non-empty names. New descriptors
  are unused ones (\<open>open_fresh\<close>, \<open>fresh_view\<close>, \<open>sys_accept\<close>), and new heap blocks are unused ones.

  \<^bold>\<open>Not modelled.\<close> Diagnostics on \<^verbatim>\<open>stderr\<close>, the banner on
  \<^verbatim>\<open>stdout\<close>, the socket option \<^verbatim>\<open>TCP_NODELAY\<close> and the value read from the
  timer have no influence on the state. \<^verbatim>\<open>set_nonblocking\<close> and the registrations of
  the set-up are answers of the set-up. A thread sees the descriptors of the process as its own
  view; the threads interleave at the boundaries of their bodies, since nothing they touch in
  between is shared. The file system may change between two look-ups but not within one, and a
  file that is written to while it is being sent is not modelled. The
  tests, the benchmark scripts and the build files are not part of the program.
\<close>

end
